(* ===== verification/Prelude.thy ===== *)
theory Prelude
  imports Main "HOL-Library.Multiset"
begin

text \<open>
  Shared vocabulary of the development.

  \<^item> type synonyms that name the Go types the model uses most;
  \<^item> the collections of rewrite rules the component theories fill;
  \<^item> generic lemmas on lists and strings the components share.

  A Go \<^verbatim>\<open>string\<close> and a \<^verbatim>\<open>[]byte\<close> are both byte
  sequences; HOL's \<^typ>\<open>char\<close> is a byte, so both become \<^typ>\<open>string\<close>.
  A Go \<^verbatim>\<open>int\<close> is 64 bits wide; it is a HOL \<^typ>\<open>int\<close> here, and the one place
  where a value enters the program from outside (JSON decoding) checks the 64-bit range.
  \<^verbatim>\<open>time.Time\<close> is an instant in nanoseconds since the Unix epoch and
  \<^verbatim>\<open>time.Duration\<close> a number of nanoseconds.
\<close>

type_synonym bytes = string
type_synonym instant = int
type_synonym duration = int

named_theorems wire_defs \<open>definitions of the zero values of the wire records\<close>

definition go_int64_min :: int where
  "go_int64_min = - (2 ^ 63)"

definition go_int64_max :: int where
  "go_int64_max = 2 ^ 63 - 1"

text \<open>A 64-bit product: \<^verbatim>\<open>time.Duration(n) * unit\<close> wraps around.\<close>

definition wrap64 :: "int \<Rightarrow> int" where
  "wrap64 n = (n + 2 ^ 63) mod 2 ^ 64 - 2 ^ 63"

lemma wrap64_id: "go_int64_min \<le> n \<Longrightarrow> n \<le> go_int64_max \<Longrightarrow> wrap64 n = n"
  by (simp add: wrap64_def go_int64_min_def go_int64_max_def)

lemma wrap64_range: "go_int64_min \<le> wrap64 n \<and> wrap64 n \<le> go_int64_max"
  unfolding wrap64_def go_int64_min_def go_int64_max_def
  using pos_mod_bound [of "2 ^ 64" "n + 2 ^ 63"] pos_mod_sign [of "2 ^ 64" "n + 2 ^ 63"] by simp

abbreviation millisecond :: duration where
  "millisecond \<equiv> 1000000"

abbreviation second :: duration where
  "second \<equiv> 1000000000"

subsection \<open>Lists\<close>

lemma set_filter_map_conv:
  "set (map f (filter P xs)) = f ` {x \<in> set xs. P x}"
  by auto

lemma take_Suc_snoc: "n < length xs \<Longrightarrow> take (Suc n) xs = take n xs @ [xs ! n]"
  by (rule take_Suc_conv_app_nth)

lemma nth_take_drop:
  "i < n \<Longrightarrow> k + n \<le> length xs \<Longrightarrow> take n (drop k xs) ! i = xs ! (k + i)"
  by simp

lemma set_take_drop_nth:
  assumes "x \<in> set (take n (drop k xs))"
  obtains i where "k \<le> i" "i < k + n" "i < length xs" "x = xs ! i"
proof -
  from assms obtain j where "j < length (take n (drop k xs))" "x = take n (drop k xs) ! j"
    by (auto simp: in_set_conv_nth)
  then have "k \<le> k + j" "k + j < k + n" "k + j < length xs" "x = xs ! (k + j)"
    by auto
  then show thesis by (rule that)
qed

subsection \<open>Decimal digits\<close>

definition is_digit :: "char \<Rightarrow> bool" where
  "is_digit c \<longleftrightarrow> 48 \<le> (of_char c :: nat) \<and> (of_char c :: nat) \<le> 57"

definition digit_val :: "char \<Rightarrow> nat" where
  "digit_val c = of_char c - 48"

definition digit_char :: "nat \<Rightarrow> char" where
  "digit_char d = char_of (48 + d)"

lemma of_char_digit_char: "d < 10 \<Longrightarrow> (of_char (digit_char d) :: nat) = 48 + d"
  by (simp add: digit_char_def)

lemma is_digit_digit_char [simp]: "d < 10 \<Longrightarrow> is_digit (digit_char d)"
  by (simp add: is_digit_def of_char_digit_char)

lemma digit_val_digit_char [simp]: "d < 10 \<Longrightarrow> digit_val (digit_char d) = d"
  by (simp add: digit_val_def of_char_digit_char)

fun dec_digits :: "nat \<Rightarrow> string" where
  "dec_digits n = (if n < 10 then [digit_char n] else dec_digits (n div 10) @ [digit_char (n mod 10)])"

declare dec_digits.simps [simp del]

definition dec_val :: "string \<Rightarrow> nat" where
  "dec_val s = foldl (\<lambda>a c. 10 * a + digit_val c) 0 s"

lemma dec_val_snoc: "dec_val (s @ [c]) = 10 * dec_val s + digit_val c"
  by (simp add: dec_val_def)

lemma dec_val_digits [simp]: "dec_val (dec_digits n) = n"
proof (induction n rule: dec_digits.induct)
  case (1 n)
  show ?case
  proof (cases "n < 10")
    case True
    then show ?thesis by (simp add: dec_digits.simps [of n] dec_val_def)
  next
    case False
    with 1 show ?thesis by (simp add: dec_digits.simps [of n] dec_val_snoc)
  qed
qed

lemma dec_digits_all_digits: "c \<in> set (dec_digits n) \<Longrightarrow> is_digit c"
proof (induction n rule: dec_digits.induct)
  case (1 n)
  then show ?case by (auto simp: dec_digits.simps [of n] split: if_splits)
qed

lemma dec_digits_nonempty [simp]: "dec_digits n \<noteq> []"
  by (simp add: dec_digits.simps [of n])

definition strconv_Itoa :: "int \<Rightarrow> string" where
  "strconv_Itoa i = (if i < 0 then CHR ''-'' # dec_digits (nat (- i)) else dec_digits (nat i))"

lemma not_digit_colon [simp]: "\<not> is_digit (CHR '':'')" "\<not> is_digit (CHR ''-'')"
  by (simp_all add: is_digit_def)

text \<open>Reading a decimal integer back.\<close>

fun dec_int :: "string \<Rightarrow> int option" where
  "dec_int [] = None"
| "dec_int (c # s) =
     (if c = CHR ''-'' \<and> list_all is_digit s then Some (- int (dec_val s))
      else if list_all is_digit (c # s) then Some (int (dec_val (c # s))) else None)"

lemma list_all_dec_digits: "list_all is_digit (dec_digits n)"
  by (simp add: list_all_iff dec_digits_all_digits)

lemma dec_int_Itoa [simp]: "dec_int (strconv_Itoa i) = Some i"
proof (cases "i < 0")
  case True
  then show ?thesis by (simp add: strconv_Itoa_def list_all_dec_digits)
next
  case False
  obtain c s where cs: "dec_digits (nat i) = c # s" by (cases "dec_digits (nat i)") auto
  have "is_digit c" using list_all_dec_digits [of "nat i"] by (simp add: cs)
  then have "c \<noteq> CHR ''-''" using not_digit_colon(2) by metis
  then show ?thesis
    using False list_all_dec_digits [of "nat i"] dec_val_digits [of "nat i"]
    by (simp add: strconv_Itoa_def cs)
qed

lemma strconv_Itoa_inj: "strconv_Itoa i = strconv_Itoa j \<Longrightarrow> i = j"
  by (metis dec_int_Itoa option.inject)

lemma strconv_Itoa_no_colon: "CHR '':'' \<notin> set (strconv_Itoa i)"
  by (auto simp: strconv_Itoa_def dest: dec_digits_all_digits)

text \<open>A separator that does not occur in the suffix makes the split of a key unique.\<close>

lemma split_at_last_sep:
  assumes "xs @ c # ys = xs' @ c # ys'" "c \<notin> set ys" "c \<notin> set ys'"
  shows "xs = xs' \<and> ys = ys'"
proof -
  have len: "length zs = length (takeWhile (\<lambda>x. x \<noteq> c) (rev zs @ c # ws))" if "c \<notin> set zs" for zs ws
    using that by (subst takeWhile_append2) auto
  have "rev ys @ c # rev xs = rev ys' @ c # rev xs'"
    using arg_cong [OF assms(1), of rev] by simp
  then have "length ys = length ys'" using len assms(2,3) by metis
  then show ?thesis using assms(1) by simp
qed

end
