(* ===== verification/Float64.thy ===== *)
theory Float64
  imports Prelude Complex_Main "HOL-Library.Log_Nat"
begin

text \<open>
  Go's \<^verbatim>\<open>float64\<close>: IEEE-754 binary64 with round-to-nearest, ties to even. A finite
  value is the rational it denotes; the two zeros are identified, since no operation of the
  program tells them apart. Every arithmetic operation computes the exact rational result and
  rounds it once. The lemmas give what the components rely on: rounding is monotone, leaves
  representable values alone and keeps small integers exact.
\<close>

datatype float64 = Fin rat | PosInf | NegInf | NaN

subsection \<open>Rounding\<close>

definition ilog2 :: "rat \<Rightarrow> int" where
  "ilog2 q = (let (a, b) = quotient_of q; k = bitlen a - bitlen b
              in if 2 powi k \<le> q then k else k - 1)"

definition rhe :: "rat \<Rightarrow> int" where
  "rhe q = (let n = \<lfloor>q\<rfloor>; r = q - of_int n
            in if r < 1 / 2 then n else if 1 / 2 < r then n + 1
               else if even n then n else n + 1)"

definition ulp_exp :: "rat \<Rightarrow> int" where
  "ulp_exp q = max (ilog2 \<bar>q\<bar> - 52) (- 1074)"

definition rnd_val :: "rat \<Rightarrow> rat" where
  "rnd_val q = (if q = 0 then 0
                else let e = ulp_exp q in of_int (rhe (q / 2 powi e)) * 2 powi e)"

definition rnd :: "rat \<Rightarrow> float64" where
  "rnd q = (let v = rnd_val q
            in if v = 0 \<or> ilog2 \<bar>v\<bar> < 1024 then Fin v else if 0 < v then PosInf else NegInf)"

subsection \<open>Powers of two and the binary logarithm\<close>

lemma powi2_pos [simp]: "0 < (2::rat) powi k"
  by (simp add: zero_less_power_int)

lemma powi2_le_iff [simp]: "(2::rat) powi i \<le> 2 powi j \<longleftrightarrow> i \<le> j"
  by (metis linorder_not_less one_less_numeral_iff power_int_increasing
      power_int_strict_increasing semiring_norm(76) less_imp_le)

lemma powi2_less_iff [simp]: "(2::rat) powi i < 2 powi j \<longleftrightarrow> i < j"
  by (simp add: less_le_not_le)

lemma powi2_Suc: "(2::rat) powi (k + 1) = 2 * 2 powi k"
  by (simp add: power_int_add)

lemma powi2_split: "(2::rat) powi (i - j) * 2 powi j = 2 powi i"
  by (simp flip: power_int_add)

lemma bitlen_powi:
  assumes "0 < a"
  shows "2 powi (bitlen a - 1) \<le> (of_int a :: rat)" "(of_int a :: rat) < 2 powi bitlen a"
proof -
  have b: "1 \<le> bitlen a" using assms bitlen_eq_zero_iff [of a] bitlen_nonneg [of a] by linarith
  from bitlen_bounds [OF assms] have
    "(2::int) ^ nat (bitlen a - 1) \<le> a" "a < 2 ^ nat (bitlen a)" by auto
  then have "(of_int (2 ^ nat (bitlen a - 1)) :: rat) \<le> of_int a"
    "(of_int a :: rat) < of_int (2 ^ nat (bitlen a))" by linarith+
  then show "2 powi (bitlen a - 1) \<le> (of_int a :: rat)" "(of_int a :: rat) < 2 powi bitlen a"
    using b by (simp_all add: power_int_def)
qed

lemma ilog2_bounds:
  assumes "0 < q"
  shows "2 powi ilog2 q \<le> q" "q < 2 powi (ilog2 q + 1)"
proof -
  obtain a b where ab: "quotient_of q = (a, b)" by (cases "quotient_of q")
  have b: "0 < b" and q: "q = of_int a / of_int b"
    using quotient_of_denom_pos [OF ab] quotient_of_div [OF ab] by auto
  have a: "0 < a" using assms b unfolding q by (simp add: zero_less_divide_iff)
  define k where "k = bitlen a - bitlen b"
  note A = bitlen_powi [OF a] and B = bitlen_powi [OF b]
  have "q < 2 powi bitlen a / 2 powi (bitlen b - 1)"
    unfolding q using A B a by (intro frac_less) auto
  then have up: "q < 2 powi (k + 1)"
    by (simp add: k_def flip: power_int_diff) (simp add: algebra_simps)
  have "2 powi (bitlen a - 1) / 2 powi bitlen b \<le> q"
    unfolding q using A B a b by (intro frac_le) auto
  then have lo: "2 powi (k - 1) \<le> q"
    by (simp add: k_def flip: power_int_diff) (simp add: algebra_simps)
  have "ilog2 q = (if 2 powi k \<le> q then k else k - 1)"
    by (simp add: ilog2_def ab k_def Let_def)
  then show "2 powi ilog2 q \<le> q" "q < 2 powi (ilog2 q + 1)"
    using up lo by auto
qed

lemma ilog2_unique: "2 powi k \<le> q \<Longrightarrow> q < 2 powi (k + 1) \<Longrightarrow> ilog2 q = k"
proof -
  assume k: "2 powi k \<le> q" "q < 2 powi (k + 1)"
  have "0 < q" using k(1) powi2_pos [of k] by linarith
  note il = ilog2_bounds [OF this]
  have "(2::rat) powi k < 2 powi (ilog2 q + 1)" "(2::rat) powi (ilog2 q) < 2 powi (k + 1)"
    using k il by linarith+
  then show "ilog2 q = k" by simp
qed

lemma ilog2_mono: "0 < x \<Longrightarrow> x \<le> y \<Longrightarrow> ilog2 x \<le> ilog2 y"
proof -
  assume "0 < x" "x \<le> y"
  then have "(2::rat) powi (ilog2 x) < 2 powi (ilog2 y + 1)"
    using ilog2_bounds(1) [of x] ilog2_bounds(2) [of y] by linarith
  then show ?thesis by simp
qed

lemma le_ilog2_iff: "0 < q \<Longrightarrow> k \<le> ilog2 q \<longleftrightarrow> 2 powi k \<le> q"
proof
  assume q: "0 < q" and "k \<le> ilog2 q"
  then have "(2::rat) powi k \<le> 2 powi ilog2 q" by simp
  then show "2 powi k \<le> q" using ilog2_bounds(1) [OF q] by linarith
next
  assume q: "0 < q" and "2 powi k \<le> q"
  then have "(2::rat) powi k < 2 powi (ilog2 q + 1)" using ilog2_bounds(2) [OF q] by linarith
  then show "k \<le> ilog2 q" by simp
qed

subsection \<open>Round half even\<close>

lemma rhe_of_int [simp]: "rhe (of_int n) = n"
  by (simp add: rhe_def)

lemma rhe_mono: "x \<le> y \<Longrightarrow> rhe x \<le> rhe y"
proof -
  assume xy: "x \<le> y"
  then have "\<lfloor>x\<rfloor> \<le> \<lfloor>y\<rfloor>" by (rule floor_mono)
  then consider "\<lfloor>x\<rfloor> = \<lfloor>y\<rfloor>" | "\<lfloor>x\<rfloor> + 1 \<le> \<lfloor>y\<rfloor>" by linarith
  then show ?thesis
  proof cases
    case 1
    then show ?thesis using xy by (auto simp: rhe_def Let_def)
  next
    case 2
    then show ?thesis by (auto simp: rhe_def Let_def)
  qed
qed

lemma rhe_int_bounds:
  "of_int a \<le> x \<Longrightarrow> a \<le> rhe x" "x \<le> of_int b \<Longrightarrow> rhe x \<le> b"
  using rhe_mono [of "of_int a" x] rhe_mono [of x "of_int b"] by auto

lemma rhe_neg: "rhe (- x) = - rhe x"
proof (cases "x = of_int \<lfloor>x\<rfloor>")
  case True
  then show ?thesis by (metis of_int_minus rhe_of_int)
next
  case False
  have f: "\<lfloor>- x\<rfloor> = - \<lfloor>x\<rfloor> - 1"
    using False by (simp add: floor_minus ceiling_altdef)
  define n where "n = \<lfloor>x\<rfloor>"
  have "rhe (- x) = (let r = - x + of_int n + 1 in if r < 1 / 2 then - n - 1
      else if 1 / 2 < r then - n else if even (- n - 1) then - n - 1 else - n)"
    unfolding rhe_def f Let_def n_def by simp
  then show ?thesis by (auto simp: rhe_def Let_def n_def)
qed

lemma rhe_near: "\<bar>of_int (rhe x) - x\<bar> \<le> 1 / 2"
  unfolding rhe_def Let_def by (auto simp: abs_if) linarith+

subsection \<open>Monotonicity and representable values\<close>

lemma rnd_val_0 [simp]: "rnd_val 0 = 0"
  by (simp add: rnd_val_def)

lemma rnd_val_neg: "rnd_val (- q) = - rnd_val q"
  by (simp add: rnd_val_def ulp_exp_def Let_def rhe_neg)

lemma ulp_exp_ge: "- 1074 \<le> ulp_exp q"
  by (simp add: ulp_exp_def)

lemma rnd_val_upper:
  assumes "0 < x"
  shows "rnd_val x \<le> 2 powi (ulp_exp x + 53)"
proof -
  let ?e = "ulp_exp x"
  have "x < 2 powi (ilog2 x + 1)" using ilog2_bounds(2) [OF assms] .
  also have "(2::rat) powi (ilog2 x + 1) \<le> 2 powi (53 + ?e)"
    using assms by (simp add: ulp_exp_def)
  also have "\<dots> = of_int (2 ^ 53) * 2 powi ?e" by (simp add: power_int_add)
  finally have "x / 2 powi ?e \<le> of_int (2 ^ 53)"
    by (simp add: divide_le_eq less_imp_le)
  then have "rhe (x / 2 powi ?e) \<le> 2 ^ 53" by (rule rhe_int_bounds(2))
  then have "(of_int (rhe (x / 2 powi ?e)) :: rat) \<le> of_int (2 ^ 53)" by (simp only: of_int_le_iff)
  then have "of_int (rhe (x / 2 powi ?e)) * 2 powi ?e \<le> of_int (2 ^ 53) * (2::rat) powi ?e"
    by (rule mult_right_mono) (simp add: less_imp_le)
  then show ?thesis using assms by (simp add: rnd_val_def Let_def power_int_add mult.commute)
qed

lemma rnd_val_lower:
  assumes "0 < y" "- 1074 < ulp_exp y"
  shows "2 powi (ulp_exp y + 52) \<le> rnd_val y"
proof -
  let ?e = "ulp_exp y"
  have e: "?e = ilog2 y - 52" using assms by (simp add: ulp_exp_def)
  have "2 powi (52 + ?e) \<le> y" using ilog2_bounds(1) [OF assms(1)] e by simp
  then have "of_int (2 ^ 52) * 2 powi ?e \<le> y" by (simp add: power_int_add)
  then have "of_int (2 ^ 52) \<le> y / 2 powi ?e" by (simp add: le_divide_eq)
  then have "2 ^ 52 \<le> rhe (y / 2 powi ?e)" by (rule rhe_int_bounds(1))
  then have "(of_int (2 ^ 52) :: rat) \<le> of_int (rhe (y / 2 powi ?e))" by (simp only: of_int_le_iff)
  then have "of_int (2 ^ 52) * (2::rat) powi ?e \<le> of_int (rhe (y / 2 powi ?e)) * 2 powi ?e"
    by (rule mult_right_mono) (simp add: less_imp_le)
  then show ?thesis using assms by (simp add: rnd_val_def Let_def power_int_add mult.commute)
qed

lemma rnd_val_nonneg: "0 \<le> q \<Longrightarrow> 0 \<le> rnd_val q"
  using rhe_int_bounds(1) [of 0 "q / 2 powi ulp_exp q"]
  by (auto simp: rnd_val_def Let_def divide_simps)

lemma rnd_val_mono_pos:
  assumes "0 < x" "x \<le> y"
  shows "rnd_val x \<le> rnd_val y"
proof -
  have "0 < y" using assms by linarith
  have le: "ulp_exp x \<le> ulp_exp y"
    using ilog2_mono [OF assms] assms by (auto simp: ulp_exp_def)
  show ?thesis
  proof (cases "ulp_exp x = ulp_exp y")
    case True
    have "rhe (x / 2 powi ulp_exp y) \<le> rhe (y / 2 powi ulp_exp y)"
      using assms by (intro rhe_mono divide_right_mono) (auto simp: less_imp_le)
    then show ?thesis using assms True by (simp add: rnd_val_def Let_def mult_right_mono less_imp_le)
  next
    case False
    with le have lt: "ulp_exp x < ulp_exp y" by linarith
    have "rnd_val x \<le> 2 powi (ulp_exp x + 53)" by (rule rnd_val_upper [OF assms(1)])
    also have "(2::rat) powi (ulp_exp x + 53) \<le> 2 powi (ulp_exp y + 52)" using lt by simp
    also have "\<dots> \<le> rnd_val y"
      using \<open>0 < y\<close> lt ulp_exp_ge [of x] by (intro rnd_val_lower) linarith+
    finally show ?thesis .
  qed
qed

lemma rnd_val_mono: "x \<le> y \<Longrightarrow> rnd_val x \<le> rnd_val y"
proof -
  assume xy: "x \<le> y"
  consider "0 < x" | "x \<le> 0" "0 \<le> y" | "y < 0" by linarith
  then show ?thesis
  proof cases
    case 1 then show ?thesis using xy by (rule rnd_val_mono_pos)
  next
    case 2
    then have "0 \<le> rnd_val (- x)" "0 \<le> rnd_val y" by (auto intro: rnd_val_nonneg)
    then show ?thesis by (simp add: rnd_val_neg)
  next
    case 3
    then have "rnd_val (- y) \<le> rnd_val (- x)" using xy by (intro rnd_val_mono_pos) auto
    then show ?thesis by (simp add: rnd_val_neg)
  qed
qed

definition representable :: "rat \<Rightarrow> bool" where
  "representable q \<longleftrightarrow> (\<exists>m e. q = of_int m * 2 powi e \<and> \<bar>m\<bar> \<le> 2 ^ 53 \<and> - 1074 \<le> e)"

lemma representable_rnd_val: "representable (rnd_val q)"
proof -
  have pos: "representable (rnd_val q)" if "0 < q" for q
  proof -
    let ?m = "rhe (q / 2 powi ulp_exp q)"
    have v: "rnd_val q = of_int ?m * 2 powi ulp_exp q"
      using that by (simp add: rnd_val_def Let_def)
    have "of_int ?m * 2 powi ulp_exp q \<le> of_int (2 ^ 53) * (2::rat) powi ulp_exp q"
      using rnd_val_upper [OF that] unfolding v by (simp add: power_int_add mult.commute)
    then have "(of_int ?m :: rat) \<le> of_int (2 ^ 53)"
      by (rule mult_right_le_imp_le) simp
    then have "?m \<le> 2 ^ 53" by (simp only: of_int_le_iff)
    moreover have "0 \<le> ?m" using that by (intro rhe_int_bounds(1)) simp
    ultimately show ?thesis
      unfolding representable_def v by (intro exI conjI) (auto simp: ulp_exp_ge)
  qed
  consider "0 < q" | "q = 0" | "0 < - q" by linarith
  then show ?thesis
  proof cases
    case 1 then show ?thesis by (rule pos)
  next
    case 2 then show ?thesis by (auto simp: representable_def intro!: exI [of _ 0])
  next
    case 3
    then obtain m e where "rnd_val (- q) = of_int m * 2 powi e" "\<bar>m\<bar> \<le> 2 ^ 53" "- 1074 \<le> e"
      using pos [of "- q"] unfolding representable_def by blast
    then have "rnd_val q = of_int (- m) * 2 powi e \<and> \<bar>- m\<bar> \<le> 2 ^ 53 \<and> - 1074 \<le> e"
      by (simp add: rnd_val_neg)
    then show ?thesis unfolding representable_def by blast
  qed
qed

lemma rnd_val_exact_pos:
  assumes q: "q = of_int m * 2 powi e" and m: "0 < m" "m \<le> 2 ^ 53" and e: "- 1074 \<le> e"
  shows "rnd_val q = q"
proof -
  have q0: "0 < q" using q m by simp
  define u where "u = ulp_exp q"
  have "\<exists>n. q = of_int n * 2 powi u"
  proof (cases "m = 2 ^ 53")
    case True
    have "ilog2 q = e + 53"
      by (rule ilog2_unique) (simp_all add: q True power_int_add)
    then have "u = e + 1" using q0 e by (simp add: u_def ulp_exp_def)
    then have "q = of_int (2 ^ 52) * 2 powi u" by (simp add: q True power_int_add)
    then show ?thesis by blast
  next
    case False
    then have "(of_int m :: rat) < of_int (2 ^ 53)" using m by (simp only: of_int_less_iff)
    then have "q < of_int (2 ^ 53) * 2 powi e" unfolding q by (rule mult_strict_right_mono) simp
    then have "q < 2 powi (e + 53)" by (simp add: power_int_add)
    then have "\<not> e + 53 \<le> ilog2 q" using le_ilog2_iff [OF q0] by simp
    then have "u \<le> e" using q0 e by (simp add: u_def ulp_exp_def)
    then have "(2::rat) powi e = of_int (2 ^ nat (e - u)) * 2 powi u"
      by (simp add: power_int_def [of _ "e - u", symmetric] powi2_split flip: power_int_of_nat)
    then have "q = of_int (m * 2 ^ nat (e - u)) * 2 powi u" by (simp add: q)
    then show ?thesis by blast
  qed
  then obtain n where n: "q = of_int n * 2 powi u" ..
  then have "q / 2 powi u = of_int n" by simp
  then have "rnd_val q = of_int n * 2 powi u"
    using q0 by (simp add: rnd_val_def Let_def u_def)
  then show ?thesis using n by simp
qed

lemma rnd_val_representable: "representable q \<Longrightarrow> rnd_val q = q"
proof -
  assume "representable q"
  then obtain m e where me: "q = of_int m * 2 powi e" "\<bar>m\<bar> \<le> 2 ^ 53" "- 1074 \<le> e"
    unfolding representable_def by blast
  consider "0 < m" | "m = 0" | "m < 0" by linarith
  then show ?thesis
  proof cases
    case 1 then show ?thesis using me by (intro rnd_val_exact_pos) auto
  next
    case 2 then show ?thesis using me by simp
  next
    case 3
    then have "rnd_val (- q) = - q" using me by (intro rnd_val_exact_pos [of _ "- m"]) auto
    then show ?thesis by (simp add: rnd_val_neg)
  qed
qed

lemma representable_of_int: "\<bar>n\<bar> \<le> 2 ^ 53 \<Longrightarrow> representable (of_int n)"
  unfolding representable_def by (intro exI [of _ n] exI [of _ 0]) simp

lemma rnd_val_le: "representable r \<Longrightarrow> x \<le> r \<Longrightarrow> rnd_val x \<le> r"
  using rnd_val_mono [of x r] by (simp add: rnd_val_representable)

lemma rnd_val_ge: "representable r \<Longrightarrow> r \<le> x \<Longrightarrow> r \<le> rnd_val x"
  using rnd_val_mono [of r x] by (simp add: rnd_val_representable)

lemma rnd_Fin:
  assumes q: "\<bar>q\<bar> \<le> 2 powi k" and k: "- 1074 \<le> k" "k < 1024"
  shows "rnd q = Fin (rnd_val q)"
proof (cases "rnd_val q = 0")
  case True
  then show ?thesis by (simp add: rnd_def)
next
  case False
  have rep: "representable (2 powi k)"
    unfolding representable_def using k by (intro exI [of _ 1] exI [of _ k]) simp
  have "rnd_val q \<le> 2 powi k" "rnd_val (- q) \<le> 2 powi k"
    using q by (auto intro!: rnd_val_le [OF rep])
  then have "\<bar>rnd_val q\<bar> \<le> 2 powi k" by (simp add: rnd_val_neg)
  also have "(2::rat) powi k < 2 powi 1024" using k by (simp only: powi2_less_iff)
  finally have "\<not> 1024 \<le> ilog2 \<bar>rnd_val q\<bar>"
    using False by (subst le_ilog2_iff) auto
  then show ?thesis by (simp add: rnd_def Let_def)
qed

subsection \<open>Arithmetic and comparison\<close>

fun sign_f64 :: "float64 \<Rightarrow> int" where
  "sign_f64 (Fin q) = (if 0 < q then 1 else if q < 0 then - 1 else 0)"
| "sign_f64 PosInf = 1"
| "sign_f64 NegInf = - 1"
| "sign_f64 NaN = 0"

definition inf_of_sign :: "int \<Rightarrow> float64" where
  "inf_of_sign s = (if 0 < s then PosInf else if s < 0 then NegInf else NaN)"

instantiation float64 :: "{zero, plus, minus, times, inverse, ord, abs}"
begin

definition zero_float64 :: float64 where
  "0 = Fin 0"

fun plus_float64 :: "float64 \<Rightarrow> float64 \<Rightarrow> float64" where
  "Fin a + Fin b = rnd (a + b)"
| "NaN + _ = NaN"
| "_ + NaN = NaN"
| "PosInf + NegInf = NaN"
| "NegInf + PosInf = NaN"
| "PosInf + _ = PosInf"
| "NegInf + _ = NegInf"
| "Fin _ + y = y"

fun minus_float64 :: "float64 \<Rightarrow> float64 \<Rightarrow> float64" where
  "Fin a - Fin b = rnd (a - b)"
| "NaN - _ = NaN"
| "_ - NaN = NaN"
| "PosInf - PosInf = NaN"
| "NegInf - NegInf = NaN"
| "PosInf - _ = PosInf"
| "NegInf - _ = NegInf"
| "Fin _ - PosInf = NegInf"
| "Fin _ - NegInf = PosInf"

fun times_float64 :: "float64 \<Rightarrow> float64 \<Rightarrow> float64" where
  "Fin a * Fin b = rnd (a * b)"
| "NaN * _ = NaN"
| "_ * NaN = NaN"
| "x * y = inf_of_sign (sign_f64 x * sign_f64 y)"

fun divide_float64 :: "float64 \<Rightarrow> float64 \<Rightarrow> float64" where
  "divide (Fin a) (Fin b) = (if b = 0 then inf_of_sign (sign_f64 (Fin a)) else rnd (a / b))"
| "divide NaN _ = NaN"
| "divide _ NaN = NaN"
| "divide (Fin _) _ = Fin 0"
| "divide x (Fin b) = inf_of_sign (sign_f64 x * (if b < 0 then - 1 else 1))"
| "divide _ _ = NaN"

definition inverse_float64 :: "float64 \<Rightarrow> float64" where
  "inverse x = divide (Fin 1) x"

fun less_float64 :: "float64 \<Rightarrow> float64 \<Rightarrow> bool" where
  "Fin a < Fin b \<longleftrightarrow> a < b"
| "NaN < _ \<longleftrightarrow> False"
| "_ < NaN \<longleftrightarrow> False"
| "NegInf < NegInf \<longleftrightarrow> False"
| "NegInf < _ \<longleftrightarrow> True"
| "PosInf < _ \<longleftrightarrow> False"
| "Fin _ < PosInf \<longleftrightarrow> True"
| "Fin _ < NegInf \<longleftrightarrow> False"

definition less_eq_float64 :: "float64 \<Rightarrow> float64 \<Rightarrow> bool" where
  "x \<le> y \<longleftrightarrow> x < y \<or> x = y \<and> x \<noteq> NaN"

fun abs_float64 :: "float64 \<Rightarrow> float64" where
  "abs (Fin q) = Fin \<bar>q\<bar>"
| "abs NaN = NaN"
| "abs _ = PosInf"

instance ..

end

lemma zero_f64: "(0::float64) = Fin 0"
  by (simp add: zero_float64_def)

lemma le_Fin [simp]: "Fin a \<le> Fin b \<longleftrightarrow> a \<le> b"
  by (auto simp: less_eq_float64_def)

fun finite_f64 :: "float64 \<Rightarrow> bool" where
  "finite_f64 (Fin _) = True"
| "finite_f64 _ = False"

definition math_Min :: "float64 \<Rightarrow> float64 \<Rightarrow> float64" where
  "math_Min x y = (if x = NegInf \<or> y = NegInf then NegInf
                   else if x = NaN \<or> y = NaN then NaN
                   else if x < y then x else y)"

definition math_Max :: "float64 \<Rightarrow> float64 \<Rightarrow> float64" where
  "math_Max x y = (if x = PosInf \<or> y = PosInf then PosInf
                   else if x = NaN \<or> y = NaN then NaN
                   else if y < x then x else y)"

fun math_Round :: "float64 \<Rightarrow> float64" where
  "math_Round (Fin q) = Fin (if 0 \<le> q then of_int \<lfloor>q + 1 / 2\<rfloor> else of_int \<lceil>q - 1 / 2\<rceil>)"
| "math_Round x = x"

definition f64_of_int :: "int \<Rightarrow> float64" where
  "f64_of_int n = rnd (of_int n)"

fun int_of_f64 :: "float64 \<Rightarrow> int" where
  "int_of_f64 (Fin q) =
     (let n = (if 0 \<le> q then \<lfloor>q\<rfloor> else \<lceil>q\<rceil>)
      in if go_int64_min \<le> n \<and> n \<le> go_int64_max then n else go_int64_min)"
| "int_of_f64 _ = go_int64_min"

lemma f64_of_int_exact: "\<bar>n\<bar> \<le> 2 ^ 53 \<Longrightarrow> f64_of_int n = Fin (of_int n)"
proof -
  assume n: "\<bar>n\<bar> \<le> 2 ^ 53"
  then have "\<bar>of_int n :: rat\<bar> \<le> 2 powi 53" by (simp flip: of_int_abs)
  then have "rnd (of_int n) = Fin (rnd_val (of_int n))" by (rule rnd_Fin) auto
  then show ?thesis
    using rnd_val_representable [OF representable_of_int [OF n]] by (simp add: f64_of_int_def)
qed

subsection \<open>Ranges\<close>

definition in_range :: "rat \<Rightarrow> float64 \<Rightarrow> rat \<Rightarrow> bool" where
  "in_range lo x hi = (case x of Fin q \<Rightarrow> lo \<le> q \<and> q \<le> hi | _ \<Rightarrow> False)"

lemma in_range_Fin: "finite_f64 x \<Longrightarrow> \<not> x < Fin lo \<Longrightarrow> \<not> Fin hi < x \<Longrightarrow> in_range lo x hi"
  by (cases x) (simp_all add: in_range_def)

definition nonneg_f64 :: "float64 \<Rightarrow> bool" where
  "nonneg_f64 x = (case x of Fin q \<Rightarrow> 0 \<le> q | _ \<Rightarrow> False)"

lemma nonneg_Fin: "finite_f64 x \<Longrightarrow> \<not> x < 0 \<Longrightarrow> nonneg_f64 x"
  by (cases x) (simp_all add: nonneg_f64_def zero_f64)

lemma in_range_iff: "in_range lo x hi \<longleftrightarrow> (\<exists>q. x = Fin q \<and> lo \<le> q \<and> q \<le> hi)"
  by (cases x) (simp_all add: in_range_def)

lemma in_range_mono: "in_range lo x hi \<Longrightarrow> lo' \<le> lo \<Longrightarrow> hi \<le> hi' \<Longrightarrow> in_range lo' x hi'"
  by (auto simp: in_range_iff)

text \<open>Bounds that rounding respects.\<close>

definition anchor :: "rat \<Rightarrow> bool" where
  "anchor q \<longleftrightarrow> representable q \<and> \<bar>q\<bar> \<le> 2 powi 1000"

lemma anchor_int: "\<bar>n\<bar> \<le> 2 ^ 53 \<Longrightarrow> anchor (of_int n)"
proof -
  assume n: "\<bar>n\<bar> \<le> 2 ^ 53"
  then have "\<bar>of_int n :: rat\<bar> \<le> 2 powi 53" by (simp flip: of_int_abs)
  also have "(2::rat) powi 53 \<le> 2 powi 1000" by (simp only: powi2_le_iff)
  finally show ?thesis using representable_of_int [OF n] by (simp add: anchor_def)
qed

lemma anchor_numerals [simp]:
  "anchor 0" "anchor 1" "anchor (- 1)" "numeral k \<le> (2 ^ 53 :: int) \<Longrightarrow> anchor (numeral k)"
  "numeral k \<le> (2 ^ 53 :: int) \<Longrightarrow> anchor (- numeral k)"
  using anchor_int [of 0] anchor_int [of 1] anchor_int [of "- 1"] anchor_int [of "numeral k"] anchor_int [of "- numeral k"]
  by simp_all

lemma anchor_fractions [simp]: "anchor (1 / 2)" "anchor (1 / 4)" "anchor (1 / 8)"
proof -
  have "representable (1 / 2)" "representable (1 / 4)" "representable (1 / 8)"
    unfolding representable_def
    by (rule exI [of _ 1], rule exI [of _ "- 1"], simp add: power_int_def,
        rule exI [of _ 1], rule exI [of _ "- 2"], simp add: power_int_def power2_eq_square,
        rule exI [of _ 1], rule exI [of _ "- 3"], simp add: power_int_def power3_eq_cube)
  moreover have "(1::rat) \<le> 2 powi 1000" using powi2_le_iff [of 0 1000] by simp
  ultimately show "anchor (1 / 2)" "anchor (1 / 4)" "anchor (1 / 8)" by (auto simp: anchor_def)
qed

lemma anchor_rnd_val: "\<bar>q\<bar> \<le> r \<Longrightarrow> anchor r \<Longrightarrow> anchor (rnd_val q)"
  using rnd_val_le [of r q] rnd_val_le [of r "- q"] representable_rnd_val [of q]
  by (auto simp: anchor_def rnd_val_neg abs_le_iff)

lemma in_range_rnd:
  assumes "lo \<le> x" "x \<le> hi" "anchor lo" "anchor hi"
  shows "in_range lo (rnd x) hi"
proof -
  have "\<bar>x\<bar> \<le> 2 powi 1000" using assms by (auto simp: anchor_def abs_le_iff)
  then have "rnd x = Fin (rnd_val x)" by (rule rnd_Fin) simp_all
  then show ?thesis using assms rnd_val_le [of hi x] rnd_val_ge [of lo x] by (simp add: in_range_def anchor_def)
qed

lemma in_range_add:
  "in_range a x b \<Longrightarrow> in_range c y d \<Longrightarrow> lo \<le> a + c \<Longrightarrow> b + d \<le> hi \<Longrightarrow> anchor lo \<Longrightarrow> anchor hi \<Longrightarrow> in_range lo (x + y) hi"
  by (auto simp: in_range_iff [of a] in_range_iff [of c] intro!: in_range_rnd)

lemma in_range_diff:
  "in_range a x b \<Longrightarrow> in_range c y d \<Longrightarrow> lo \<le> a - d \<Longrightarrow> b - c \<le> hi \<Longrightarrow> anchor lo \<Longrightarrow> anchor hi \<Longrightarrow> in_range lo (x - y) hi"
  by (auto simp: in_range_iff [of a] in_range_iff [of c] intro!: in_range_rnd)

lemma in_range_mult:
  assumes "in_range a x b" "in_range c y d" "0 \<le> a" "0 \<le> c" "lo \<le> a * c" "b * d \<le> hi" "anchor lo" "anchor hi"
  shows "in_range lo (x * y) hi"
proof -
  from assms(1,2) obtain p q where pq: "x = Fin p" "a \<le> p" "p \<le> b" "y = Fin q" "c \<le> q" "q \<le> d"
    by (auto simp: in_range_iff)
  have "a * c \<le> p * q" "p * q \<le> b * d" using pq assms(3,4) by (auto intro!: mult_mono)
  then show ?thesis using assms pq by (auto intro!: in_range_rnd)
qed

lemma in_range_divide:
  assumes "in_range a x b" "in_range c y d" "0 \<le> a" "0 < c" "lo \<le> a / d" "b / c \<le> hi" "anchor lo" "anchor hi"
  shows "in_range lo (x / y) hi"
proof -
  from assms(1,2) obtain p q where pq: "x = Fin p" "a \<le> p" "p \<le> b" "y = Fin q" "c \<le> q" "q \<le> d"
    by (auto simp: in_range_iff)
  have "a / d \<le> p / q" "p / q \<le> b / c" using pq assms(3,4) by (auto intro!: frac_le)
  then show ?thesis using assms pq by (auto intro!: in_range_rnd)
qed

text \<open>A quantity that only grows may overflow to an infinity but never turns negative or NaN.\<close>

definition accumulates :: "float64 \<Rightarrow> bool" where
  "accumulates x \<longleftrightarrow> x = PosInf \<or> nonneg_f64 x"

lemma accumulates_Fin [simp]: "accumulates (Fin q) \<longleftrightarrow> 0 \<le> q" "accumulates PosInf" "\<not> accumulates NaN" "\<not> accumulates NegInf"
  by (auto simp: accumulates_def nonneg_f64_def)

lemma accumulates_rnd: "0 \<le> q \<Longrightarrow> accumulates (rnd q)"
  using rnd_val_nonneg [of q] by (auto simp: rnd_def Let_def)

lemma accumulates_range: "in_range lo x hi \<Longrightarrow> 0 \<le> lo \<Longrightarrow> accumulates x"
  by (auto simp: in_range_iff)

lemma accumulates_add: "accumulates x \<Longrightarrow> accumulates y \<Longrightarrow> accumulates (x + y)"
  by (cases x; cases y) (auto intro: accumulates_rnd)

lemma accumulates_mult: "accumulates x \<Longrightarrow> in_range lo y hi \<Longrightarrow> 0 < lo \<Longrightarrow> accumulates (x * y)"
  by (cases x) (auto simp: in_range_iff inf_of_sign_def intro!: accumulates_rnd)

lemma accumulates_divide: "accumulates x \<Longrightarrow> in_range lo y hi \<Longrightarrow> 0 < lo \<Longrightarrow> accumulates (x / y)"
  by (cases x) (auto simp: in_range_iff inf_of_sign_def intro!: accumulates_rnd)

lemma accumulates_Round: "accumulates x \<Longrightarrow> accumulates (math_Round x)"
  by (cases x) auto

lemma accumulates_not_neg: "accumulates x \<Longrightarrow> \<not> x < 0"
  by (cases x) (auto simp: zero_f64)

lemma in_range_Round: "in_range (of_int a) x (of_int b) \<Longrightarrow> 0 \<le> a \<Longrightarrow> in_range (of_int a) (math_Round x) (of_int b)"
proof -
  assume r: "in_range (of_int a) x (of_int b)" and a: "0 \<le> a"
  then obtain q where q: "x = Fin q" "of_int a \<le> q" "q \<le> of_int b" by (auto simp: in_range_iff)
  moreover have "0 \<le> q" using q(2) a by (meson of_int_0_le_iff order_trans)
  moreover have "a \<le> \<lfloor>q + 1 / 2\<rfloor>" using q(2) by (simp add: le_floor_iff)
  moreover have "\<lfloor>q + 1 / 2\<rfloor> \<le> b" using q(3) by (simp add: floor_le_iff)
  ultimately show ?thesis by (simp add: in_range_def)
qed

lemma int_of_range: "in_range (of_int a) x (of_int b) \<Longrightarrow> 0 \<le> a \<Longrightarrow> b \<le> go_int64_max \<Longrightarrow> a \<le> int_of_f64 x \<and> int_of_f64 x \<le> b"
proof -
  assume r: "in_range (of_int a) x (of_int b)" "0 \<le> a" "b \<le> go_int64_max"
  then obtain q where q: "x = Fin q" "of_int a \<le> q" "q \<le> of_int b" by (auto simp: in_range_iff)
  have "a \<le> \<lfloor>q\<rfloor>" "\<lfloor>q\<rfloor> \<le> b" using q by (simp_all add: le_floor_iff floor_le_iff)
  moreover have "0 \<le> q" using q(2) r(2) by (meson of_int_0_le_iff order_trans)
  moreover have "go_int64_min \<le> 0" by (simp add: go_int64_min_def)
  ultimately show ?thesis using r q(1) by (simp add: Let_def)
qed

lemma math_Min_range: "in_range a x b \<Longrightarrow> in_range c y d \<Longrightarrow> in_range (min a c) (math_Min x y) (min b d)"
  by (auto simp: in_range_iff math_Min_def)

lemma math_Min_cap: "accumulates x \<Longrightarrow> in_range c (Fin y) c \<Longrightarrow> 0 \<le> lo \<Longrightarrow> lo \<le> c \<Longrightarrow> \<not> x < Fin lo \<Longrightarrow> in_range lo (math_Min (Fin y) x) c"
  by (cases x) (auto simp: in_range_iff math_Min_def)

end
