(* ===== verification/GoTime.thy ===== *)
theory GoTime
  imports Prelude "HOL-Library.Monad_Syntax"
begin

text \<open>
  What the program uses of Go's \<^verbatim>\<open>time\<close> package: the proleptic Gregorian calendar in
  UTC, \<^verbatim>\<open>Format\<close> with the millisecond layout
  \<^verbatim>\<open>2006-01-02T15:04:05.000Z07:00\<close>, \<^verbatim>\<open>time.Parse(time.RFC3339, s)\<close> and
  \<^verbatim>\<open>Hour\<close>/\<^verbatim>\<open>UnixMilli\<close>. Parsing follows the general layout parser: a
  two-digit hour may have one digit, a fraction may follow the seconds although the layout has
  none, the zone is \<^verbatim>\<open>Z\<close> or a signed \<^verbatim>\<open>hh:mm\<close> with the lenient bounds 24 and 60.
  The calendar counts years from 1 March of year 0, so that the leap day ends a year.
\<close>

subsection \<open>Calendar\<close>

definition is_leap :: "int \<Rightarrow> bool" where
  "is_leap y \<longleftrightarrow> y mod 4 = 0 \<and> (y mod 100 \<noteq> 0 \<or> y mod 400 = 0)"

definition days_in :: "int \<Rightarrow> int \<Rightarrow> int" where
  "days_in m y = (if m = 2 then (if is_leap y then 29 else 28)
                  else if m = 4 \<or> m = 6 \<or> m = 9 \<or> m = 11 then 30 else 31)"

text \<open>Days before the first day of the \<open>mp\<close>-th month counted from March.\<close>

definition month_start :: "int \<Rightarrow> int" where
  "month_start mp = (153 * mp + 2) div 5"

definition year_start :: "int \<Rightarrow> int" where
  "year_start y = 365 * y + y div 4 - y div 100 + y div 400"

text \<open>Day number of a civil date, counted from 1970-01-01 (which is 719468 days after 0000-03-01).\<close>

definition days_from_civil :: "int \<Rightarrow> int \<Rightarrow> int \<Rightarrow> int" where
  "days_from_civil y m d =
     (let y' = (if m \<le> 2 then y - 1 else y); mp = (if 2 < m then m - 3 else m + 9)
      in year_start y' + month_start mp + (d - 1) - 719468)"

definition civil_from_days :: "int \<Rightarrow> int \<times> int \<times> int" where
  "civil_from_days n =
     (let z = n + 719468; era = z div 146097; d400 = z mod 146097;
          c = min (d400 div 36524) 3; d100 = d400 - 36524 * c;
          q = d100 div 1461; d4 = d100 - 1461 * q;
          y1 = min (d4 div 365) 3; doy = d4 - 365 * y1;
          mp = (5 * doy + 2) div 153; d = doy - month_start mp + 1;
          m = (if mp < 10 then mp + 3 else mp - 9);
          y = 400 * era + 100 * c + 4 * q + y1
      in (if m \<le> 2 then y + 1 else y, m, d))"

lemma year_start_parts:
  assumes "0 \<le> c" "c \<le> 3" "0 \<le> q" "q \<le> 24" "0 \<le> y1" "y1 \<le> 3"
  shows "year_start (400 * era + 100 * c + 4 * q + y1) = 146097 * era + 36524 * c + 1461 * q + 365 * y1"
proof -
  have "(400 * era + 100 * c + 4 * q + y1) div 4 = 100 * era + 25 * c + q"
    "(400 * era + 100 * c + 4 * q + y1) div 100 = 4 * era + c"
    "(400 * era + 100 * c + 4 * q + y1) div 400 = era"
    using assms by linarith+
  then show ?thesis by (simp add: year_start_def)
qed

lemma civil_parts:
  obtains era c q y1 doy mp where
    "0 \<le> c" "c \<le> 3" "0 \<le> q" "q \<le> 24" "0 \<le> y1" "y1 \<le> 3" "0 \<le> doy" "doy \<le> 365"
    "doy = 365 \<Longrightarrow> y1 = 3 \<and> (q = 24 \<longrightarrow> c = 3)" "mp = (5 * doy + 2) div 153"
    "n + 719468 = year_start (400 * era + 100 * c + 4 * q + y1) + doy"
    "civil_from_days n =
      (let m = (if mp < 10 then mp + 3 else mp - 9); y = 400 * era + 100 * c + 4 * q + y1
       in (if m \<le> 2 then y + 1 else y, m, doy - month_start mp + 1))"
proof -
  define era where "era = (n + 719468) div 146097"
  define d400 where "d400 = (n + 719468) mod 146097"
  define c where "c = min (d400 div 36524) 3"
  define d100 where "d100 = d400 - 36524 * c"
  define q where "q = d100 div 1461"
  define d4 where "d4 = d100 - 1461 * q"
  define y1 where "y1 = min (d4 div 365) 3"
  define doy where "doy = d4 - 365 * y1"
  define mp where "mp = (5 * doy + 2) div 153"
  have d400: "0 \<le> d400" "d400 < 146097" by (auto simp: d400_def)
  have c: "0 \<le> c" "c \<le> 3" "0 \<le> d100" "d100 \<le> 36524" "d100 = 36524 \<Longrightarrow> c = 3"
    using d400 by (auto simp: c_def d100_def min_def split: if_splits)
  have q: "0 \<le> q" "q \<le> 24" "0 \<le> d4" "d4 \<le> 1460" "d4 = 1460 \<Longrightarrow> q = 24 \<Longrightarrow> d100 = 36524"
    using c by (auto simp: q_def d4_def)
  have y1: "0 \<le> y1" "y1 \<le> 3" "0 \<le> doy" "doy \<le> 365" "doy = 365 \<Longrightarrow> y1 = 3 \<and> d4 = 1460"
    using q by (auto simp: y1_def doy_def min_def split: if_splits)
  have "n + 719468 = 146097 * era + d400" by (simp add: era_def d400_def)
  also have "\<dots> = 146097 * era + 36524 * c + 1461 * q + 365 * y1 + doy"
    by (simp add: d100_def d4_def doy_def)
  finally have n: "n + 719468 = year_start (400 * era + 100 * c + 4 * q + y1) + doy"
    using c q y1 by (simp add: year_start_parts)
  have civ: "civil_from_days n =
    (let m = (if mp < 10 then mp + 3 else mp - 9); y = 400 * era + 100 * c + 4 * q + y1
     in (if m \<le> 2 then y + 1 else y, m, doy - month_start mp + 1))"
    unfolding civil_from_days_def
    by (simp only: Let_def era_def [symmetric] d400_def [symmetric] c_def [symmetric]
        d100_def [symmetric] q_def [symmetric] d4_def [symmetric] y1_def [symmetric]
        doy_def [symmetric] mp_def [symmetric])
  show thesis
    using c(1,2) q(1,2) y1(1-4) _ mp_def n civ by (rule that) (use c q y1 in auto)
qed

lemma days_from_civil_from_days:
  "(case civil_from_days n of (y, m, d) \<Rightarrow> days_from_civil y m d) = n"
proof (rule civil_parts [of n])
  fix era c q y1 doy mp :: int
  assume bounds: "0 \<le> doy" "doy \<le> 365" and mp: "mp = (5 * doy + 2) div 153"
    and n: "n + 719468 = year_start (400 * era + 100 * c + 4 * q + y1) + doy"
    and civ: "civil_from_days n =
      (let m = (if mp < 10 then mp + 3 else mp - 9); y = 400 * era + 100 * c + 4 * q + y1
       in (if m \<le> 2 then y + 1 else y, m, doy - month_start mp + 1))"
  have "0 \<le> mp" "mp \<le> 11" using bounds by (auto simp: mp)
  then show ?thesis using n civ by (auto simp: Let_def days_from_civil_def)
qed

lemma is_leap_march_year:
  assumes "0 \<le> c" "c \<le> 3" "0 \<le> q" "q \<le> 24" "y1 = 3" "q = 24 \<longrightarrow> c = 3"
  shows "is_leap (400 * era + 100 * c + 4 * q + y1 + 1)"
proof -
  let ?y = "400 * era + 100 * c + 4 * q + y1 + 1"
  have y: "?y = 4 * (100 * era + 25 * c + q + 1)" using assms by simp
  have "?y mod 100 \<noteq> 0 \<or> ?y mod 400 = 0"
  proof (cases "q = 24")
    case True
    then have "?y = 400 * (era + 1)" using assms by simp
    then show ?thesis by (metis mod_mult_self1_is_0)
  next
    case False
    have "?y = (4 * q + 4) + 100 * (4 * era + c)" using assms by simp
    then have "?y mod 100 = (4 * q + 4) mod 100" by (metis mod_mult_self2)
    also have "\<dots> = 4 * q + 4" using assms False by (intro mod_pos_pos_trivial) auto
    finally show ?thesis using assms by simp
  qed
  then show ?thesis unfolding is_leap_def using y by (metis mod_mult_self1_is_0)
qed

lemma civil_from_days_valid:
  assumes "civil_from_days n = (y, m, d)"
  shows "1 \<le> m" "m \<le> 12" "1 \<le> d" "d \<le> days_in m y"
proof -
  obtain era c q y1 doy mp where p: "0 \<le> c" "c \<le> 3" "0 \<le> q" "q \<le> 24" "0 \<le> y1" "y1 \<le> 3"
    "0 \<le> doy" "doy \<le> 365"
    "doy = 365 \<Longrightarrow> y1 = 3 \<and> (q = 24 \<longrightarrow> c = 3)" and mp: "mp = (5 * doy + 2) div 153"
    and "n + 719468 = year_start (400 * era + 100 * c + 4 * q + y1) + doy"
    and civ: "civil_from_days n =
      (let m = (if mp < 10 then mp + 3 else mp - 9); y = 400 * era + 100 * c + 4 * q + y1
       in (if m \<le> 2 then y + 1 else y, m, doy - month_start mp + 1))"
    by (rule civil_parts [of n]) blast
  have mp_b: "0 \<le> mp" "mp \<le> 11" using p by (auto simp: mp)
  have m: "m = (if mp < 10 then mp + 3 else mp - 9)" and d: "d = doy - month_start mp + 1"
    and y: "mp = 11 \<Longrightarrow> y = 400 * era + 100 * c + 4 * q + y1 + 1"
    using civ assms mp_b by (auto simp: Let_def)
  show "1 \<le> m" "m \<le> 12" using m mp_b by auto
  have ms: "month_start mp \<le> doy" "doy < month_start (mp + 1)"
    using p by (auto simp: mp month_start_def)
  then show "1 \<le> d" by (simp add: d)
  have leap: "is_leap y \<or> doy \<le> 364"
    using p is_leap_march_year [of c q y1 era] y by (cases "doy = 365") (auto simp: mp)
  have "mp \<in> {0..11}" using mp_b by simp
  then have "mp \<in> {0,1,2,3,4,5,6,7,8,9,10,11}" by (simp add: atLeastAtMost_def) presburger
  then show "d \<le> days_in m y"
    using ms p(8) leap by (elim insertE emptyE) (simp_all add: d m days_in_def month_start_def, blast)
qed

subsection \<open>Format\<close>

definition pad_nat :: "nat \<Rightarrow> nat \<Rightarrow> string" where
  "pad_nat w n = (let ds = dec_digits n in replicate (w - length ds) (CHR ''0'') @ ds)"

definition format_year :: "int \<Rightarrow> string" where
  "format_year y = (if y < 0 then CHR ''-'' # pad_nat 4 (nat (- y)) else pad_nat 4 (nat y))"

definition unix_sec :: "instant \<Rightarrow> int" where
  "unix_sec t = t div second"

definition unix_day :: "instant \<Rightarrow> int" where
  "unix_day t = unix_sec t div 86400"

definition Hour :: "instant \<Rightarrow> int" where
  "Hour t = unix_sec t div 3600 mod 24"

definition Minute :: "instant \<Rightarrow> int" where
  "Minute t = unix_sec t div 60 mod 60"

definition Second :: "instant \<Rightarrow> int" where
  "Second t = unix_sec t mod 60"

definition Millis :: "instant \<Rightarrow> int" where
  "Millis t = t mod second div millisecond"

definition UnixMilli :: "instant \<Rightarrow> int" where
  "UnixMilli t = t div millisecond"

text \<open>\<^verbatim>\<open>t.UTC().Format("2006-01-02T15:04:05.000Z07:00")\<close>\<close>

definition format_ms :: "instant \<Rightarrow> string" where
  "format_ms t =
     (case civil_from_days (unix_day t) of (y, m, d) \<Rightarrow>
        format_year y @ ''-'' @ pad_nat 2 (nat m) @ ''-'' @ pad_nat 2 (nat d) @ ''T'' @
        pad_nat 2 (nat (Hour t)) @ '':'' @ pad_nat 2 (nat (Minute t)) @ '':'' @
        pad_nat 2 (nat (Second t)) @ ''.'' @
        pad_nat 3 (nat (Millis t)) @ ''Z'')"

subsection \<open>Parse\<close>

text \<open>\<^verbatim>\<open>getnum\<close>: one or two digits, exactly two when \<open>fixed\<close>.\<close>

fun getnum :: "bool \<Rightarrow> string \<Rightarrow> (nat \<times> string) option" where
  "getnum fixed (c # d # s) =
     (if \<not> is_digit c then None
      else if is_digit d then Some (10 * digit_val c + digit_val d, s)
      else if fixed then None else Some (digit_val c, d # s))"
| "getnum fixed [c] = (if is_digit c \<and> \<not> fixed then Some (digit_val c, []) else None)"
| "getnum fixed [] = None"

fun skip_char :: "char \<Rightarrow> string \<Rightarrow> string option" where
  "skip_char c (d # s) = (if d = c then Some s else None)"
| "skip_char c [] = None"

definition get_year :: "string \<Rightarrow> (nat \<times> string) option" where
  "get_year s = (if 4 \<le> length s \<and> list_all is_digit (take 4 s)
                 then Some (dec_val (take 4 s), drop 4 s) else None)"

definition get_range :: "nat \<Rightarrow> nat \<Rightarrow> (nat \<times> string) option \<Rightarrow> (nat \<times> string) option" where
  "get_range lo hi r = (case r of None \<Rightarrow> None
                        | Some (n, s) \<Rightarrow> if lo \<le> n \<and> n \<le> hi then Some (n, s) else None)"

text \<open>An optional fraction: at most nine digits count, the rest is skipped.\<close>

definition frac_ns :: "string \<Rightarrow> int" where
  "frac_ns ds = int (dec_val (take 9 ds)) * 10 ^ (9 - length (take 9 ds))"

definition get_frac :: "string \<Rightarrow> int \<times> string" where
  "get_frac s = (case s of
       c # d # _ \<Rightarrow>
         if (c = CHR ''.'' \<or> c = CHR '','') \<and> is_digit d
         then let ds = takeWhile is_digit (tl s) in (frac_ns ds, drop (Suc (length ds)) s)
         else (0, s)
     | _ \<Rightarrow> (0, s))"

text \<open>The zone \<^verbatim>\<open>Z07:00\<close>: the offset in seconds east of UTC.\<close>

definition get_zone :: "string \<Rightarrow> (int \<times> string) option" where
  "get_zone s = (case s of
       [] \<Rightarrow> None
     | c # rest \<Rightarrow>
         if c = CHR ''Z'' then Some (0, rest)
         else if length s < 6 \<or> s ! 3 \<noteq> CHR '':'' then None
         else do {
           (hr, _) \<leftarrow> get_range 0 24 (getnum True (take 2 (drop 1 s)));
           (mm, _) \<leftarrow> get_range 0 60 (getnum True (take 2 (drop 4 s)));
           let off = (int hr * 60 + int mm) * 60;
           if c = CHR ''+'' then Some (off, drop 6 s)
           else if c = CHR ''-'' then Some (- off, drop 6 s) else None
         })"

definition time_Parse :: "string \<Rightarrow> instant option" where
  "time_Parse s = do {
     (y, s) \<leftarrow> get_year s;
     s \<leftarrow> skip_char (CHR ''-'') s;
     (mo, s) \<leftarrow> get_range 1 12 (getnum True s);
     s \<leftarrow> skip_char (CHR ''-'') s;
     (d, s) \<leftarrow> getnum True s;
     s \<leftarrow> skip_char (CHR ''T'') s;
     (h, s) \<leftarrow> get_range 0 23 (getnum False s);
     s \<leftarrow> skip_char (CHR '':'') s;
     (mi, s) \<leftarrow> get_range 0 59 (getnum True s);
     s \<leftarrow> skip_char (CHR '':'') s;
     (sec, s) \<leftarrow> get_range 0 59 (getnum True s);
     let (ns, s) = get_frac s;
     (off, s) \<leftarrow> get_zone s;
     if s \<noteq> [] \<or> d < 1 \<or> days_in (int mo) (int y) < int d then None
     else Some ((days_from_civil (int y) (int mo) (int d) * 86400
                 + int h * 3600 + int mi * 60 + int sec - off) * second + ns)
   }"

subsection \<open>Round trip\<close>

lemma dec_digits_small: "n < 10 \<Longrightarrow> dec_digits n = [digit_char n]"
  by (simp add: dec_digits.simps [of n])

lemma dec_digits_step:
  "10 \<le> n \<Longrightarrow> dec_digits n = dec_digits (n div 10) @ [digit_char (n mod 10)]"
  by (simp add: dec_digits.simps [of n])

lemma digit_char_0: "digit_char 0 = CHR ''0''"
  by code_simp

lemma pad_nat_small: "n < 10 \<Longrightarrow> 0 < w \<Longrightarrow> pad_nat w n = replicate (w - 1) (CHR ''0'') @ [digit_char n]"
  by (simp add: pad_nat_def dec_digits_small)

lemma pad_nat_step:
  assumes "1 < w"
  shows "pad_nat w n = pad_nat (w - 1) (n div 10) @ [digit_char (n mod 10)]"
proof (cases "n < 10")
  case True
  then show ?thesis
    using assms
    by (cases "w - 1") (auto simp: pad_nat_def dec_digits_small digit_char_0 replicate_append_same Suc_diff_Suc)
next
  case False
  then show ?thesis by (simp add: pad_nat_def dec_digits_step Let_def) 
qed

lemma pad_nat_1: "n < 10 \<Longrightarrow> pad_nat 1 n = [digit_char n]"
  by (simp add: pad_nat_small)

lemma pad_nat_2: "n < 100 \<Longrightarrow> pad_nat 2 n = [digit_char (n div 10), digit_char (n mod 10)]"
  by (subst pad_nat_step) (auto simp: pad_nat_small)

lemma pad_nat_3: "n < 1000 \<Longrightarrow> pad_nat 3 n = pad_nat 2 (n div 10) @ [digit_char (n mod 10)]"
  by (subst pad_nat_step) auto

lemma pad_nat_4: "n < 10000 \<Longrightarrow> pad_nat 4 n = pad_nat 3 (n div 10) @ [digit_char (n mod 10)]"
  by (subst pad_nat_step) auto

lemma getnum_pad [simp]: "n < 100 \<Longrightarrow> getnum fixed (pad_nat 2 n @ s) = Some (n, s)"
  by (simp add: pad_nat_2)

lemma pad_nat_3_digits: "n < 1000 \<Longrightarrow>
    pad_nat 3 n = [digit_char (n div 10 div 10), digit_char (n div 10 mod 10), digit_char (n mod 10)]"
  by (simp add: pad_nat_3 pad_nat_2)

lemma pad_nat_4_digits: "n < 10000 \<Longrightarrow>
    pad_nat 4 n = [digit_char (n div 10 div 10 div 10), digit_char (n div 10 div 10 mod 10),
      digit_char (n div 10 mod 10), digit_char (n mod 10)]"
  by (simp add: pad_nat_4 pad_nat_3_digits)

lemma div10_less: "n < 10 * k \<Longrightarrow> n div 10 < (k::nat)"
  by auto

lemma pad_4_digits:
  assumes "n < 10000"
  shows "length (pad_nat 4 n) = 4" "list_all is_digit (pad_nat 4 n)" "dec_val (pad_nat 4 n) = n"
proof -
  have "n div 10 div 10 div 10 < 10" using assms by (intro div10_less) simp
  then show "length (pad_nat 4 n) = 4" "list_all is_digit (pad_nat 4 n)" "dec_val (pad_nat 4 n) = n"
    using assms by (simp_all only: pad_nat_4_digits) (simp_all add: dec_val_def)
qed

lemma get_year_pad [simp]: "n < 10000 \<Longrightarrow> get_year (pad_nat 4 n @ s) = Some (n, s)"
  using pad_4_digits [of n] by (simp add: get_year_def)

lemma get_frac_pad [simp]:
  assumes "n < 1000"
  shows "get_frac (CHR ''.'' # pad_nat 3 n @ ''Z'') = (int n * 1000000, ''Z'')"
proof -
  have "n div 10 div 10 < 10" using assms by (intro div10_less) simp
  moreover have "\<not> is_digit (CHR ''Z'')" by (simp add: is_digit_def)
  ultimately show ?thesis
    by (simp only: pad_nat_3_digits [OF assms]) (simp add: get_frac_def frac_ns_def dec_val_def Let_def)
qed

lemma get_range_in [simp]: "lo \<le> n \<Longrightarrow> n \<le> hi \<Longrightarrow> get_range lo hi (Some (n, s)) = Some (n, s)"
  by (simp add: get_range_def)

lemma get_zone_Z [simp]: "get_zone (CHR ''Z'' # s) = Some (0, s)"
  by (simp add: get_zone_def)

lemma time_fields_bounds:
  "0 \<le> Hour t" "Hour t < 24" "0 \<le> Minute t" "Minute t < 60" "0 \<le> Second t" "Second t < 60"
  "0 \<le> Millis t" "Millis t < 1000"
  by (auto simp: Hour_def Minute_def Second_def Millis_def)

lemma unix_sec_fields: "unix_day t * 86400 + Hour t * 3600 + Minute t * 60 + Second t = unix_sec t"
proof -
  let ?s = "unix_sec t"
  have d: "?s div 60 div 60 = ?s div 3600" "?s div 3600 div 24 = ?s div 86400"
    by (simp_all flip: zdiv_zmult2_eq)
  have "?s = 60 * (?s div 60) + ?s mod 60" "?s div 60 = 60 * (?s div 3600) + ?s div 60 mod 60"
    "?s div 3600 = 24 * (?s div 86400) + ?s div 3600 mod 24"
    using d by (metis mult_div_mod_eq)+
  then show ?thesis unfolding unix_day_def Hour_def Minute_def Second_def by linarith
qed

lemma instant_fields: "unix_sec t * second + Millis t * millisecond = t - t mod millisecond"
proof -
  have m: "t mod second mod millisecond = t mod millisecond"
    by (rule mod_mod_cancel) simp
  have "t = second * (t div second) + t mod second"
    "t mod second = millisecond * (t mod second div millisecond) + t mod millisecond"
    using m by (metis mult_div_mod_eq)+
  then show ?thesis unfolding unix_sec_def Millis_def by linarith
qed

lemma time_Parse_format_ms:
  assumes y: "civil_from_days (unix_day t) = (y, m, d)" "0 \<le> y" "y \<le> 9999"
  shows "time_Parse (format_ms t) = Some (t - t mod millisecond)"
proof -
  note v = civil_from_days_valid [OF y(1)] and b = time_fields_bounds [of t]
  have "d \<le> 31" using v(4) by (auto simp: days_in_def split: if_splits)
  have days: "days_from_civil y m d = unix_day t"
    using days_from_civil_from_days [of "unix_day t"] y(1) by simp
  have nats: "nat y < 10000" "1 \<le> nat m" "nat m \<le> 12" "nat d < 100" "1 \<le> nat d" "nat (Hour t) \<le> 23"
    "nat (Minute t) \<le> 59" "nat (Second t) \<le> 59" "nat (Millis t) < 1000"
    using y v b \<open>d \<le> 31\<close> by linarith+
  have "time_Parse (format_ms t) =
    Some ((unix_day t * 86400 + Hour t * 3600 + Minute t * 60 + Second t) * second + Millis t * millisecond)"
    using y nats v b days by (simp add: format_ms_def format_year_def time_Parse_def)
  then show ?thesis by (simp only: unix_sec_fields instant_fields)
qed

subsection \<open>The range of a parsed instant\<close>

text \<open>
  A parsed instant lies in the years 0 to 9999 up to a zone offset, so its milliseconds are
  exactly representable in binary64.
\<close>

lemma dec_val_bound: "list_all is_digit s \<Longrightarrow> dec_val s < 10 ^ length s"
proof (induction s rule: rev_induct)
  case (snoc c s)
  then have "digit_val c < 10" "dec_val s < 10 ^ length s"
    by (auto simp: is_digit_def digit_val_def)
  then show ?case by (simp add: dec_val_snoc)
qed (simp add: dec_val_def)

lemma days_from_civil_bound:
  assumes "0 \<le> y" "y < 10000" "1 \<le> m" "m \<le> 12" "1 \<le> d" "d \<le> 31"
  shows "\<bar>days_from_civil y m d\<bar> \<le> 4000000"
proof -
  have ys: "- 400 \<le> year_start z \<and> year_start z \<le> 3654000" if "- 1 \<le> z" "z < 10000" for z
    using that unfolding year_start_def by linarith
  have ms: "0 \<le> month_start k \<and> month_start k \<le> 400" if "0 \<le> k" "k \<le> 11" for k
    using that unfolding month_start_def by linarith
  show ?thesis
    using assms ys [of "if m \<le> 2 then y - 1 else y"] ms [of "if 2 < m then m - 3 else m + 9"]
    unfolding days_from_civil_def Let_def by (auto split: if_splits)
qed

lemma frac_scaled_bound:
  assumes "list_all is_digit ds"
  shows "0 \<le> frac_ns ds \<and> frac_ns ds < second"
proof -
  let ?t = "take 9 ds"
  have "list_all is_digit ?t" using assms by (auto simp: list_all_iff dest: in_set_takeD)
  then have "int (dec_val ?t) < 10 ^ length ?t" by (metis dec_val_bound of_nat_less_iff of_nat_numeral of_nat_power)
  then have "int (dec_val ?t) * 10 ^ (9 - length ?t) < 10 ^ length ?t * 10 ^ (9 - length ?t)"
    by (intro mult_strict_right_mono) simp_all
  also have "\<dots> = 10 ^ (length ?t + (9 - length ?t))" by (rule power_add [symmetric])
  also have "length ?t + (9 - length ?t) = 9" by simp
  finally show ?thesis by (simp add: frac_ns_def)
qed

lemma get_frac_bound:
  assumes "get_frac s = (ns, r)"
  shows "0 \<le> ns \<and> ns < second"
proof -
  have "list_all is_digit (takeWhile is_digit xs)" for xs by (induction xs) simp_all
  then have "0 \<le> frac_ns (takeWhile is_digit xs) \<and> frac_ns (takeWhile is_digit xs) < second" for xs
    by (rule frac_scaled_bound)
  then show ?thesis
    using assms by (auto simp del: takeWhile.simps simp: get_frac_def Let_def split: list.splits if_splits)
qed

lemma get_zone_bound: "get_zone s = Some (off, r) \<Longrightarrow> \<bar>off\<bar> \<le> 90000"
  by (auto simp: get_zone_def get_range_def Let_def bind_eq_Some_conv split: list.splits if_splits option.splits prod.splits)


lemma time_Parse_fields:
  assumes "time_Parse s = Some t"
  obtains y mo d h mi sec ns off where
    "t = (days_from_civil y mo d * 86400 + h * 3600 + mi * 60 + sec - off) * second + ns"
    "0 \<le> y" "y < 10000" "1 \<le> mo" "mo \<le> 12" "1 \<le> d" "d \<le> 31" "0 \<le> h" "h \<le> 23" "0 \<le> mi" "mi \<le> 59"
    "0 \<le> sec" "sec \<le> 59" "0 \<le> ns" "ns < second" "\<bar>off\<bar> \<le> 90000"
proof -
  have year: "y < 10000" if "get_year s = Some (y, r)" for y r
    using that dec_val_bound [of "take 4 s"] by (auto simp: get_year_def min_def split: if_splits)
  have rng: "lo \<le> n \<and> n \<le> hi" if "get_range lo hi x = Some (n, r)" for lo hi x n r
    using that by (auto simp: get_range_def split: option.splits prod.splits if_splits)
  have days: "days_in m y \<le> 31" for m y by (simp add: days_in_def)
  obtain y s1 s2 mo s3 d s6 h s7 s8 mi s9 s10 sec s11 off s13 where
    p: "get_year s = Some (y, s1)" "get_range 1 12 (getnum True s2) = Some (mo, s3)"
    "get_range 0 23 (getnum False s6) = Some (h, s7)" "get_range 0 59 (getnum True s8) = Some (mi, s9)"
    "get_range 0 59 (getnum True s10) = Some (sec, s11)" "get_zone (snd (get_frac s11)) = Some (off, s13)"
    "0 < d" "int d \<le> days_in (int mo) (int y)"
    "t = (days_from_civil (int y) (int mo) (int d) * 86400 + int h * 3600 + int mi * 60 + int sec - off) * second + fst (get_frac s11)"
    using assms by (auto simp: time_Parse_def Let_def bind_eq_Some_conv not_less case_prod_beta split: if_splits)
  have "int d \<le> 31" using p(8) days order_trans by blast
  then show thesis
    using that [of "int y" "int mo" "int d" "int h" "int mi" "int sec" off "fst (get_frac s11)"]
      p(7,9) year [OF p(1)] rng [OF p(2)] rng [OF p(3)] rng [OF p(4)] rng [OF p(5)]
      get_frac_bound [OF prod.collapse [symmetric]] get_zone_bound [OF p(6)]
    by simp
qed

lemma time_Parse_bound:
  assumes "time_Parse s = Some t"
  shows "\<bar>UnixMilli t\<bar> \<le> 2 ^ 53"
  using assms
proof (rule time_Parse_fields)
  fix y mo d h mi sec ns off
  assume t: "t = (days_from_civil y mo d * 86400 + h * 3600 + mi * 60 + sec - off) * second + ns"
    and b: "0 \<le> y" "y < 10000" "1 \<le> mo" "mo \<le> 12" "1 \<le> d" "d \<le> 31" "0 \<le> h" "h \<le> 23" "0 \<le> mi" "mi \<le> 59"
    "0 \<le> sec" "sec \<le> 59" "0 \<le> ns" "ns < second" "\<bar>off\<bar> \<le> 90000"
  have "\<bar>days_from_civil y mo d\<bar> \<le> 4000000" using b by (intro days_from_civil_bound)
  then have "\<bar>days_from_civil y mo d * 86400 + h * 3600 + mi * 60 + sec - off\<bar> \<le> 399999999999"
    using b by linarith
  then have "\<bar>t\<bar> \<le> 400000000000 * second" using b(13,14) unfolding t by (simp add: abs_le_iff)
  then have "- 400000000000000 \<le> t div millisecond" "t div millisecond \<le> 400000000000000"
    by linarith+
  then show ?thesis by (simp add: UnixMilli_def abs_le_iff)
qed

end
