(* ===== verification/Transform.thy ===== *)
theory Transform
  imports Float64 GoTime "HOL-Library.Word"
begin

text \<open>
  \<^verbatim>\<open>processor/transform/flatten.go\<close>: the nested wire format of a charging event, the
  flat analytics row and \<^verbatim>\<open>Flatten\<close>. A pointer field is an \<^typ>\<open>'a option\<close>, with
  \<^const>\<open>None\<close> for \<^verbatim>\<open>nil\<close>. The row's fields carry the prefix \<open>ce_\<close>.
  Shown: flattening is total, changes nothing but the layout (it is injective once the
  presence of the sub-objects is known), leaves absent sub-objects at their zero value, and two
  flattenings of one event differ in \<^verbatim>\<open>ingested_at\<close> only, so that re-produced copies
  share ClickHouse's sort key.
\<close>

record Location =
  Lat :: float64
  Lon :: float64
  City :: string
  Country :: string

record Meter =
  PowerKW :: float64
  EnergyKWh :: float64
  VoltageV :: float64
  CurrentA :: float64
  SocPercent :: int

record Vehicle =
  Brand :: string
  VModel :: string
  EvID :: string

record Fault =
  ErrorCode :: string
  Component :: string

record Event =
  EventID :: string
  EventType :: string
  StationID :: string
  ConnectorID :: int
  SessionID :: string
  Timestamp :: string
  OperatorID :: string
  Location :: Location
  Meter :: "Meter option"
  Vehicle :: "Vehicle option"
  TariffID :: string
  CostEur :: float64
  Fault :: "Fault option"
  Status :: string
  IsPeakPriced :: bool

record CleanEvent =
  ce_EventID :: string
  ce_EventType :: string
  ce_StationID :: string
  ce_ConnectorID :: int
  ce_SessionID :: string
  ce_Timestamp :: string
  ce_IngestedAt :: string
  ce_ProducedAt :: string
  ce_OperatorID :: string
  ce_Lat :: float64
  ce_Lon :: float64
  ce_City :: string
  ce_Country :: string
  ce_PowerKW :: float64
  ce_EnergyKWh :: float64
  ce_VoltageV :: float64
  ce_CurrentA :: float64
  ce_SocPercent :: int
  ce_VehicleBrand :: string
  ce_VehicleModel :: string
  ce_EvID :: string
  ce_TariffID :: string
  ce_CostEur :: float64
  ce_ErrorCode :: string
  ce_Component :: string
  ce_Status :: string
  ce_IsPeakPriced :: "8 word"

text \<open>Go's zero values of the structs.\<close>

definition zero_Location :: Location where
  [wire_defs]: "zero_Location = \<lparr>Lat = 0, Lon = 0, City = [], Country = []\<rparr>"

definition zero_Meter :: Meter where
  [wire_defs]: "zero_Meter = \<lparr>PowerKW = 0, EnergyKWh = 0, VoltageV = 0, CurrentA = 0, SocPercent = 0\<rparr>"

definition zero_Vehicle :: Vehicle where
  [wire_defs]: "zero_Vehicle = \<lparr>Brand = [], VModel = [], EvID = []\<rparr>"

definition zero_Fault :: Fault where
  [wire_defs]: "zero_Fault = \<lparr>ErrorCode = [], Component = []\<rparr>"

definition zero_Event :: Event where
  [wire_defs]: "zero_Event = \<lparr>EventID = [], EventType = [], StationID = [], ConnectorID = 0,
     SessionID = [], Timestamp = [], OperatorID = [], Location = zero_Location, Meter = None,
     Vehicle = None, TariffID = [], CostEur = 0, Fault = None, Status = [], IsPeakPriced = False\<rparr>"

definition Flatten :: "Event \<Rightarrow> instant \<Rightarrow> CleanEvent" where
  "Flatten e ingestedAt =
     (let ce = \<lparr>ce_EventID = EventID e, ce_EventType = EventType e, ce_StationID = StationID e,
            ce_ConnectorID = ConnectorID e, ce_SessionID = SessionID e, ce_Timestamp = Timestamp e,
            ce_IngestedAt = format_ms ingestedAt, ce_ProducedAt = [], ce_OperatorID = OperatorID e,
            ce_Lat = Lat (Location e), ce_Lon = Lon (Location e),
            ce_City = City (Location e), ce_Country = Country (Location e),
            ce_PowerKW = 0, ce_EnergyKWh = 0, ce_VoltageV = 0, ce_CurrentA = 0, ce_SocPercent = 0,
            ce_VehicleBrand = [], ce_VehicleModel = [], ce_EvID = [],
            ce_TariffID = TariffID e, ce_CostEur = CostEur e, ce_ErrorCode = [], ce_Component = [],
            ce_Status = Status e, ce_IsPeakPriced = 0\<rparr>;
          ce = (if IsPeakPriced e then ce\<lparr>ce_IsPeakPriced := 1\<rparr> else ce);
          ce = (case Meter e of None \<Rightarrow> ce
                | Some m \<Rightarrow> ce\<lparr>ce_PowerKW := PowerKW m, ce_EnergyKWh := EnergyKWh m,
                    ce_VoltageV := VoltageV m, ce_CurrentA := CurrentA m, ce_SocPercent := SocPercent m\<rparr>);
          ce = (case Vehicle e of None \<Rightarrow> ce
                | Some v \<Rightarrow> ce\<lparr>ce_VehicleBrand := Brand v, ce_VehicleModel := VModel v, ce_EvID := EvID v\<rparr>)
      in case Fault e of None \<Rightarrow> ce
         | Some f \<Rightarrow> ce\<lparr>ce_ErrorCode := ErrorCode f, ce_Component := Component f\<rparr>)"

subsection \<open>Field by field\<close>

lemma Flatten_identity [simp]:
  "ce_EventID (Flatten e t) = EventID e"
  "ce_EventType (Flatten e t) = EventType e"
  "ce_StationID (Flatten e t) = StationID e"
  "ce_ConnectorID (Flatten e t) = ConnectorID e"
  "ce_SessionID (Flatten e t) = SessionID e"
  "ce_Timestamp (Flatten e t) = Timestamp e"
  "ce_OperatorID (Flatten e t) = OperatorID e"
  "ce_TariffID (Flatten e t) = TariffID e"
  "ce_CostEur (Flatten e t) = CostEur e"
  "ce_Status (Flatten e t) = Status e"
  "ce_Lat (Flatten e t) = Lat (Location e)"
  "ce_Lon (Flatten e t) = Lon (Location e)"
  "ce_City (Flatten e t) = City (Location e)"
  "ce_Country (Flatten e t) = Country (Location e)"
  by (simp_all add: Flatten_def Let_def split: option.split)

lemma Flatten_meter [simp]:
  "ce_PowerKW (Flatten e t) = (case Meter e of None \<Rightarrow> 0 | Some m \<Rightarrow> PowerKW m)"
  "ce_EnergyKWh (Flatten e t) = (case Meter e of None \<Rightarrow> 0 | Some m \<Rightarrow> EnergyKWh m)"
  "ce_VoltageV (Flatten e t) = (case Meter e of None \<Rightarrow> 0 | Some m \<Rightarrow> VoltageV m)"
  "ce_CurrentA (Flatten e t) = (case Meter e of None \<Rightarrow> 0 | Some m \<Rightarrow> CurrentA m)"
  "ce_SocPercent (Flatten e t) = (case Meter e of None \<Rightarrow> 0 | Some m \<Rightarrow> SocPercent m)"
  by (simp_all add: Flatten_def Let_def split: option.split)

lemma Flatten_sub_objects [simp]:
  "ce_VehicleBrand (Flatten e t) = (case Vehicle e of None \<Rightarrow> [] | Some v \<Rightarrow> Brand v)"
  "ce_VehicleModel (Flatten e t) = (case Vehicle e of None \<Rightarrow> [] | Some v \<Rightarrow> VModel v)"
  "ce_EvID (Flatten e t) = (case Vehicle e of None \<Rightarrow> [] | Some v \<Rightarrow> EvID v)"
  "ce_ErrorCode (Flatten e t) = (case Fault e of None \<Rightarrow> [] | Some f \<Rightarrow> ErrorCode f)"
  "ce_Component (Flatten e t) = (case Fault e of None \<Rightarrow> [] | Some f \<Rightarrow> Component f)"
  "ce_IsPeakPriced (Flatten e t) = (if IsPeakPriced e then 1 else 0)"
  "ce_IngestedAt (Flatten e t) = format_ms t"
  "ce_ProducedAt (Flatten e t) = []"
  by (simp_all add: Flatten_def Let_def split: option.split)

lemma Flatten_stamp: "Flatten e t' = (Flatten e t)\<lparr>ce_IngestedAt := format_ms t'\<rparr>"
  by (rule CleanEvent.equality) simp_all

subsection \<open>Properties\<close>

text \<open>
  C20: Flattening loses nothing but the presence of sub-objects: events that carry the same
  sub-objects and have the same row are the same event, ingested in the same millisecond.
\<close>

theorem Flatten_lossless:
  assumes "Flatten e t = Flatten e' t'"
    and "Meter e = None \<longleftrightarrow> Meter e' = None" "Vehicle e = None \<longleftrightarrow> Vehicle e' = None"
      "Fault e = None \<longleftrightarrow> Fault e' = None"
  shows "e = e' \<and> format_ms t = format_ms t'"
proof
  have f: "f (Flatten e t) = f (Flatten e' t')" for f :: "CleanEvent \<Rightarrow> 'b" by (simp add: assms(1))
  have m: "Meter e = Meter e'"
    using assms(2) f [of ce_PowerKW] f [of ce_EnergyKWh] f [of ce_VoltageV] f [of ce_CurrentA] f [of ce_SocPercent]
    by (cases "Meter e"; cases "Meter e'") simp_all
  have v: "Vehicle e = Vehicle e'"
    using assms(3) f [of ce_VehicleBrand] f [of ce_VehicleModel] f [of ce_EvID]
    by (cases "Vehicle e"; cases "Vehicle e'") simp_all
  have ft: "Fault e = Fault e'"
    using assms(4) f [of ce_ErrorCode] f [of ce_Component]
    by (cases "Fault e"; cases "Fault e'") simp_all
  have pk: "IsPeakPriced e = IsPeakPriced e'"
    using f [of ce_IsPeakPriced] by (simp split: if_splits)
  have loc: "Location e = Location e'"
    using f [of ce_Lat] f [of ce_Lon] f [of ce_City] f [of ce_Country]
    by (intro Location.equality) simp_all
  show "e = e'"
    using m v ft pk loc f [of ce_EventID] f [of ce_EventType] f [of ce_StationID] f [of ce_ConnectorID]
      f [of ce_SessionID] f [of ce_Timestamp] f [of ce_OperatorID] f [of ce_TariffID] f [of ce_CostEur] f [of ce_Status]
    by (intro Event.equality) simp_all
  show "format_ms t = format_ms t'"
    using f [of ce_IngestedAt] by simp
qed

theorem Flatten_lossless_witness:
  "zero_Event\<lparr>Meter := Some zero_Meter\<rparr> = zero_Event\<lparr>Meter := Some zero_Meter\<rparr>
     \<and> format_ms 0 = format_ms 999999"
proof (rule Flatten_lossless)
  have "format_ms 999999 = format_ms 0"
    by (simp add: format_ms_def unix_sec_def unix_day_def Hour_def Minute_def Second_def Millis_def)
  then show "Flatten (zero_Event\<lparr>Meter := Some zero_Meter\<rparr>) 0 = Flatten (zero_Event\<lparr>Meter := Some zero_Meter\<rparr>) 999999"
    using Flatten_stamp [of "zero_Event\<lparr>Meter := Some zero_Meter\<rparr>" 999999 0] by simp
qed simp_all

text \<open>
  Rows of one event produced at different times differ in \<^verbatim>\<open>ingested_at\<close> only, so that
  a re-produced copy shares every column of ClickHouse's sort key with the first one.
\<close>

theorem Flatten_ingest_only: "Flatten e t' = (Flatten e t)\<lparr>ce_IngestedAt := format_ms t'\<rparr>"
  by (rule Flatten_stamp)

end
