(* ===== verification/Json.thy ===== *)
theory Json
  imports Transform
begin

text \<open>
  What the program uses of Go's \<^verbatim>\<open>encoding/json\<close>: \<^verbatim>\<open>json.Unmarshal\<close> of a byte
  slice into the wire \<^verbatim>\<open>Event\<close>. The lexer yields tokens, the parser is the pushdown
  automaton of the scanner (a stack of open containers, at most 10000 deep), and the decoder
  stores a value tree into the struct: exact field names first, then names equal up to case
  folding; unknown fields ignored; \<^verbatim>\<open>null\<close> a no-op except that it clears a pointer;
  repeated fields overwrite or merge; a value of the wrong type is an error, which decoding
  notes and passes over. Number literals are rounded once to binary64, and a literal too large
  for it is an error. Shown: every float of a decoded event is finite.
\<close>

subsection \<open>Lexer\<close>

datatype tok = TLBrace | TRBrace | TLBrack | TRBrack | TColon | TComma
  | TStr string | TNum string | TTrue | TFalse | TNull

abbreviation byte :: "char \<Rightarrow> nat" where
  "byte c \<equiv> of_char c"

definition cont_byte :: "char \<Rightarrow> bool" where
  "cont_byte c \<longleftrightarrow> 128 \<le> byte c \<and> byte c < 192"

text \<open>Length of the valid UTF-8 sequence at the head, 0 if there is none.\<close>

fun utf8_len :: "string \<Rightarrow> nat" where
  "utf8_len [] = 0"
| "utf8_len (c # s) =
     (let b = byte c in
      if b < 128 then 1
      else if 194 \<le> b \<and> b < 224 then
        (case s of c1 # _ \<Rightarrow> if cont_byte c1 then 2 else 0 | _ \<Rightarrow> 0)
      else if 224 \<le> b \<and> b < 240 then
        (case s of c1 # c2 # _ \<Rightarrow>
           if cont_byte c1 \<and> cont_byte c2 \<and> (b = 224 \<longrightarrow> 160 \<le> byte c1) \<and> (b = 237 \<longrightarrow> byte c1 < 160)
           then 3 else 0 | _ \<Rightarrow> 0)
      else if 240 \<le> b \<and> b < 245 then
        (case s of c1 # c2 # c3 # _ \<Rightarrow>
           if cont_byte c1 \<and> cont_byte c2 \<and> cont_byte c3 \<and>
              (b = 240 \<longrightarrow> 144 \<le> byte c1) \<and> (b = 244 \<longrightarrow> byte c1 < 144)
           then 4 else 0 | _ \<Rightarrow> 0)
      else 0)"

definition hex_val :: "char \<Rightarrow> nat option" where
  "hex_val c = (let b = byte c in
     if 48 \<le> b \<and> b \<le> 57 then Some (b - 48)
     else if 97 \<le> b \<and> b \<le> 102 then Some (b - 87)
     else if 65 \<le> b \<and> b \<le> 70 then Some (b - 55) else None)"

fun hex4 :: "string \<Rightarrow> nat option" where
  "hex4 (a # b # c # d # _) = do {
     w \<leftarrow> hex_val a; x \<leftarrow> hex_val b; y \<leftarrow> hex_val c; z \<leftarrow> hex_val d;
     Some (4096 * w + 256 * x + 16 * y + z) }"
| "hex4 _ = None"

definition utf8_encode :: "nat \<Rightarrow> string" where
  "utf8_encode r =
     (if r < 128 then [char_of r]
      else if r < 2048 then [char_of (192 + r div 64), char_of (128 + r mod 64)]
      else if r < 65536 then
        [char_of (224 + r div 4096), char_of (128 + r div 64 mod 64), char_of (128 + r mod 64)]
      else [char_of (240 + r div 262144), char_of (128 + r div 4096 mod 64),
            char_of (128 + r div 64 mod 64), char_of (128 + r mod 64)])"

abbreviation replacement :: string where
  "replacement \<equiv> utf8_encode 65533"

text \<open>
  The escape after a backslash, and one character of a string body: the decoded bytes and the
  rest. A \<^verbatim>\<open>\uXXXX\<close> pair of surrogates is one code point, a lone surrogate and an invalid
  byte become the replacement character, an unescaped control character is an error.
\<close>

definition lex_unicode :: "string \<Rightarrow> (string \<times> string) option" where
  "lex_unicode s = (case hex4 s of
       None \<Rightarrow> None
     | Some u \<Rightarrow>
         let r = drop 4 s in
         if 55296 \<le> u \<and> u < 57344 then
           (case (if take 2 r = [CHR 0x5C, CHR ''u''] then hex4 (drop 2 r) else None) of
              Some v \<Rightarrow>
                if u < 56320 \<and> 56320 \<le> v \<and> v < 57344
                then Some (utf8_encode (65536 + (u - 55296) * 1024 + (v - 56320)), drop 6 r)
                else Some (replacement, r)
            | None \<Rightarrow> Some (replacement, r))
         else Some (utf8_encode u, r))"

fun lex_escape :: "string \<Rightarrow> (string \<times> string) option" where
  "lex_escape [] = None"
| "lex_escape (x # r) =
     (if x = CHR 0x22 \<or> x = CHR 0x5C \<or> x = CHR ''/'' then Some ([x], r)
      else if x = CHR ''b'' then Some ([CHR 0x08], r)
      else if x = CHR ''f'' then Some ([CHR 0x0C], r)
      else if x = CHR ''n'' then Some ([CHR 0x0A], r)
      else if x = CHR ''r'' then Some ([CHR 0x0D], r)
      else if x = CHR ''t'' then Some ([CHR 0x09], r)
      else if x = CHR ''u'' then lex_unicode r
      else None)"

fun lex_char :: "string \<Rightarrow> (string \<times> string) option" where
  "lex_char [] = None"
| "lex_char (c # r) =
     (if byte c < 32 then None
      else if c = CHR 0x5C then lex_escape r
      else let n = utf8_len (c # r) in
           if n = 0 then Some (replacement, r) else Some (take n (c # r), drop n (c # r)))"

lemma lex_unicode_length: "lex_unicode s = Some (b, r) \<Longrightarrow> length r \<le> length s"
  by (auto simp: lex_unicode_def Let_def split: option.splits if_splits)

lemma lex_escape_length: "lex_escape s = Some (b, r) \<Longrightarrow> length r < length s"
  by (cases s) (auto split: if_splits dest!: lex_unicode_length)

lemma lex_char_length: "lex_char s = Some (b, r) \<Longrightarrow> length r < length s"
  by (cases s) (auto simp: Let_def split: if_splits dest!: lex_escape_length)

text \<open>The body of a string literal after its opening quote.\<close>

function lex_string :: "string \<Rightarrow> string \<Rightarrow> (string \<times> string) option" where
  "lex_string acc s =
     (if s \<noteq> [] \<and> hd s = CHR 0x22 then Some (acc, tl s)
      else case lex_char s of None \<Rightarrow> None | Some (b, r) \<Rightarrow> lex_string (acc @ b) r)"
  by pat_completeness auto
termination
  by (relation "measure (\<lambda>(acc, s). length s)") (auto dest: lex_char_length)

declare lex_string.simps [simp del]

lemma lex_string_length: "lex_string acc s = Some (t, r) \<Longrightarrow> length r < length s"
proof (induction acc s rule: lex_string.induct)
  case (1 acc s)
  show ?case
  proof (cases "s \<noteq> [] \<and> hd s = CHR 0x22")
    case True
    with 1(2) show ?thesis by (auto simp: lex_string.simps [of acc s])
  next
    case False
    with 1(2) obtain b r' where c: "lex_char s = Some (b, r')" "lex_string (acc @ b) r' = Some (t, r)"
      by (auto simp: lex_string.simps [of acc s] split: option.splits)
    with 1(1) [OF False c(1)] lex_char_length [OF c(1)] show ?thesis by auto
  qed
qed

text \<open>A number literal: its text and the rest.\<close>

definition span_digits :: "string \<Rightarrow> string \<times> string" where
  "span_digits s = (takeWhile is_digit s, dropWhile is_digit s)"

definition lex_int :: "string \<Rightarrow> (string \<times> string) option" where
  "lex_int s = (case s of
       [] \<Rightarrow> None
     | c # r \<Rightarrow> if c = CHR ''0'' then Some ([c], r)
               else if is_digit c then Some (span_digits s) else None)"

definition lex_frac :: "string \<Rightarrow> (string \<times> string) option" where
  "lex_frac s = (case s of
       c # r \<Rightarrow> if c = CHR ''.'' then
                  (let (ds, r') = span_digits r in if ds = [] then None else Some (c # ds, r'))
                else Some ([], s)
     | [] \<Rightarrow> Some ([], s))"

definition lex_exp :: "string \<Rightarrow> (string \<times> string) option" where
  "lex_exp s = (case s of
       c # r \<Rightarrow> if c = CHR ''e'' \<or> c = CHR ''E'' then
                  (let (sg, r1) = (case r of x # r0 \<Rightarrow> if x = CHR ''+'' \<or> x = CHR ''-'' then ([x], r0) else ([], r)
                                   | [] \<Rightarrow> ([], r));
                       (ds, r') = span_digits r1
                   in if ds = [] then None else Some (c # sg @ ds, r'))
                else Some ([], s)
     | [] \<Rightarrow> Some ([], s))"

definition lex_number :: "string \<Rightarrow> (string \<times> string) option" where
  "lex_number s = do {
     let (sg, s1) = (case s of c # r \<Rightarrow> if c = CHR ''-'' then ([c], r) else ([], s) | [] \<Rightarrow> ([], s));
     (i, s2) \<leftarrow> lex_int s1;
     (f, s3) \<leftarrow> lex_frac s2;
     (e, s4) \<leftarrow> lex_exp s3;
     Some (sg @ i @ f @ e, s4)
   }"

lemma span_digits_length: "span_digits s = (d, r) \<Longrightarrow> length d + length r = length s"
  by (auto simp: span_digits_def simp flip: length_append)

lemma lex_int_length: "lex_int s = Some (i, r) \<Longrightarrow> length r < length s"
  by (auto simp: lex_int_def span_digits_def split: list.splits if_splits
      intro: le_imp_less_Suc length_dropWhile_le)

lemma lex_frac_length: "lex_frac s = Some (i, r) \<Longrightarrow> length r \<le> length s"
  by (auto simp: lex_frac_def span_digits_def split: list.splits if_splits
      intro: le_SucI length_dropWhile_le)

lemma lex_exp_length: "lex_exp s = Some (i, r) \<Longrightarrow> length r \<le> length s"
  by (auto simp: lex_exp_def span_digits_def split: list.splits if_splits prod.splits
      intro: le_SucI length_dropWhile_le)

lemma lex_number_length: "lex_number s = Some (n, r) \<Longrightarrow> length r < length s"
  by (auto simp: lex_number_def Let_def split: list.splits if_splits option.splits prod.splits
      bind_splits dest!: lex_int_length lex_frac_length lex_exp_length)

definition is_space :: "char \<Rightarrow> bool" where
  "is_space c \<longleftrightarrow> byte c \<in> {9, 10, 13, 32}"

function lex :: "string \<Rightarrow> tok list option" where
  "lex s = (case s of
       [] \<Rightarrow> Some []
     | c # r \<Rightarrow>
         if is_space c then lex r
         else if c = CHR ''{'' then map_option (Cons TLBrace) (lex r)
         else if c = CHR ''}'' then map_option (Cons TRBrace) (lex r)
         else if c = CHR ''['' then map_option (Cons TLBrack) (lex r)
         else if c = CHR '']'' then map_option (Cons TRBrack) (lex r)
         else if c = CHR '':'' then map_option (Cons TColon) (lex r)
         else if c = CHR '','' then map_option (Cons TComma) (lex r)
         else if c = CHR 0x22 then
           (case lex_string [] r of None \<Rightarrow> None | Some (t, r') \<Rightarrow> map_option (Cons (TStr t)) (lex r'))
         else if take 4 s = ''true'' then map_option (Cons TTrue) (lex (drop 4 s))
         else if take 5 s = ''false'' then map_option (Cons TFalse) (lex (drop 5 s))
         else if take 4 s = ''null'' then map_option (Cons TNull) (lex (drop 4 s))
         else (case lex_number s of None \<Rightarrow> None | Some (t, r') \<Rightarrow> map_option (Cons (TNum t)) (lex r')))"
  by pat_completeness auto
termination
  by (relation "measure length") (auto dest!: lex_string_length lex_number_length)

declare lex.simps [simp del]

subsection \<open>Parser\<close>

datatype json = JNull | JBool bool | JNum string | JStr string
  | JArr "json list" | JObj "(string \<times> json) list"

text \<open>
  The open containers, innermost first, with what they hold so far (an object also the key
  whose value is being read), and the automaton's states.
\<close>

datatype frame = FArr "json list" | FObj "(string \<times> json) list" string

datatype pstate = PValue "frame list" | PElemOrEnd "frame list" | PKeyOrEnd "frame list"
  | PKey "frame list" | PColon "frame list" | PAfter "frame list" | PDone json

definition max_nesting :: nat where
  "max_nesting = 10000"

fun complete :: "json \<Rightarrow> frame list \<Rightarrow> pstate" where
  "complete v [] = PDone v"
| "complete v (FArr vs # st) = PAfter (FArr (vs @ [v]) # st)"
| "complete v (FObj ms k # st) = PAfter (FObj (ms @ [(k, v)]) k # st)"

fun begin_value :: "tok \<Rightarrow> frame list \<Rightarrow> pstate option" where
  "begin_value TNull st = Some (complete JNull st)"
| "begin_value TTrue st = Some (complete (JBool True) st)"
| "begin_value TFalse st = Some (complete (JBool False) st)"
| "begin_value (TStr s) st = Some (complete (JStr s) st)"
| "begin_value (TNum s) st = Some (complete (JNum s) st)"
| "begin_value TLBrack st = (if length st < max_nesting then Some (PElemOrEnd (FArr [] # st)) else None)"
| "begin_value TLBrace st = (if length st < max_nesting then Some (PKeyOrEnd (FObj [] [] # st)) else None)"
| "begin_value _ st = None"

fun pstep :: "tok \<Rightarrow> pstate \<Rightarrow> pstate option" where
  "pstep t (PValue st) = begin_value t st"
| "pstep TRBrack (PElemOrEnd (FArr vs # st)) = Some (complete (JArr vs) st)"
| "pstep t (PElemOrEnd st) = begin_value t st"
| "pstep TRBrace (PKeyOrEnd (FObj ms k # st)) = Some (complete (JObj ms) st)"
| "pstep (TStr k) (PKeyOrEnd (FObj ms _ # st)) = Some (PColon (FObj ms k # st))"
| "pstep (TStr k) (PKey (FObj ms _ # st)) = Some (PColon (FObj ms k # st))"
| "pstep TColon (PColon st) = Some (PValue st)"
| "pstep TComma (PAfter (FArr vs # st)) = Some (PValue (FArr vs # st))"
| "pstep TRBrack (PAfter (FArr vs # st)) = Some (complete (JArr vs) st)"
| "pstep TComma (PAfter (FObj ms k # st)) = Some (PKey (FObj ms k # st))"
| "pstep TRBrace (PAfter (FObj ms k # st)) = Some (complete (JObj ms) st)"
| "pstep _ _ = None"

fun prun :: "tok list \<Rightarrow> pstate \<Rightarrow> pstate option" where
  "prun [] p = Some p"
| "prun (t # ts) p = (case pstep t p of None \<Rightarrow> None | Some p' \<Rightarrow> prun ts p')"

definition json_parse :: "bytes \<Rightarrow> json option" where
  "json_parse s = (case lex s of None \<Rightarrow> None
     | Some ts \<Rightarrow> (case prun ts (PValue []) of Some (PDone v) \<Rightarrow> Some v | _ \<Rightarrow> None))"

subsection \<open>Numbers\<close>

definition lit_exp :: "string \<Rightarrow> int" where
  "lit_exp s = (case s of
       c # ds \<Rightarrow> if c = CHR ''-'' then - int (dec_val ds)
                else if c = CHR ''+'' then int (dec_val ds) else int (dec_val s)
     | [] \<Rightarrow> 0)"

text \<open>The rational a number literal denotes.\<close>

definition lit_rat :: "string \<Rightarrow> rat" where
  "lit_rat s =
     (let neg = (s \<noteq> [] \<and> hd s = CHR ''-''); s1 = (if neg then tl s else s);
          i = takeWhile is_digit s1; s2 = dropWhile is_digit s1;
          (f, s3) = (if s2 \<noteq> [] \<and> hd s2 = CHR ''.'' then span_digits (tl s2) else ([], s2));
          e = (if s3 \<noteq> [] then lit_exp (tl s3) else 0);
          v = of_nat (dec_val (i @ f)) * 10 powi (e - int (length f))
      in if neg then - v else v)"

definition ParseFloat :: "string \<Rightarrow> float64 option" where
  "ParseFloat s = (case rnd (lit_rat s) of Fin q \<Rightarrow> Some (Fin q) | _ \<Rightarrow> None)"

definition ParseInt :: "string \<Rightarrow> int option" where
  "ParseInt s =
     (let neg = (s \<noteq> [] \<and> hd s = CHR ''-''); ds = (if neg then tl s else s);
          n = (if neg then - int (dec_val ds) else int (dec_val ds))
      in if ds \<noteq> [] \<and> list_all is_digit ds \<and> go_int64_min \<le> n \<and> n \<le> go_int64_max then Some n else None)"

subsection \<open>Decoding into structs\<close>

text \<open>A field decoder returns the new field value and whether the value had the right type.\<close>

fun dec_string :: "json \<Rightarrow> string \<Rightarrow> string \<times> bool" where
  "dec_string (JStr t) _ = (t, True)"
| "dec_string JNull s = (s, True)"
| "dec_string _ s = (s, False)"

fun dec_float :: "json \<Rightarrow> float64 \<Rightarrow> float64 \<times> bool" where
  "dec_float (JNum t) x = (case ParseFloat t of Some y \<Rightarrow> (y, True) | None \<Rightarrow> (x, False))"
| "dec_float JNull x = (x, True)"
| "dec_float _ x = (x, False)"

fun dec_int :: "json \<Rightarrow> int \<Rightarrow> int \<times> bool" where
  "dec_int (JNum t) x = (case ParseInt t of Some y \<Rightarrow> (y, True) | None \<Rightarrow> (x, False))"
| "dec_int JNull x = (x, True)"
| "dec_int _ x = (x, False)"

fun dec_bool :: "json \<Rightarrow> bool \<Rightarrow> bool \<times> bool" where
  "dec_bool (JBool b) _ = (b, True)"
| "dec_bool JNull x = (x, True)"
| "dec_bool _ x = (x, False)"

fun dec_ptr :: "'a \<Rightarrow> (json \<Rightarrow> 'a \<Rightarrow> 'a \<times> bool) \<Rightarrow> json \<Rightarrow> 'a option \<Rightarrow> 'a option \<times> bool" where
  "dec_ptr z d JNull p = (None, True)"
| "dec_ptr z d j p = (let (v, ok) = d j (case p of None \<Rightarrow> z | Some v \<Rightarrow> v) in (Some v, ok))"

text \<open>Case folding of field names: ASCII letters, the long s and the Kelvin sign.\<close>

definition ascii_upper :: "char \<Rightarrow> char" where
  "ascii_upper c = (if 97 \<le> byte c \<and> byte c \<le> 122 then char_of (byte c - 32) else c)"

fun fold_name :: "string \<Rightarrow> string" where
  "fold_name (a # b # c # s) =
     (if a = CHR 0xE2 \<and> b = CHR 0x84 \<and> c = CHR 0xAA then CHR ''K'' # fold_name s
      else if a = CHR 0xC5 \<and> b = CHR 0xBF then CHR ''S'' # fold_name (c # s)
      else ascii_upper a # fold_name (b # c # s))"
| "fold_name [a, b] = (if a = CHR 0xC5 \<and> b = CHR 0xBF then ''S'' else [ascii_upper a, ascii_upper b])"
| "fold_name [a] = [ascii_upper a]"
| "fold_name [] = []"

type_synonym 'r fields = "(string \<times> (json \<Rightarrow> 'r \<Rightarrow> 'r \<times> bool)) list"

definition find_field :: "'r fields \<Rightarrow> string \<Rightarrow> (json \<Rightarrow> 'r \<Rightarrow> 'r \<times> bool) option" where
  "find_field fs k = (case map_of fs k of Some f \<Rightarrow> Some f
     | None \<Rightarrow> map_of (map (\<lambda>(n, f). (fold_name n, f)) fs) (fold_name k))"

fun dec_member :: "'r fields \<Rightarrow> 'r \<times> bool \<Rightarrow> string \<times> json \<Rightarrow> 'r \<times> bool" where
  "dec_member fs (r, ok) (k, v) = (case find_field fs k of None \<Rightarrow> (r, ok)
     | Some d \<Rightarrow> let (r', ok') = d v r in (r', ok \<and> ok'))"

fun dec_struct :: "'r fields \<Rightarrow> json \<Rightarrow> 'r \<Rightarrow> 'r \<times> bool" where
  "dec_struct fs (JObj ms) r = foldl (dec_member fs) (r, True) ms"
| "dec_struct fs JNull r = (r, True)"
| "dec_struct fs _ r = (r, False)"

definition fld :: "('r \<Rightarrow> 'a) \<Rightarrow> (('a \<Rightarrow> 'a) \<Rightarrow> 'r \<Rightarrow> 'r) \<Rightarrow> (json \<Rightarrow> 'a \<Rightarrow> 'a \<times> bool)
    \<Rightarrow> json \<Rightarrow> 'r \<Rightarrow> 'r \<times> bool" where
  "fld get upd d j r = (let (x, ok) = d j (get r) in (upd (\<lambda>_. x) r, ok))"

definition Location_fields :: "Location fields" where
  "Location_fields = [(''lat'', fld Lat Lat_update dec_float), (''lon'', fld Lon Lon_update dec_float),
     (''city'', fld City City_update dec_string), (''country'', fld Country Country_update dec_string)]"

definition Meter_fields :: "Meter fields" where
  "Meter_fields = [(''power_kw'', fld PowerKW PowerKW_update dec_float),
     (''energy_kwh'', fld EnergyKWh EnergyKWh_update dec_float),
     (''voltage_v'', fld VoltageV VoltageV_update dec_float),
     (''current_a'', fld CurrentA CurrentA_update dec_float),
     (''soc_percent'', fld SocPercent SocPercent_update dec_int)]"

definition Vehicle_fields :: "Vehicle fields" where
  "Vehicle_fields = [(''brand'', fld Brand Brand_update dec_string),
     (''model'', fld VModel VModel_update dec_string), (''ev_id'', fld EvID EvID_update dec_string)]"

definition Fault_fields :: "Fault fields" where
  "Fault_fields = [(''error_code'', fld ErrorCode ErrorCode_update dec_string),
     (''component'', fld Component Component_update dec_string)]"

definition Event_fields :: "Event fields" where
  "Event_fields = [(''event_id'', fld EventID EventID_update dec_string),
     (''event_type'', fld EventType EventType_update dec_string),
     (''station_id'', fld StationID StationID_update dec_string),
     (''connector_id'', fld ConnectorID ConnectorID_update dec_int),
     (''session_id'', fld SessionID SessionID_update dec_string),
     (''timestamp'', fld Timestamp Timestamp_update dec_string),
     (''operator_id'', fld OperatorID OperatorID_update dec_string),
     (''location'', fld Location Location_update (dec_struct Location_fields)),
     (''meter'', fld Meter Meter_update (dec_ptr zero_Meter (dec_struct Meter_fields))),
     (''vehicle'', fld Vehicle Vehicle_update (dec_ptr zero_Vehicle (dec_struct Vehicle_fields))),
     (''tariff_id'', fld TariffID TariffID_update dec_string),
     (''cost_eur'', fld CostEur CostEur_update dec_float),
     (''fault'', fld Fault Fault_update (dec_ptr zero_Fault (dec_struct Fault_fields))),
     (''status'', fld Status Status_update dec_string),
     (''is_peak_priced'', fld IsPeakPriced IsPeakPriced_update dec_bool)]"

definition Unmarshal_Event :: "bytes \<Rightarrow> Event option" where
  "Unmarshal_Event raw = (case json_parse raw of None \<Rightarrow> None
     | Some j \<Rightarrow> (case dec_struct Event_fields j zero_Event of (e, ok) \<Rightarrow> if ok then Some e else None))"

subsection \<open>Decoded floats\<close>

text \<open>What holds of every number literal holds of every float of a decoded event, if it holds of zero.\<close>

definition location_floats :: "(float64 \<Rightarrow> bool) \<Rightarrow> Location \<Rightarrow> bool" where
  "location_floats P l \<longleftrightarrow> P (Lat l) \<and> P (Lon l)"

definition meter_floats :: "(float64 \<Rightarrow> bool) \<Rightarrow> Meter \<Rightarrow> bool" where
  "meter_floats P m \<longleftrightarrow> P (PowerKW m) \<and> P (EnergyKWh m) \<and> P (VoltageV m) \<and> P (CurrentA m)"

definition event_floats :: "(float64 \<Rightarrow> bool) \<Rightarrow> Event \<Rightarrow> bool" where
  "event_floats P e \<longleftrightarrow> location_floats P (Location e) \<and> P (CostEur e)
     \<and> (case Meter e of None \<Rightarrow> True | Some m \<Rightarrow> meter_floats P m)"

abbreviation location_finite :: "Location \<Rightarrow> bool" where
  "location_finite \<equiv> location_floats finite_f64"

abbreviation meter_finite :: "Meter \<Rightarrow> bool" where
  "meter_finite \<equiv> meter_floats finite_f64"

abbreviation event_finite :: "Event \<Rightarrow> bool" where
  "event_finite \<equiv> event_floats finite_f64"

definition literal_floats :: "(float64 \<Rightarrow> bool) \<Rightarrow> bool" where
  "literal_floats P \<longleftrightarrow> P 0 \<and> (\<forall>s x. ParseFloat s = Some x \<longrightarrow> P x)"

lemma literal_finite: "literal_floats finite_f64"
  by (auto simp: literal_floats_def ParseFloat_def zero_f64 split: float64.splits)

definition dec_keeps :: "('a \<Rightarrow> bool) \<Rightarrow> (json \<Rightarrow> 'a \<Rightarrow> 'a \<times> bool) \<Rightarrow> bool" where
  "dec_keeps P d \<longleftrightarrow> (\<forall>j r. P r \<longrightarrow> P (fst (d j r)))"

lemma dec_keeps_float: "literal_floats P \<Longrightarrow> dec_keeps P dec_float"
  unfolding dec_keeps_def
proof (intro allI impI)
  fix j r assume "literal_floats P" "P r"
  then show "P (fst (dec_float j r))"
    by (cases j) (auto simp: literal_floats_def split: option.splits)
qed

lemma find_field_mem: "find_field fs k = Some d \<Longrightarrow> d \<in> snd ` set fs"
  by (auto simp: find_field_def split: option.splits dest!: map_of_SomeD) force+

lemma dec_struct_keeps:
  assumes "\<And>d. d \<in> snd ` set fs \<Longrightarrow> dec_keeps P d"
  shows "dec_keeps P (dec_struct fs)"
proof -
  have step: "P (fst (dec_member fs (r, ok) (k, v)))" if "P r" for r ok k v
  proof (cases "find_field fs k")
    case (Some d)
    then have "P (fst (d v r))" using assms that by (auto simp: dec_keeps_def dest: find_field_mem)
    then show ?thesis using Some by (cases "d v r") (simp add: Let_def)
  qed (simp add: that)
  have "P (fst (foldl (dec_member fs) p ms))" if "P (fst p)" for p ms
    using that
  proof (induction ms arbitrary: p)
    case (Cons m ms)
    have "P (fst (dec_member fs p m))" using step Cons.prems by (metis prod.collapse)
    then show ?case by (simp only: foldl_Cons Cons.IH)
  qed simp
  then have "P (fst (dec_struct fs j r))" if "P r" for j r
    using that by (cases j) auto
  then show ?thesis by (simp add: dec_keeps_def)
qed

lemma dec_ptr_keeps:
  assumes "dec_keeps P d" "P z"
  shows "dec_keeps (\<lambda>p. case p of None \<Rightarrow> True | Some v \<Rightarrow> P v) (dec_ptr z d)"
  unfolding dec_keeps_def
proof (intro allI impI)
  fix j p assume "case p of None \<Rightarrow> True | Some v \<Rightarrow> P v"
  then have "P (fst (d j (case p of None \<Rightarrow> z | Some v \<Rightarrow> v)))"
    using assms by (auto simp: dec_keeps_def split: option.splits)
  then show "case fst (dec_ptr z d j p) of None \<Rightarrow> True | Some v \<Rightarrow> P v"
    by (cases j) (auto simp: Let_def split: prod.splits)
qed

lemma fst_fld [simp]: "fst (fld get upd d j r) = upd (\<lambda>_. fst (d j (get r))) r"
  by (simp add: fld_def Let_def split: prod.split)

lemma dec_float_keeps: "literal_floats P \<Longrightarrow> P x \<Longrightarrow> P (fst (dec_float j x))"
  using dec_keeps_float [of P] unfolding dec_keeps_def by blast

lemma Location_keeps: "literal_floats P \<Longrightarrow> dec_keeps (location_floats P) (dec_struct Location_fields)"
  by (rule dec_struct_keeps) (auto simp: Location_fields_def dec_keeps_def location_floats_def dec_float_keeps)

lemma Meter_keeps: "literal_floats P \<Longrightarrow> dec_keeps (meter_floats P) (dec_struct Meter_fields)"
  by (rule dec_struct_keeps) (auto simp: Meter_fields_def dec_keeps_def meter_floats_def dec_float_keeps)

lemma Meter_ptr_keeps:
  "literal_floats P \<Longrightarrow> dec_keeps (\<lambda>p. case p of None \<Rightarrow> True | Some v \<Rightarrow> meter_floats P v)
     (dec_ptr zero_Meter (dec_struct Meter_fields))"
  by (rule dec_ptr_keeps [OF Meter_keeps]) (simp_all add: meter_floats_def wire_defs literal_floats_def)

lemma Event_keeps:
  assumes "literal_floats P"
  shows "dec_keeps (event_floats P) (dec_struct Event_fields)"
  by (rule dec_struct_keeps)
    (use Location_keeps [OF assms] Meter_ptr_keeps [OF assms] dec_float_keeps [OF assms] in
      \<open>auto simp: Event_fields_def dec_keeps_def event_floats_def\<close>)

lemma Unmarshal_Event_floats:
  assumes "literal_floats P" "Unmarshal_Event raw = Some e"
  shows "event_floats P e"
proof -
  obtain j where "e = fst (dec_struct Event_fields j zero_Event)"
    using assms(2) by (auto simp: Unmarshal_Event_def split: option.splits prod.splits if_splits) (metis fst_conv)
  moreover have "event_floats P zero_Event"
    using assms(1) by (simp add: event_floats_def location_floats_def wire_defs literal_floats_def)
  ultimately show ?thesis using Event_keeps [OF assms(1)] by (simp add: dec_keeps_def)
qed

lemmas Unmarshal_Event_finite = Unmarshal_Event_floats [OF literal_finite]

end
