(* ===== verification/Decimal.thy ===== *)
theory Decimal
  imports Float64
begin

text \<open>
  The shortest decimal of a binary64 value, as \<^verbatim>\<open>strconv.AppendFloat\<close> finds it for precision -1 and
  \<^verbatim>\<open>json.Marshal\<close> prints it: for 1, 2, ... significant digits the nearest decimal and its other
  neighbour are tried until one rounds back to the value; at 17 digits the nearest one always does.
  Shown: the decimal found rounds back to the value, and no decimal with fewer digits does.
\<close>

subsection \<open>Values of the type\<close>

text \<open>Go's \<^verbatim>\<open>float64\<close> holds only representable numbers; every result of a rounding is one.\<close>

definition is_f64 :: "float64 \<Rightarrow> bool" where
  "is_f64 x \<longleftrightarrow> (case x of Fin q \<Rightarrow> rnd q = Fin q | _ \<Rightarrow> True)"

lemma rnd_eq_Fin: "rnd q = Fin v \<longleftrightarrow> v = rnd_val q \<and> (v = 0 \<or> ilog2 \<bar>v\<bar> < 1024)"
proof
  assume "rnd q = Fin v"
  then show "v = rnd_val q \<and> (v = 0 \<or> ilog2 \<bar>v\<bar> < 1024)" by (auto simp: rnd_def Let_def split: if_splits)
next
  assume v: "v = rnd_val q \<and> (v = 0 \<or> ilog2 \<bar>v\<bar> < 1024)"
  then have "rnd_val q = 0 \<or> ilog2 \<bar>rnd_val q\<bar> < 1024" by metis
  then show "rnd q = Fin v" using v by (simp add: rnd_def)
qed

lemma is_f64_rnd [simp]: "is_f64 (rnd q)"
proof (cases "rnd q")
  case (Fin v)
  then have v: "v = rnd_val q" "v = 0 \<or> ilog2 \<bar>v\<bar> < 1024" unfolding rnd_eq_Fin by blast+
  moreover from this(1) have "rnd_val v = v" by (simp add: rnd_val_representable [OF representable_rnd_val])
  ultimately have "rnd v = Fin v" by (simp add: rnd_eq_Fin)
  then show ?thesis by (simp add: Fin is_f64_def)
qed (simp_all add: is_f64_def)

lemma is_f64_special [simp]: "is_f64 PosInf" "is_f64 NegInf" "is_f64 NaN"
  by (simp_all add: is_f64_def)

lemma is_f64_Fin: "is_f64 (Fin q) \<longleftrightarrow> rnd q = Fin q"
  by (simp add: is_f64_def)

lemma is_f64_zero [simp]: "is_f64 (Fin 0)" "is_f64 0"
  by (simp_all add: is_f64_Fin rnd_def zero_f64)

lemma is_f64_int: "\<bar>n\<bar> \<le> 2 ^ 53 \<Longrightarrow> is_f64 (Fin (of_int n))"
  using f64_of_int_exact [of n] by (simp add: is_f64_Fin f64_of_int_def)

lemma is_f64_numeral [simp]: "numeral m \<le> (2 ^ 53 :: int) \<Longrightarrow> is_f64 (Fin (numeral m))"
  using is_f64_int [of "numeral m"] by simp

lemma is_f64_inf_of_sign [simp]: "is_f64 (inf_of_sign s)"
  by (simp add: inf_of_sign_def)

lemma is_f64_plus [simp]: "is_f64 (x + y)"
  by (cases x; cases y) simp_all

lemma is_f64_divide [simp]: "is_f64 (x / y)"
  by (cases x; cases y) simp_all

subsection \<open>Rounding a near value\<close>

lemma rhe_unique: "\<bar>y - of_int n\<bar> < 1 / 2 \<Longrightarrow> rhe y = n"
proof -
  assume y: "\<bar>y - of_int n\<bar> < 1 / 2"
  consider "\<lfloor>y\<rfloor> = n" | "\<lfloor>y\<rfloor> = n - 1" using y by (force simp: abs_if floor_eq_iff split: if_splits)
  then show ?thesis
    using y by cases (auto simp: rhe_def Let_def abs_if split: if_splits)
qed

lemma rnd_val_near:
  assumes x: "0 < x" "rnd_val x = x" and d: "\<bar>d - x\<bar> * 2 ^ 54 < x"
  shows "rnd_val d = x"
proof -
  define u where "u = ulp_exp x"
  define M where "M = rhe (x / 2 powi u)"
  have xM: "x = of_int M * 2 powi u" using x by (simp add: rnd_val_def Let_def u_def M_def split: if_splits)
  have u: "- 1074 \<le> u" "ilog2 x - 52 \<le> u" using x(1) by (simp_all add: u_def ulp_exp_def)
  have p: "(2::rat) powi (u + 53) = 2 ^ 53 * 2 powi u" "(2::rat) powi (u + 52) = 2 ^ 52 * 2 powi u"
    by (simp_all add: power_int_add)
  have "x < 2 powi (ilog2 x + 1)" by (rule ilog2_bounds(2) [OF x(1)])
  also have "(2::rat) powi (ilog2 x + 1) \<le> 2 powi (u + 53)" using u(2) by simp
  finally have "of_int M * 2 powi u < of_int (2 ^ 53) * (2::rat) powi u" by (simp add: xM p)
  then have "M < 2 ^ 53" by (simp only: mult_less_cancel_right_pos [OF powi2_pos] of_int_less_iff)
  then have M: "M \<le> 2 ^ 53 - 1" by simp
  have "of_int M * (2::rat) powi u \<le> of_int (2 ^ 53 - 1) * 2 powi u"
    using M by (intro mult_right_mono) (simp_all only: of_int_le_iff, simp)
  then have x_le: "x \<le> 2 ^ 53 * 2 powi u - 2 powi u" by (simp add: xM algebra_simps)
  have near: "\<bar>d - x\<bar> < 2 powi u / 2" using d x_le by (simp add: algebra_simps) (use powi2_pos [of u] in linarith)
  have ds: "d \<le> x + \<bar>d - x\<bar>" "x \<le> d + \<bar>d - x\<bar>" by linarith+
  have d0: "0 < d" using d x(1) by (cases "d \<le> 0") (simp_all add: abs_if)
  have "d < 2 powi (u + 53)" using near x_le powi2_pos [of u] ds(1) unfolding p by linarith
  then have "\<not> u + 53 \<le> ilog2 d" using le_ilog2_iff [OF d0] by simp
  then have ud: "ulp_exp d \<le> u" using u(1) d0 by (simp add: ulp_exp_def)
  show ?thesis
  proof (cases "ulp_exp d = u")
    case True
    have "\<bar>d / 2 powi u - of_int M\<bar> = \<bar>d - x\<bar> / 2 powi u"
      by (simp add: xM diff_divide_distrib [symmetric] abs_div_pos [symmetric]) (simp add: field_simps)
    also have "\<dots> < 1 / 2" using near by (simp add: field_simps)
    finally have "rhe (d / 2 powi u) = M" by (rule rhe_unique)
    then show ?thesis using d0 True by (simp add: rnd_val_def Let_def xM)
  next
    case False
    then have lt: "ulp_exp d < u" using ud by simp
    then have u1: "- 1074 < u" "ilog2 d < u + 52" "u = ilog2 x - 52" using d0 x(1) by (auto simp: ulp_exp_def u_def)
    have "d < 2 powi (u + 52)" using u1(2) le_ilog2_iff [OF d0, of "u + 52"] by simp
    moreover have "2 powi (u + 52) \<le> x" using u1(3) ilog2_bounds(1) [OF x(1)] by simp
    ultimately have dx: "d < 2 ^ 52 * 2 powi u" "2 ^ 52 * 2 powi u \<le> x" by (simp_all add: p)
    have "of_int M * (2::rat) powi u < of_int (2 ^ 52 + 1) * 2 powi u"
      using near dx(1) powi2_pos [of u] ds(2) unfolding xM [symmetric] of_int_add of_int_1 distrib_right mult_1 of_int_power of_int_numeral
      by linarith
    then have "M < 2 ^ 52 + 1" by (simp only: mult_less_cancel_right_pos [OF powi2_pos] of_int_less_iff)
    moreover have "of_int (2 ^ 52) * (2::rat) powi u \<le> of_int M * 2 powi u" using dx(2) by (simp add: xM)
    then have "2 ^ 52 \<le> M" by (simp only: mult_le_cancel_right_pos [OF powi2_pos] of_int_le_iff)
    ultimately have x': "x = 2 ^ 52 * 2 powi u" using xM by simp
    define v where "v = (2::rat) powi (u - 1)"
    have v: "2 powi u = 2 * v" "0 < v" using powi2_Suc [of "u - 1"] by (simp_all add: v_def)
    have xv: "x = 2 ^ 53 * v" by (simp add: x' v(1))
    have near': "\<bar>d - x\<bar> < v / 2" using d by (simp add: xv)
    have "2 powi (u + 51) \<le> d"
    proof -
      have "(2::rat) powi (u + 51) = 2 ^ 52 * v" by (simp add: v_def power_int_diff power_int_add)
      then show ?thesis using near' v(2) ds(2) unfolding xv by simp
    qed
    then have "u + 51 \<le> ilog2 d" using le_ilog2_iff [OF d0] by simp
    then have ulp: "ulp_exp d = u - 1" using u1 d0 by (simp add: ulp_exp_def)
    have "\<bar>d / v - of_int (2 ^ 53)\<bar> = \<bar>d - x\<bar> / v"
      using v(2) by (simp add: xv diff_divide_distrib [symmetric] abs_div_pos [symmetric]) (simp add: field_simps)
    also have "\<dots> < 1 / 2" using near' v(2) by (simp add: field_simps)
    finally have "rhe (d / v) = 2 ^ 53" by (rule rhe_unique)
    then show ?thesis using d0 ulp by (simp add: rnd_val_def Let_def v_def [symmetric] xv)
  qed
qed

subsection \<open>The search\<close>

lemma dec_digits_bounds: "0 < n \<Longrightarrow> 10 ^ (length (dec_digits n) - 1) \<le> n \<and> n < 10 ^ length (dec_digits n)"
proof (induction n rule: dec_digits.induct)
  case (1 n)
  show ?case
  proof (cases "n < 10")
    case True
    then show ?thesis using "1.prems" by (simp add: dec_digits.simps [of n])
  next
    case False
    define l where "l = length (dec_digits (n div 10))"
    have l: "length (dec_digits n) = Suc l" "0 < l" using False by (simp_all add: dec_digits.simps [of n] l_def)
    have IH: "10 ^ (l - 1) \<le> n div 10" "n div 10 < 10 ^ l" using "1.IH" [OF False] False by (simp_all add: l_def)
    have "(10::nat) ^ l = 10 * 10 ^ (l - 1)" using l(2) by (cases l) simp_all
    then have "10 ^ l \<le> n" "n < 10 * 10 ^ l" using IH by linarith+
    then show ?thesis by (simp add: l(1))
  qed
qed

text \<open>The decimal exponent, from the numbers of digits of numerator and denominator.\<close>

definition dec_exp :: "rat \<Rightarrow> int" where
  "dec_exp q = (let (a, b) = quotient_of q; k = int (length (dec_digits (nat a))) - int (length (dec_digits (nat b)))
                in if 10 powi k \<le> q then k else k - 1)"

lemma dec_exp_bounds:
  assumes "0 < q"
  shows "10 powi dec_exp q \<le> q" "q < 10 powi (dec_exp q + 1)"
proof -
  obtain a b where ab: "quotient_of q = (a, b)" by (cases "quotient_of q")
  have b: "0 < b" and q: "q = of_int a / of_int b"
    using quotient_of_denom_pos [OF ab] quotient_of_div [OF ab] by auto
  have a: "0 < a" using assms b unfolding q by (simp add: zero_less_divide_iff)
  define la lb where "la = length (dec_digits (nat a))" and "lb = length (dec_digits (nat b))"
  have len: "0 < la" "0 < lb" by (simp_all add: la_def lb_def)
  have pow: "10 powi (int l - 1) \<le> (of_int n :: rat)" "(of_int n :: rat) < 10 powi int l"
    if "0 < n" "l = length (dec_digits (nat n))" for n l
  proof -
    have l: "int l - 1 = int (l - 1)" using that(2) by (cases l) auto
    have "10 ^ (l - 1) \<le> nat n" "nat n < 10 ^ l" using dec_digits_bounds [of "nat n"] that by simp_all
    then have "(of_nat (10 ^ (l - 1)) :: rat) \<le> of_nat (nat n)" "(of_nat (nat n) :: rat) < of_nat (10 ^ l)"
      by (simp_all only: of_nat_le_iff of_nat_less_iff)
    then show "10 powi (int l - 1) \<le> (of_int n :: rat)" "(of_int n :: rat) < 10 powi int l"
      using that(1) by (simp_all add: l)
  qed
  note A = pow [OF a la_def] and B = pow [OF b lb_def]
  have p10: "0 < (10::rat) powi i" for i by (simp add: zero_less_power_int)
  have "q < 10 powi int la / 10 powi (int lb - 1)"
    unfolding q using A B a p10 by (intro frac_less) (auto simp: less_imp_le)
  also have "\<dots> = 10 powi (int la - int lb + 1)" by (simp add: power_int_diff power_int_add)
  finally have up: "q < 10 powi (int la - int lb + 1)" .
  have "10 powi (int la - 1) / 10 powi int lb \<le> q"
    unfolding q using A B a b p10 by (intro frac_le) (auto simp: less_imp_le)
  moreover have "10 powi (int la - 1) / 10 powi int lb = (10::rat) powi (int la - int lb - 1)" by (simp add: power_int_diff)
  ultimately have lo: "10 powi (int la - int lb - 1) \<le> q" by metis
  have "dec_exp q = (if 10 powi (int la - int lb) \<le> q then int la - int lb else int la - int lb - 1)"
    by (simp add: dec_exp_def ab Let_def la_def lb_def)
  then show "10 powi dec_exp q \<le> q" "q < 10 powi (dec_exp q + 1)" using up lo by auto
qed

definition dec_value :: "int \<times> int \<Rightarrow> rat" where
  "dec_value d = of_int (fst d) * 10 powi snd d"

definition hits :: "rat \<Rightarrow> int \<times> int \<Rightarrow> bool" where
  "hits x d \<longleftrightarrow> rnd (dec_value d) = Fin x"

text \<open>The nearest decimal of \<open>n\<close> digits, and the neighbour on the other side of the value.\<close>

definition nearest :: "rat \<Rightarrow> nat \<Rightarrow> int \<times> int" where
  "nearest x n = (let k = dec_exp x - int n + 1 in (rhe (x / 10 powi k), k))"

definition neighbour :: "rat \<Rightarrow> nat \<Rightarrow> int \<times> int" where
  "neighbour x n = (let k = dec_exp x - int n + 1; y = x / 10 powi k
     in (if rhe y = \<lfloor>y\<rfloor> then \<lfloor>y\<rfloor> + 1 else \<lfloor>y\<rfloor>, k))"

fun shortest :: "nat \<Rightarrow> nat \<Rightarrow> rat \<Rightarrow> int \<times> int" where
  "shortest 0 n x = nearest x n"
| "shortest (Suc f) n x =
     (if hits x (nearest x n) then nearest x n
      else if hits x (neighbour x n) then neighbour x n
      else shortest f (Suc n) x)"

function strip :: "nat \<Rightarrow> int \<Rightarrow> nat \<times> int" where
  "strip m k = (if 10 \<le> m \<and> m mod 10 = 0 then strip (m div 10) (k + 1) else (m, k))"
  by pat_completeness auto
termination by (relation "measure fst") auto

declare strip.simps [simp del]

text \<open>The digits, as a number that does not end in 0, and their exponent.\<close>

definition decimal :: "rat \<Rightarrow> nat \<times> int" where
  "decimal x = (let (m, k) = shortest 16 1 x in strip (nat m) k)"

subsection \<open>Its result\<close>

lemma powi10_pos [simp]: "0 < (10::rat) powi k"
  by (simp add: zero_less_power_int)

lemma scaled_bounds:
  assumes "0 < x" "1 \<le> n" and k: "k = dec_exp x - int n + 1"
  shows "10 ^ (n - 1) \<le> x / 10 powi k" "x / 10 powi k < 10 ^ n"
proof -
  have e: "dec_exp x = k + int (n - 1)" "dec_exp x + 1 = k + int n" using assms(2) k by auto
  have "(10::rat) powi (k + int j) = 10 powi k * 10 ^ j" for j by (simp add: power_int_add)
  then have "10 powi k * 10 ^ (n - 1) \<le> x" "x < 10 powi k * 10 ^ n"
    using dec_exp_bounds(1) [OF assms(1), unfolded e(1)] dec_exp_bounds(2) [OF assms(1), unfolded e(2)] by simp_all
  then show "10 ^ (n - 1) \<le> x / 10 powi k" "x / 10 powi k < 10 ^ n"
    by (simp_all add: le_divide_eq divide_less_eq mult.commute)
qed

lemma nearest_17_hits:
  assumes x: "0 < x" "rnd x = Fin x"
  shows "hits x (nearest x 17)"
proof -
  define k where "k = dec_exp x - int 17 + 1"
  define d where "d = dec_value (nearest x 17)"
  have d: "d = of_int (rhe (x / 10 powi k)) * 10 powi k" by (simp add: d_def dec_value_def nearest_def k_def Let_def)
  have "d - x = (of_int (rhe (x / 10 powi k)) - x / 10 powi k) * 10 powi k" by (simp add: d algebra_simps)
  then have "\<bar>d - x\<bar> = \<bar>of_int (rhe (x / 10 powi k)) - x / 10 powi k\<bar> * 10 powi k" by (simp add: abs_mult)
  also have "\<dots> \<le> 1 / 2 * 10 powi k" by (intro mult_right_mono rhe_near) (simp add: less_imp_le)
  finally have e: "\<bar>d - x\<bar> \<le> 1 / 2 * 10 powi k" .
  have "10 ^ 16 \<le> x / 10 powi k" using scaled_bounds(1) [OF x(1), of 17 k] by (simp add: k_def)
  then have "10 ^ 16 * 10 powi k \<le> x" by (simp add: le_divide_eq)
  then have "\<bar>d - x\<bar> * 2 ^ 54 < x" using e by simp (use powi10_pos [of k] in linarith)
  moreover have "rnd_val x = x" "x = 0 \<or> ilog2 \<bar>x\<bar> < 1024" using x(2) unfolding rnd_eq_Fin by simp_all
  ultimately have "rnd d = Fin x" using rnd_val_near [OF x(1)] unfolding rnd_eq_Fin by simp
  then show ?thesis by (simp add: hits_def d_def)
qed

lemma hits_between:
  assumes x: "rnd x = Fin x" and d: "rnd d = Fin x" and c: "d \<le> c \<and> c \<le> x \<or> x \<le> c \<and> c \<le> d"
  shows "rnd c = Fin x"
proof -
  have "rnd_val x = x" "rnd_val d = x" "x = 0 \<or> ilog2 \<bar>x\<bar> < 1024" using x d unfolding rnd_eq_Fin by simp_all
  moreover from this have "rnd_val c = x" using c rnd_val_mono [of d c] rnd_val_mono [of c x] rnd_val_mono [of x c] rnd_val_mono [of c d] by auto
  ultimately show ?thesis unfolding rnd_eq_Fin by simp
qed

lemma scale_mono: "a \<le> b \<Longrightarrow> of_int a * (10::rat) powi k \<le> of_int b * 10 powi k"
  by (intro mult_right_mono) (simp_all add: less_imp_le)

text \<open>If any decimal of \<open>n\<close> digits rounds to the value, one of the two neighbours does.\<close>

lemma neighbours_complete:
  assumes x: "0 < x" "rnd x = Fin x" and n: "1 \<le> n" and d: "hits x (m', k')" "m' < 10 ^ n"
  shows "hits x (nearest x n) \<or> hits x (neighbour x n)"
proof -
  define k where "k = dec_exp x - int n + 1"
  define y where "y = x / 10 powi k"
  have y: "10 ^ (n - 1) \<le> y" using scaled_bounds(1) [OF x(1) n k_def] by (simp add: y_def)
  have xy: "x = y * 10 powi k" by (simp add: y_def)
  define d' where "d' = of_int m' * (10::rat) powi k'"
  have d': "rnd d' = Fin x" using d(1) by (simp add: hits_def dec_value_def d'_def)
  have c: "d' \<le> of_int \<lfloor>y\<rfloor> * 10 powi k \<or> of_int (\<lfloor>y\<rfloor> + 1) * 10 powi k \<le> d'"
  proof (cases "k \<le> k'")
    case True
    then have "k' = int (nat (k' - k)) + k" by simp
    then have "(10::rat) powi k' = 10 powi int (nat (k' - k)) * 10 powi k" by (metis power_int_add zero_neq_numeral)
    then have "(10::rat) powi k' = of_int (10 ^ nat (k' - k)) * 10 powi k"
      by (simp only: power_int_of_nat of_int_power of_int_numeral)
    then have e: "d' = of_int (m' * 10 ^ nat (k' - k)) * 10 powi k" by (simp add: d'_def)
    have "m' * 10 ^ nat (k' - k) \<le> \<lfloor>y\<rfloor> \<or> \<lfloor>y\<rfloor> + 1 \<le> m' * 10 ^ nat (k' - k)" by linarith
    then show ?thesis unfolding e using scale_mono by blast
  next
    case False
    have "(of_int m' :: rat) \<le> of_int (10 ^ n)" using d(2) by (simp only: of_int_le_iff)
    then have "d' \<le> 10 ^ n * 10 powi k'" unfolding d'_def by (intro mult_right_mono) (simp_all add: less_imp_le)
    also have "\<dots> \<le> 10 ^ n * 10 powi (k - 1)" using False by (intro mult_left_mono power_int_increasing) simp_all
    also have "\<dots> = 10 ^ (n - 1) * (10 powi 1 * 10 powi (k - 1))" using n by (cases n) simp_all
    also have "10 powi 1 * 10 powi (k - 1) = (10::rat) powi k" by (subst power_int_add [symmetric]) simp_all
    also have "10 ^ (n - 1) * 10 powi k \<le> of_int \<lfloor>y\<rfloor> * (10::rat) powi k"
    proof (intro mult_right_mono)
      have "10 ^ (n - 1) \<le> \<lfloor>y\<rfloor>" using y by (simp add: le_floor_iff)
      then have "(of_int (10 ^ (n - 1)) :: rat) \<le> of_int \<lfloor>y\<rfloor>" by (simp only: of_int_le_iff)
      then show "10 ^ (n - 1) \<le> (of_int \<lfloor>y\<rfloor> :: rat)" by simp
    qed (simp add: less_imp_le)
    finally show ?thesis by blast
  qed
  have lo: "of_int \<lfloor>y\<rfloor> * 10 powi k \<le> x" unfolding xy by (intro mult_right_mono) (simp_all add: less_imp_le)
  have hi: "x \<le> of_int (\<lfloor>y\<rfloor> + 1) * 10 powi k" unfolding xy by (intro mult_right_mono) (simp_all add: less_imp_le, linarith)
  have "hits x (\<lfloor>y\<rfloor>, k) \<or> hits x (\<lfloor>y\<rfloor> + 1, k)"
    using c hits_between [OF x(2) d'] lo hi unfolding hits_def dec_value_def by auto
  moreover have "{nearest x n, neighbour x n} = {(\<lfloor>y\<rfloor>, k), (\<lfloor>y\<rfloor> + 1, k)}"
  proof -
    have "rhe y = \<lfloor>y\<rfloor> \<or> rhe y = \<lfloor>y\<rfloor> + 1" by (auto simp: rhe_def Let_def)
    then show ?thesis by (auto simp: nearest_def neighbour_def k_def [symmetric] y_def [symmetric] Let_def)
  qed
  ultimately show ?thesis by (metis insertCI insertE singletonD)
qed

lemma neighbours_range:
  assumes "0 < x" "1 \<le> n" "d = nearest x n \<or> d = neighbour x n"
  shows "10 ^ (n - 1) \<le> fst d \<and> fst d \<le> 10 ^ n"
proof -
  define y where "y = x / 10 powi (dec_exp x - int n + 1)"
  have y: "of_int (10 ^ (n - 1)) \<le> y" "y < of_int (10 ^ n)" using scaled_bounds [OF assms(1,2) refl] by (simp_all add: y_def)
  then have "10 ^ (n - 1) \<le> rhe y" "rhe y \<le> 10 ^ n" "10 ^ (n - 1) \<le> \<lfloor>y\<rfloor>" "\<lfloor>y\<rfloor> < 10 ^ n"
    by (simp_all only: rhe_int_bounds less_imp_le le_floor_iff floor_less_iff)
  then show ?thesis using assms(3) by (auto simp: nearest_def neighbour_def Let_def y_def [symmetric])
qed

text \<open>Where the search ends: at the first number of digits at which a neighbour rounds back.\<close>

lemma shortest_stops:
  "\<exists>n'. n \<le> n' \<and> n' \<le> n + f \<and> (shortest f n x = nearest x n' \<or> shortest f n x = neighbour x n')
     \<and> (n' < n + f \<longrightarrow> hits x (shortest f n x)) \<and> (\<forall>j. n \<le> j \<and> j < n' \<longrightarrow> \<not> hits x (nearest x j) \<and> \<not> hits x (neighbour x j))"
proof (induction f n x rule: shortest.induct)
  case (2 f n x)
  consider "hits x (nearest x n)" | "\<not> hits x (nearest x n)" "hits x (neighbour x n)"
    | "\<not> hits x (nearest x n)" "\<not> hits x (neighbour x n)" by blast
  then show ?case
  proof cases
    case 3
    from "2.IH" [OF 3] obtain n' where n': "Suc n \<le> n'" "n' \<le> Suc n + f"
      "shortest f (Suc n) x = nearest x n' \<or> shortest f (Suc n) x = neighbour x n'"
      "n' < Suc n + f \<longrightarrow> hits x (shortest f (Suc n) x)"
      "\<forall>j. Suc n \<le> j \<and> j < n' \<longrightarrow> \<not> hits x (nearest x j) \<and> \<not> hits x (neighbour x j)" by blast
    then have "\<not> hits x (nearest x j) \<and> \<not> hits x (neighbour x j)" if "n \<le> j \<and> j < n'" for j
      using that 3 by (cases "j = n") auto
    then show ?thesis using n' 3 by (intro exI [of _ n']) auto
  qed (rule exI [of _ n]; force)+
qed (rule exI; force)

lemma shortest_17:
  assumes x: "0 < x" "rnd x = Fin x"
  shows "hits x (shortest 16 1 x) \<and> 0 < fst (shortest 16 1 x)
    \<and> (\<forall>m k n. 1 \<le> n \<longrightarrow> m < 10 ^ n \<longrightarrow> hits x (m, k) \<longrightarrow> fst (shortest 16 1 x) \<le> 10 ^ n)"
proof -
  let ?d = "shortest 16 1 x"
  from shortest_stops [of 1 16 x] obtain n' where n': "1 \<le> n'" "n' \<le> 17" "?d = nearest x n' \<or> ?d = neighbour x n'"
    "n' < 17 \<longrightarrow> hits x ?d" and first: "\<forall>j. 1 \<le> j \<and> j < n' \<longrightarrow> \<not> hits x (nearest x j) \<and> \<not> hits x (neighbour x j)" by auto
  have hit: "hits x ?d"
  proof (cases "n' < 17")
    case False
    then have "n' = 17" using n'(2) by simp
    moreover have "shortest 16 1 x = nearest x 17 \<or> hits x (shortest 16 1 x)"
    proof -
      have "shortest f n x = nearest x (n + f) \<or> hits x (shortest f n x)" for f n
        by (induction f n x rule: shortest.induct) auto
      from this [of 16 1] show ?thesis by simp
    qed
    ultimately show ?thesis using nearest_17_hits [OF x] by auto
  qed (use n' in simp)
  have r: "10 ^ (n' - 1) \<le> fst ?d" "fst ?d \<le> 10 ^ n'" using neighbours_range [OF x(1) n'(1,3)] by simp_all
  have "0 < (10::int) ^ (n' - 1)" by simp
  then have "0 < fst ?d" using r(1) by linarith
  moreover have "fst ?d \<le> 10 ^ n" if "1 \<le> n" "m < 10 ^ n" "hits x (m, k)" for m k n
  proof -
    have "hits x (nearest x n) \<or> hits x (neighbour x n)" by (rule neighbours_complete [OF x that(1,3,2)])
    then have "n' \<le> n" using first that(1) by (meson not_le)
    then have "(10::int) ^ n' \<le> 10 ^ n" by (intro power_increasing) simp_all
    then show ?thesis using r(2) by linarith
  qed
  ultimately show ?thesis using hit by blast
qed

lemma strip_value:
  assumes "0 < m"
  shows "0 < fst (strip m k) \<and> fst (strip m k) \<le> m \<and> of_nat (fst (strip m k)) * 10 powi snd (strip m k) = (of_nat m * 10 powi k :: rat)
    \<and> (fst (strip m k) < 10 \<or> fst (strip m k) mod 10 \<noteq> 0)"
  using assms
proof (induction m k rule: strip.induct)
  case (1 m k)
  show ?case
  proof (cases "10 \<le> m \<and> m mod 10 = 0")
    case True
    then have s: "strip m k = strip (m div 10) (k + 1)" by (simp add: strip.simps [of m k])
    have m: "m = m div 10 * 10" using True by presburger
    have e: "of_nat m * 10 powi k = (of_nat (m div 10) * 10 powi (k + 1) :: rat)"
      by (subst m) (simp add: power_int_add)
    have d: "0 < m div 10" "m div 10 \<le> m" using True by auto
    show ?thesis using "1.IH" [OF True d(1)] d(2) unfolding s e by (meson order_trans)
  next
    case False
    then show ?thesis using "1.prems" by (auto simp: strip.simps [of m k])
  qed
qed

lemma dec_digits_length_le: "0 < m \<Longrightarrow> m < 10 ^ n \<Longrightarrow> length (dec_digits m) \<le> n"
proof (rule ccontr)
  assume m: "0 < m" "m < 10 ^ n" "\<not> length (dec_digits m) \<le> n"
  then have "(10::nat) ^ n \<le> 10 ^ (length (dec_digits m) - 1)" by (intro power_increasing) simp_all
  then show False using dec_digits_bounds [OF m(1)] m(2) by linarith
qed

text \<open>The decimal found: it rounds back to the value, it does not end in 0, and it is the shortest.\<close>

lemma decimal_value:
  assumes "0 < x" "rnd x = Fin x" "decimal x = (m, k)"
  shows "0 < m" "rnd (of_nat m * 10 powi k) = Fin x" "m < 10 \<or> m mod 10 \<noteq> 0"
proof -
  obtain a b where ab: "shortest 16 1 x = (a, b)" by fastforce
  have a: "hits x (a, b)" "0 < a" using shortest_17 [OF assms(1,2)] unfolding ab by simp_all
  have s: "strip (nat a) b = (m, k)" using assms(3) unfolding decimal_def ab by simp
  show "0 < m" "m < 10 \<or> m mod 10 \<noteq> 0" using strip_value [of "nat a" b] a(2) by (simp_all add: s)
  have "of_nat m * 10 powi k = dec_value (a, b)" using strip_value [of "nat a" b] a(2) by (simp add: s dec_value_def)
  then show "rnd (of_nat m * 10 powi k) = Fin x" using a(1) by (simp add: hits_def)
qed

lemma decimal_shortest:
  assumes x: "0 < x" "rnd x = Fin x" "decimal x = (m, k)" and o: "rnd (of_nat m' * 10 powi k') = Fin x"
  shows "length (dec_digits m) \<le> length (dec_digits m')"
proof -
  obtain a b where ab: "shortest 16 1 x = (a, b)" by fastforce
  define n where "n = length (dec_digits m')"
  have "m' \<noteq> 0"
  proof
    assume "m' = 0"
    then have "rnd 0 = Fin x" using o by simp
    then show False using x(1) by (simp add: rnd_def)
  qed
  then have m': "m' < 10 ^ n" "1 \<le> n" using dec_digits_bounds [of m'] by (simp_all add: n_def Suc_le_eq)
  then have "int m' < 10 ^ n" by (metis of_nat_less_iff of_nat_numeral of_nat_power)
  moreover have "hits x (int m', k')" using o by (simp add: hits_def dec_value_def)
  moreover note shortest_17 [OF x(1,2), unfolded ab fst_conv]
  ultimately have "a \<le> 10 ^ n" "0 < a" using m'(2) by blast+
  then have a: "nat a \<le> 10 ^ n" "0 < nat a" by (simp_all add: nat_le_iff)
  have s: "strip (nat a) b = (m, k)" using x(3) unfolding decimal_def ab by simp
  have m: "0 < m" "m \<le> nat a" "m < 10 \<or> m mod 10 \<noteq> 0" using strip_value [OF a(2), of b] by (simp_all add: s)
  have "m < 10 ^ n"
  proof (rule ccontr)
    assume "\<not> m < 10 ^ n"
    then have "m = 10 ^ n" using m(2) a(1) by linarith
    then have "m mod 10 = 0" "10 \<le> m" using m'(2) by (cases n; simp)+
    then show False using m(3) by simp
  qed
  then show ?thesis using dec_digits_length_le [OF m(1)] by (simp add: n_def)
qed

end
