(* ===== verification/JsonWrite.thy ===== *)
theory JsonWrite
  imports Json Decimal
begin

text \<open>
  What the programs use of \<^verbatim>\<open>json.Marshal\<close>: strings with their escapes (\<^verbatim>\<open>htmlSafeSet\<close>, the line
  separators, a replacement for invalid UTF-8), integers, the shortest floats that read back, objects
  without white space, and \<^verbatim>\<open>omitempty\<close>. Shown: the decoder of \<open>Json\<close> reads every encoded value back, up
  to the replacement of invalid UTF-8, and the wire struct exactly.
\<close>

subsection \<open>Strings\<close>

definition hex_digit :: "nat \<Rightarrow> char" where
  "hex_digit n = (if n < 10 then char_of (48 + n) else char_of (87 + n))"

definition esc_ascii :: "char \<Rightarrow> string" where
  "esc_ascii c =
     (if c = CHR 0x22 \<or> c = CHR 0x5C then [CHR 0x5C, c]
      else if c = CHR 0x08 then [CHR 0x5C, CHR ''b'']
      else if c = CHR 0x0C then [CHR 0x5C, CHR ''f'']
      else if c = CHR 0x0A then [CHR 0x5C, CHR ''n'']
      else if c = CHR 0x0D then [CHR 0x5C, CHR ''r'']
      else if c = CHR 0x09 then [CHR 0x5C, CHR ''t'']
      else if byte c < 32 \<or> c = CHR ''<'' \<or> c = CHR ''>'' \<or> c = CHR ''&''
        then [CHR 0x5C, CHR ''u'', CHR ''0'', CHR ''0'', hex_digit (byte c div 16), hex_digit (byte c mod 16)]
      else [c])"

text \<open>One step over a non-empty string: what is written for its first character, and what remains.\<close>

definition esc_step :: "string \<Rightarrow> string \<times> string" where
  "esc_step s =
     (if byte (hd s) < 128 then (esc_ascii (hd s), tl s)
      else let n = utf8_len s in
        if n = 0 then (CHR 0x5C # ''ufffd'', tl s)
        else if take 3 s = [CHR 0xE2, CHR 0x80, CHR 0xA8] then (CHR 0x5C # ''u2028'', drop 3 s)
        else if take 3 s = [CHR 0xE2, CHR 0x80, CHR 0xA9] then (CHR 0x5C # ''u2029'', drop 3 s)
        else (take n s, drop n s))"

lemma esc_step_length: "s \<noteq> [] \<Longrightarrow> length (snd (esc_step s)) < length s"
  by (cases s) (auto simp: esc_step_def Let_def)

function appendString :: "string \<Rightarrow> string" where
  "appendString s = (if s = [] then [] else fst (esc_step s) @ appendString (snd (esc_step s)))"
  by pat_completeness auto
termination by (relation "measure length") (auto simp: esc_step_length)

declare appendString.simps [simp del]

text \<open>The string with every invalid byte replaced, and the strings that have none.\<close>

function to_valid :: "string \<Rightarrow> string" where
  "to_valid s = (if s = [] then []
     else if utf8_len s = 0 then replacement @ to_valid (tl s)
     else take (utf8_len s) s @ to_valid (drop (utf8_len s) s))"
  by pat_completeness auto
termination by (relation "measure length") auto

declare to_valid.simps [simp del]

definition valid_utf8 :: "string \<Rightarrow> bool" where
  "valid_utf8 s \<longleftrightarrow> to_valid s = s"

lemma appendString_Nil [simp]: "appendString [] = []"
  by (simp add: appendString.simps)

lemma to_valid_Nil [simp]: "to_valid [] = []"
  by (simp add: to_valid.simps)

text \<open>The escapes read back.\<close>

lemma hex_val_digit: "n < 16 \<Longrightarrow> hex_val (hex_digit n) = Some n"
  by (simp add: hex_val_def hex_digit_def Let_def)

lemma utf8_encode_ascii: "byte c < 128 \<Longrightarrow> utf8_encode (byte c) = [c]"
  by (simp add: utf8_encode_def)

lemma lex_char_ascii:
  assumes "byte c < 128"
  shows "\<exists>d ds. esc_ascii c = d # ds \<and> d \<noteq> CHR 0x22 \<and> lex_char (esc_ascii c @ r) = Some ([c], r)"
proof -
  define x y where "x = byte c div 16" and "y = byte c mod 16"
  have xy: "x < 8" "y < 16" "16 * x + y = byte c" using assms by (auto simp: x_def y_def)
  have "hex4 (CHR ''0'' # CHR ''0'' # hex_digit x # hex_digit y # r) = Some (byte c)"
    using xy by (simp add: hex_val_digit) (simp add: hex_val_def Let_def)
  moreover have "\<not> (55296 \<le> byte c \<and> byte c < 57344)" using assms by simp
  ultimately have u: "lex_unicode (CHR ''0'' # CHR ''0'' # hex_digit x # hex_digit y # r) = Some ([c], r)"
    by (simp only: lex_unicode_def option.case Let_def if_False utf8_encode_ascii [OF assms]) simp
  have plain: "lex_char (c # r) = Some ([c], r)" if "\<not> byte c < 32" "c \<noteq> CHR 0x5C"
    using that assms by (simp add: Let_def)
  show ?thesis
    using u plain unfolding esc_ascii_def x_def [symmetric] y_def [symmetric] by (simp split del: if_split) (auto split: if_split)
qed

lemma utf8_len_cases:
  obtains "utf8_len s = 0"
  | c t where "s = c # t" "byte c < 128" "utf8_len s = 1"
  | c c1 t where "s = c # c1 # t" "194 \<le> byte c" "byte c < 224" "cont_byte c1" "utf8_len s = 2"
  | c c1 c2 t where "s = c # c1 # c2 # t" "224 \<le> byte c" "byte c < 240" "cont_byte c1 \<and> cont_byte c2
      \<and> (byte c = 224 \<longrightarrow> 160 \<le> byte c1) \<and> (byte c = 237 \<longrightarrow> byte c1 < 160)" "utf8_len s = 3"
  | c c1 c2 c3 t where "s = c # c1 # c2 # c3 # t" "240 \<le> byte c" "byte c < 245" "cont_byte c1 \<and> cont_byte c2 \<and> cont_byte c3
      \<and> (byte c = 240 \<longrightarrow> 144 \<le> byte c1) \<and> (byte c = 244 \<longrightarrow> byte c1 < 144)" "utf8_len s = 4"
proof (cases s)
  case (Cons c t)
  consider "byte c < 128" | "194 \<le> byte c" "byte c < 224" | "224 \<le> byte c" "byte c < 240" | "240 \<le> byte c" "byte c < 245"
    | "\<not> byte c < 128" "\<not> (194 \<le> byte c \<and> byte c < 224)" "\<not> (224 \<le> byte c \<and> byte c < 240)" "\<not> (240 \<le> byte c \<and> byte c < 245)"
    by blast
  then show thesis
  proof cases
    case 1
    then show thesis using that(2) by (simp add: Cons)
  next
    case 2
    then have l: "utf8_len s = (case t of c1 # _ \<Rightarrow> if cont_byte c1 then 2 else 0 | _ \<Rightarrow> 0)" by (simp add: Cons)
    have "utf8_len s = 0 \<or> (\<exists>c1 t'. t = c1 # t' \<and> cont_byte c1 \<and> utf8_len s = 2)"
      unfolding l by (auto split: list.splits)
    then show thesis using that(1) that(3) [OF _ 2] Cons by blast
  next
    case 3
    then have "utf8_len s = (case t of c1 # c2 # _ \<Rightarrow> if cont_byte c1 \<and> cont_byte c2
        \<and> (byte c = 224 \<longrightarrow> 160 \<le> byte c1) \<and> (byte c = 237 \<longrightarrow> byte c1 < 160) then 3 else 0 | _ \<Rightarrow> 0)"
      by (simp add: Cons Let_def)
    then show thesis using 3 that(1,4) unfolding Cons by (auto split: list.splits if_splits)
  next
    case 4
    then have "utf8_len s = (case t of c1 # c2 # c3 # _ \<Rightarrow> if cont_byte c1 \<and> cont_byte c2 \<and> cont_byte c3
        \<and> (byte c = 240 \<longrightarrow> 144 \<le> byte c1) \<and> (byte c = 244 \<longrightarrow> byte c1 < 144) then 4 else 0 | _ \<Rightarrow> 0)"
      by (simp add: Cons Let_def)
    then show thesis using 4 that(1,5) unfolding Cons by (auto split: list.splits if_splits)
  next
    case 5
    then have "utf8_len s = 0" by (simp only: Cons utf8_len.simps Let_def if_False)
    then show thesis by (rule that(1))
  qed
qed (use that(1) in simp)

lemma utf8_len_take: "utf8_len s \<le> length s \<and> (0 < utf8_len s \<longrightarrow> utf8_len (take (utf8_len s) s @ r) = utf8_len s)"
  by (cases s rule: utf8_len_cases) simp_all

lemma utf8_separators: "utf8_encode 8232 = [CHR 0xE2, CHR 0x80, CHR 0xA8]" "utf8_encode 8233 = [CHR 0xE2, CHR 0x80, CHR 0xA9]"
  by (simp_all add: utf8_encode_def char_of_def bit_iff_odd)

lemma esc_step_lex:
  assumes "s \<noteq> []"
  shows "\<exists>d ds v. fst (esc_step s) = d # ds \<and> d \<noteq> CHR 0x22 \<and> lex_char (fst (esc_step s) @ r) = Some (v, r)
    \<and> to_valid s = v @ to_valid (snd (esc_step s))"
proof -
  obtain c t where s: "s = c # t" using assms by (cases s) auto
  show ?thesis
  proof (cases "byte c < 128")
    case True
    moreover have "utf8_len s = 1" using True by (simp add: s)
    ultimately show ?thesis
      using lex_char_ascii [OF True, of r] by (auto simp: esc_step_def s to_valid.simps [of "c # t"])
  next
    case False
    define n where "n = utf8_len s"
    consider "n = 0" | "0 < n" "take 3 s = [CHR 0xE2, CHR 0x80, CHR 0xA8]" | "0 < n" "take 3 s = [CHR 0xE2, CHR 0x80, CHR 0xA9]"
      | "0 < n" "take 3 s \<noteq> [CHR 0xE2, CHR 0x80, CHR 0xA8]" "take 3 s \<noteq> [CHR 0xE2, CHR 0x80, CHR 0xA9]" by blast
    then show ?thesis
    proof cases
      case 1
      then show ?thesis
        using False by (simp add: esc_step_def s n_def Let_def lex_unicode_def hex_val_def to_valid.simps [of "c # t"])
    next
      case 4
      define w where "w = take n s"
      then obtain w' where w': "w = c # w'" using 4(1) by (cases n) (simp_all add: s)
      have c: "c \<noteq> CHR 0x22" "c \<noteq> CHR 0x5C" "\<not> byte c < 32" using False by auto
      have l: "utf8_len (c # w' @ r) = n" using utf8_len_take [of s r] 4(1) w' by (simp add: w_def n_def)
      have "length (c # w') = n" using utf8_len_take [of s r] unfolding w' [symmetric] by (simp add: w_def n_def min_def)
      then have "take n (c # w' @ r) = c # w'" "drop n (c # w' @ r) = r" by (metis append_Cons append_eq_conv_conj)+
      then have "lex_char (w @ r) = Some (w, r)" using l 4(1) c by (simp add: w' Let_def del: utf8_len.simps)
      moreover have "\<not> byte (hd s) < 128" using False by (simp add: s)
      then have "esc_step s = (w, drop n s)" using 4 by (simp add: esc_step_def n_def [symmetric] w_def Let_def)
      moreover have "to_valid s = w @ to_valid (drop n s)" using 4(1) assms by (simp add: to_valid.simps [of s] n_def w_def)
      ultimately show ?thesis using c(1) w' by auto
    next
      case 2
      then have "s = [CHR 0xE2, CHR 0x80, CHR 0xA8] @ drop 3 s" by (metis append_take_drop_id)
      then obtain t' where t': "s = CHR 0xE2 # CHR 0x80 # CHR 0xA8 # t'" by simp
      then show ?thesis
        by (simp add: esc_step_def cont_byte_def lex_unicode_def hex_val_def Let_def utf8_separators
            to_valid.simps [of "CHR 0xE2 # CHR 0x80 # CHR 0xA8 # t'"])
    next
      case 3
      then have "s = [CHR 0xE2, CHR 0x80, CHR 0xA9] @ drop 3 s" by (metis append_take_drop_id)
      then obtain t' where t': "s = CHR 0xE2 # CHR 0x80 # CHR 0xA9 # t'" by simp
      then show ?thesis
        by (simp add: esc_step_def cont_byte_def lex_unicode_def hex_val_def Let_def utf8_separators
            to_valid.simps [of "CHR 0xE2 # CHR 0x80 # CHR 0xA9 # t'"])
    qed
  qed
qed

lemma lex_string_append: "lex_string acc (appendString s @ CHR 0x22 # r) = Some (acc @ to_valid s, r)"
proof (induction s arbitrary: acc rule: appendString.induct)
  case (1 s)
  show ?case
  proof (cases "s = []")
    case True
    then show ?thesis by (simp add: lex_string.simps [of acc])
  next
    case False
    let ?r = "appendString (snd (esc_step s)) @ CHR 0x22 # r"
    obtain d ds v where d: "fst (esc_step s) = d # ds" "d \<noteq> CHR 0x22" "lex_char (fst (esc_step s) @ ?r) = Some (v, ?r)"
      "to_valid s = v @ to_valid (snd (esc_step s))"
      using esc_step_lex [OF False, of ?r] by blast
    have "appendString s @ CHR 0x22 # r = fst (esc_step s) @ ?r" using False by (simp add: appendString.simps [of s])
    then show ?thesis
      using "1.IH" [OF False, of "acc @ v"] d by (simp add: lex_string.simps [of acc "d # ds @ ?r"])
  qed
qed

text \<open>Printable ASCII, and what is made of it, is valid.\<close>

lemma to_valid_ascii: "byte c < 128 \<Longrightarrow> to_valid (c # s) = c # to_valid s"
  by (simp add: to_valid.simps [of "c # s"])

definition ascii :: "string \<Rightarrow> bool" where
  "ascii s \<longleftrightarrow> list_all (\<lambda>c. byte c < 128) s"

lemma ascii_simps [simp]: "ascii []" "ascii (c # s) \<longleftrightarrow> byte c < 128 \<and> ascii s" "ascii (s @ t) \<longleftrightarrow> ascii s \<and> ascii t"
  "ascii (replicate n c) \<longleftrightarrow> n = 0 \<or> byte c < 128"
  by (auto simp: ascii_def list_all_iff)

lemma ascii_take: "ascii s \<Longrightarrow> ascii (take n s)"
  by (auto simp: ascii_def list_all_iff dest: in_set_takeD)

lemma ascii_digits [simp]: "ascii (dec_digits n)" "ascii (pad_nat w n)"
proof -
  show d: "ascii (dec_digits n)" using list_all_dec_digits [of n] unfolding ascii_def list_all_iff is_digit_def by fastforce
  then show "ascii (pad_nat w n)" by (simp add: pad_nat_def Let_def)
qed

lemma ascii_format_ms [simp]: "ascii (format_ms t)"
  by (simp add: format_ms_def format_year_def split: prod.split)

lemma valid_utf8_ascii [simp]: "ascii s \<Longrightarrow> valid_utf8 s"
  unfolding valid_utf8_def by (induction s) (simp_all add: to_valid_ascii)

lemma utf8_len_append: "0 < utf8_len s \<Longrightarrow> utf8_len (s @ t) = utf8_len s"
  by (cases s rule: utf8_len_cases) simp_all

lemma valid_utf8_len: "valid_utf8 s \<Longrightarrow> s \<noteq> [] \<Longrightarrow> 0 < utf8_len s"
proof (rule ccontr)
  assume s: "valid_utf8 s" "s \<noteq> []" "\<not> 0 < utf8_len s"
  then have "s = replacement @ to_valid (tl s)" by (simp add: valid_utf8_def to_valid.simps [of s])
  moreover have "0 < utf8_len replacement" by (simp add: utf8_encode_def cont_byte_def)
  ultimately show False using s(3) utf8_len_append [of replacement "to_valid (tl s)"] by simp
qed

lemma to_valid_append: "valid_utf8 s \<Longrightarrow> to_valid (s @ t) = s @ to_valid t"
proof (induction s rule: to_valid.induct)
  case (1 s)
  show ?case
  proof (cases "s = []")
    case False
    let ?n = "utf8_len s"
    have n: "0 < ?n" "?n \<le> length s" using valid_utf8_len [OF "1.prems" False] utf8_len_take [of s] by simp_all
    have "take ?n s @ to_valid (drop ?n s) = take ?n s @ drop ?n s"
      using "1.prems" False n(1) by (simp add: valid_utf8_def to_valid.simps [of s])
    then have v: "valid_utf8 (drop ?n s)" unfolding valid_utf8_def same_append_eq .
    have "to_valid (s @ t) = take ?n s @ to_valid (drop ?n s @ t)"
      using False n by (simp add: to_valid.simps [of "s @ t"] utf8_len_append)
    also have "\<dots> = s @ to_valid t" using "1.IH"(2) [OF False _ v] n(1) by simp
    finally show ?thesis .
  qed simp
qed

lemma valid_utf8_append: "valid_utf8 s \<Longrightarrow> valid_utf8 t \<Longrightarrow> valid_utf8 (s @ t)"
  by (simp add: valid_utf8_def [of "s @ t"] to_valid_append) (simp add: valid_utf8_def)

subsection \<open>Numbers\<close>

text \<open>A literal from its integer digits, its fraction digits and its exponent.\<close>

definition num_text :: "bool \<Rightarrow> string \<Rightarrow> string \<Rightarrow> int option \<Rightarrow> string" where
  "num_text neg ip fp ex =
     (if neg then ''-'' else []) @ ip @ (if fp = [] then [] else CHR ''.'' # fp)
     @ (case ex of None \<Rightarrow> [] | Some e \<Rightarrow> CHR ''e'' # (if e < 0 then CHR ''-'' else CHR ''+'') # dec_digits (nat \<bar>e\<bar>))"

text \<open>
  \<^verbatim>\<open>floatEncoder\<close>: the shortest digits, in plain notation between 1e-6 and 1e21, with an exponent
  outside. \<open>dp\<close> is the position of the decimal point.
\<close>

fun enc_float :: "float64 \<Rightarrow> string" where
  "enc_float (Fin q) =
     (if q = 0 then ''0''
      else let (m, k) = decimal \<bar>q\<bar>; ds = dec_digits m; dp = int (length ds) + k
           in if Fin \<bar>q\<bar> < rnd (1 / 10 ^ 6) \<or> Fin (10 ^ 21) \<le> Fin \<bar>q\<bar>
              then num_text (q < 0) (take 1 ds) (drop 1 ds) (Some (dp - 1))
              else num_text (q < 0) (if 0 < dp then take (nat dp) ds @ replicate (nat k) CHR ''0'' else ''0'')
                     (if k < 0 then replicate (nat (- dp)) CHR ''0'' @ drop (nat dp) ds else []) None)"
| "enc_float _ = []"

definition num_ok :: "string \<Rightarrow> string \<Rightarrow> bool" where
  "num_ok ip fp \<longleftrightarrow> list_all is_digit ip \<and> list_all is_digit fp \<and> (ip = ''0'' \<or> ip \<noteq> [] \<and> hd ip \<noteq> CHR ''0'')"

lemma num_ok_Cons: "num_ok ip fp \<Longrightarrow> \<exists>c t. ip = c # t \<and> is_digit c \<and> c \<noteq> CHR ''-''"
proof (cases ip)
  case (Cons c t)
  assume "num_ok ip fp"
  then have "is_digit c" unfolding num_ok_def Cons by simp
  then show ?thesis using Cons not_digit_colon(2) by metis
qed (simp add: num_ok_def)

text \<open>What may follow a literal.\<close>

definition ends_num :: "string \<Rightarrow> bool" where
  "ends_num r \<longleftrightarrow> r = [] \<or> \<not> is_digit (hd r) \<and> hd r \<noteq> CHR ''.'' \<and> hd r \<noteq> CHR ''e'' \<and> hd r \<noteq> CHR ''E''"

lemma span_digits_append: "list_all is_digit ds \<Longrightarrow> r = [] \<or> \<not> is_digit (hd r) \<Longrightarrow> span_digits (ds @ r) = (ds, r)"
  by (cases r) (simp_all add: span_digits_def list_all_iff takeWhile_append dropWhile_append)

lemma not_digit_point [simp]: "\<not> is_digit CHR ''.''" "\<not> is_digit CHR ''e''" "\<not> is_digit CHR ''+''" "is_digit CHR ''0''"
  by (simp_all add: is_digit_def)

lemma dec_digits_span: "r = [] \<or> \<not> is_digit (hd r) \<Longrightarrow> span_digits (dec_digits n @ r) = (dec_digits n, r)"
  by (simp add: span_digits_append list_all_dec_digits)

lemma span_digits_all: "list_all is_digit ds \<Longrightarrow> span_digits ds = (ds, [])" "span_digits (dec_digits n) = (dec_digits n, [])"
  using span_digits_append [of ds "[]"] dec_digits_span [of "[]" n] by simp_all

lemma lex_exp_text:
  assumes "ends_num r"
  shows "lex_exp ((case ex of None \<Rightarrow> [] | Some e \<Rightarrow> CHR ''e'' # (if e < 0 then CHR ''-'' else CHR ''+'') # dec_digits (nat \<bar>e\<bar>)) @ r)
     = Some (case ex of None \<Rightarrow> [] | Some e \<Rightarrow> CHR ''e'' # (if e < 0 then CHR ''-'' else CHR ''+'') # dec_digits (nat \<bar>e\<bar>), r)"
  using assms by (cases ex; cases r) (auto simp: lex_exp_def ends_num_def Let_def dec_digits_span span_digits_all)

lemma lex_number_text:
  assumes "num_ok ip fp" "ends_num r"
  shows "lex_number (num_text neg ip fp ex @ r) = Some (num_text neg ip fp ex, r)"
proof -
  define et where "et = (case ex of None \<Rightarrow> [] | Some e \<Rightarrow> CHR ''e'' # (if e < 0 then CHR ''-'' else CHR ''+'') # dec_digits (nat \<bar>e\<bar>))"
  have e: "lex_exp (et @ r) = Some (et, r)" unfolding et_def by (rule lex_exp_text [OF assms(2)])
  have er: "et @ r = [] \<or> \<not> is_digit (hd (et @ r)) \<and> hd (et @ r) \<noteq> CHR ''.''"
    using assms(2) by (auto simp: et_def ends_num_def split: option.splits)
  define ft where "ft = (if fp = [] then [] else CHR ''.'' # fp)"
  have f: "lex_frac (ft @ et @ r) = Some (ft, et @ r)"
    using er assms(1) by (cases "et @ r") (auto simp: lex_frac_def ft_def span_digits_append span_digits_all num_ok_def)
  have fr: "ft @ et @ r = [] \<or> \<not> is_digit (hd (ft @ et @ r))" using er by (auto simp: ft_def)
  have i: "lex_int (ip @ ft @ et @ r) = Some (ip, ft @ et @ r)"
    using assms(1) fr span_digits_append [OF _ fr, of ip] by (cases ip) (auto simp: lex_int_def num_ok_def)
  obtain c ip' where ip: "ip = c # ip'" "c \<noteq> CHR ''-''" using num_ok_Cons [OF assms(1)] by blast
  have t: "num_text neg ip fp ex = (if neg then ''-'' else []) @ ip @ ft @ et" by (simp add: num_text_def ft_def et_def)
  show ?thesis unfolding t using e f i ip by (auto simp: lex_number_def)
qed

lemma lit_rat_text:
  assumes "num_ok ip fp"
  shows "lit_rat (num_text neg ip fp ex)
    = (if neg then -1 else 1) * of_nat (dec_val (ip @ fp)) * 10 powi ((case ex of None \<Rightarrow> 0 | Some e \<Rightarrow> e) - int (length fp))"
proof -
  define et where "et = (case ex of None \<Rightarrow> [] | Some e \<Rightarrow> CHR ''e'' # (if e < 0 then CHR ''-'' else CHR ''+'') # dec_digits (nat \<bar>e\<bar>))"
  define ft where "ft = (if fp = [] then [] else CHR ''.'' # fp)"
  have er: "et = [] \<or> \<not> is_digit (hd et) \<and> hd et \<noteq> CHR ''.''" by (auto simp: et_def split: option.splits)
  have fr: "ft @ et = [] \<or> \<not> is_digit (hd (ft @ et))" using er by (auto simp: ft_def)
  have i: "takeWhile is_digit (ip @ ft @ et) = ip" "dropWhile is_digit (ip @ ft @ et) = ft @ et"
    using span_digits_append [OF _ fr, of ip] assms by (auto simp: num_ok_def span_digits_def)
  have f: "(if ft @ et \<noteq> [] \<and> hd (ft @ et) = CHR ''.'' then span_digits (tl (ft @ et)) else ([], ft @ et)) = (fp, et)"
    using er assms by (cases et) (auto simp: ft_def span_digits_append span_digits_all num_ok_def)
  have d: "dec_digits n \<noteq> [] \<and> hd (dec_digits n) \<noteq> CHR ''-'' \<and> hd (dec_digits n) \<noteq> CHR ''+''" for n
    using list_all_dec_digits [of n] by (cases "dec_digits n") auto
  have e: "(if et \<noteq> [] then lit_exp (tl et) else 0) = (case ex of None \<Rightarrow> 0 | Some e \<Rightarrow> e)"
    by (auto simp: et_def lit_exp_def split: option.splits)
  obtain c ip' where ip: "ip = c # ip'" "c \<noteq> CHR ''-''" using num_ok_Cons [OF assms] by blast
  have t: "num_text neg ip fp ex = (if neg then ''-'' else []) @ ip @ ft @ et" by (simp add: num_text_def ft_def et_def)
  have sg: "(num_text neg ip fp ex \<noteq> [] \<and> hd (num_text neg ip fp ex) = CHR ''-'') = neg"
    and s1: "(if neg then tl (num_text neg ip fp ex) else num_text neg ip fp ex) = ip @ ft @ et"
    unfolding t using ip by auto
  show ?thesis unfolding lit_rat_def Let_def sg s1 i f prod.case e by simp
qed

lemma dec_digits_hd: "0 < n \<Longrightarrow> hd (dec_digits n) \<noteq> CHR ''0''"
proof (induction n rule: dec_digits.induct)
  case (1 n)
  show ?case
  proof (cases "n < 10")
    case True
    have "digit_val (digit_char n) \<noteq> digit_val CHR ''0''" using True "1.prems" by (simp add: digit_val_def of_char_digit_char)
    then have "digit_char n \<noteq> CHR ''0''" by metis
    then show ?thesis using True by (simp add: dec_digits.simps [of n])
  next
    case False
    then show ?thesis using "1.IH" by (simp add: dec_digits.simps [of n])
  qed
qed

lemma dec_val_append: "dec_val (s @ t) = dec_val s * 10 ^ length t + dec_val t"
proof (induction t rule: rev_induct)
  case (snoc c t)
  have "dec_val (s @ t @ [c]) = 10 * dec_val (s @ t) + digit_val c" by (simp add: dec_val_snoc flip: append_assoc)
  then show ?case by (simp add: snoc dec_val_snoc)
qed (simp add: dec_val_def)

lemma dec_val_zeros [simp]: "dec_val (replicate n CHR ''0'') = 0"
  by (induction n) (simp_all add: dec_val_def digit_val_def)

lemma list_all_replicate_digit [simp]: "list_all is_digit (replicate n CHR ''0'')"
  by (simp add: list_all_iff)

lemma num_ok_digits: "0 < n \<Longrightarrow> list_all is_digit fp \<Longrightarrow> num_ok (dec_digits n) fp"
  by (simp add: num_ok_def list_all_dec_digits dec_digits_hd)

lemma list_all_take_drop: "list_all P xs \<Longrightarrow> list_all P (take n xs) \<and> list_all P (drop n xs)"
  by (auto simp: list_all_iff dest: in_set_takeD in_set_dropD)

lemma num_ok_split:
  assumes "0 < m" "0 < j" "list_all is_digit z" "list_all is_digit fp"
  shows "num_ok (take j (dec_digits m) @ z) fp"
proof -
  obtain c t where d: "dec_digits m = c # t" by (cases "dec_digits m") auto
  have "c \<noteq> CHR ''0''" using dec_digits_hd [OF assms(1)] by (simp add: d)
  moreover obtain i where "j = Suc i" using assms(2) by (cases j) auto
  moreover have "list_all is_digit (take j (dec_digits m))" using list_all_dec_digits list_all_take_drop by blast
  ultimately show ?thesis using assms(3,4) by (auto simp: num_ok_def d)
qed

text \<open>Every printed float is a literal, with the value of its decimal.\<close>

lemma enc_float_text:
  assumes "q \<noteq> 0" "decimal \<bar>q\<bar> = (m, k)" "0 < m"
  shows "\<exists>ip fp ex. enc_float (Fin q) = num_text (q < 0) ip fp ex \<and> num_ok ip fp
    \<and> of_nat (dec_val (ip @ fp)) * 10 powi ((case ex of None \<Rightarrow> 0 | Some e \<Rightarrow> e) - int (length fp)) = (of_nat m * 10 powi k :: rat)"
proof -
  define ds dp where "ds = dec_digits m" and "dp = int (length ds) + k"
  have ds: "list_all is_digit ds" "0 < length ds" "dec_val ds = m" by (simp_all add: ds_def list_all_dec_digits)
  note td = list_all_take_drop [OF ds(1)]
  have z: "num_ok ''0'' fp" if "list_all is_digit fp" for fp using that by (simp add: num_ok_def)
  show ?thesis
  proof (cases "Fin \<bar>q\<bar> < rnd (1 / 10 ^ 6) \<or> Fin (10 ^ 21) \<le> Fin \<bar>q\<bar>")
    case True
    have "num_ok (take 1 ds) (drop 1 ds)" using num_ok_split [OF assms(3), of 1 "[]" "drop 1 ds"] td by (simp add: ds_def)
    moreover have "enc_float (Fin q) = num_text (q < 0) (take 1 ds) (drop 1 ds) (Some (dp - 1))"
      using assms(1,2) True by (simp add: ds_def dp_def Let_def del: le_Fin)
    moreover have "dp - 1 - int (length (drop 1 ds)) = k" using ds(2) by (cases ds) (simp_all add: dp_def)
    ultimately show ?thesis using ds(3) by (intro exI [of _ "take 1 ds"] exI [of _ "drop 1 ds"] exI [of _ "Some (dp - 1)"]) simp
  next
    case False
    define ip fp where "ip = (if 0 < dp then take (nat dp) ds @ replicate (nat k) CHR ''0'' else ''0'')"
      and "fp = (if k < 0 then replicate (nat (- dp)) CHR ''0'' @ drop (nat dp) ds else [])"
    have fp: "list_all is_digit fp" using td by (simp add: fp_def)
    have "num_ok ip fp"
      using z [OF fp] num_ok_split [OF assms(3) _ _ fp, of "nat dp" "replicate (nat k) CHR ''0''"] by (simp add: ip_def ds_def)
    moreover have "enc_float (Fin q) = num_text (q < 0) ip fp None"
      using assms(1,2) False by (simp add: ds_def dp_def ip_def fp_def Let_def del: le_Fin)
    moreover have "of_nat (dec_val (ip @ fp)) * 10 powi (0 - int (length fp)) = (of_nat m * 10 powi k :: rat)"
    proof -
      consider "0 \<le> k" "0 < dp" | "k < 0" "0 < dp" | "k < 0" "dp \<le> 0" using ds(2) unfolding dp_def by linarith
      then show ?thesis
      proof cases
        case 1
        then have "ip @ fp = ds @ replicate (nat k) CHR ''0''" "length fp = 0" by (simp_all add: ip_def fp_def dp_def)
        moreover have "10 powi k = (10::rat) ^ nat k" using 1(1) by (simp add: power_int_def)
        ultimately show ?thesis by (simp add: dec_val_append ds(3))
      next
        case 2
        then have "ip @ fp = ds" "0 - int (length fp) = k" by (simp_all add: ip_def fp_def dp_def)
        then show ?thesis using ds(3) by metis
      next
        case 3
        have "dec_val (''0'' @ replicate (nat (- dp)) CHR ''0'' @ ds) = m"
          unfolding dec_val_append dec_val_zeros ds(3) using dec_val_zeros [of 1] by simp
        moreover have "ip @ fp = ''0'' @ replicate (nat (- dp)) CHR ''0'' @ ds" "0 - int (length fp) = k"
          using 3 by (simp_all add: ip_def fp_def dp_def)
        ultimately show ?thesis by metis
      qed
    qed
    ultimately show ?thesis by (intro exI [of _ ip] exI [of _ fp] exI [of _ "None :: int option"]) simp
  qed
qed

lemma rnd_neg_Fin: "rnd q = Fin v \<Longrightarrow> rnd (- q) = Fin (- v)"
  unfolding rnd_eq_Fin by (auto simp: rnd_val_neg)

lemma ParseFloat_enc:
  assumes "is_f64 x" "finite_f64 x"
  shows "ParseFloat (enc_float x) = Some x \<and> (\<exists>neg ip fp ex. num_ok ip fp \<and> enc_float x = num_text neg ip fp ex)"
proof (cases x)
  case (Fin q)
  show ?thesis
  proof (cases "q = 0")
    case True
    have "num_text False ''0'' [] None = ''0''" "num_ok ''0'' []" by (simp_all add: num_text_def num_ok_def)
    moreover from this have "lit_rat ''0'' = 0" using lit_rat_text [of "''0''" "[]" False None] by (simp add: dec_val_def digit_val_def)
    ultimately show ?thesis unfolding Fin True by (auto simp: ParseFloat_def rnd_def) metis
  next
    case False
    obtain m k where mk: "decimal \<bar>q\<bar> = (m, k)" by fastforce
    have q: "rnd q = Fin q" using assms(1) by (simp add: Fin is_f64_Fin)
    then have q': "rnd \<bar>q\<bar> = Fin \<bar>q\<bar>" using rnd_neg_Fin [OF q] by (simp add: abs_if)
    have d: "0 < m" "rnd (of_nat m * 10 powi k) = Fin \<bar>q\<bar>" using decimal_value [OF _ q' mk] False by simp_all
    obtain ip fp ex where t: "enc_float (Fin q) = num_text (q < 0) ip fp ex" "num_ok ip fp"
      "of_nat (dec_val (ip @ fp)) * 10 powi ((case ex of None \<Rightarrow> 0 | Some e \<Rightarrow> e) - int (length fp)) = (of_nat m * 10 powi k :: rat)"
      using enc_float_text [OF False mk d(1)] by blast
    have "lit_rat (enc_float (Fin q)) = (if q < 0 then -1 else 1) * (of_nat m * 10 powi k)"
      unfolding t(1) lit_rat_text [OF t(2)] t(3) [symmetric] by simp
    then have "rnd (lit_rat (enc_float (Fin q))) = Fin q" using d(2) rnd_neg_Fin [OF d(2)] by (auto simp: abs_if)
    then show ?thesis using t(1,2) unfolding Fin ParseFloat_def by auto
  qed
qed (use assms(2) in simp_all)

lemma Itoa_text: "strconv_Itoa i = num_text (i < 0) (dec_digits (nat \<bar>i\<bar>)) [] None \<and> num_ok (dec_digits (nat \<bar>i\<bar>)) []"
  by (cases "i = 0") (auto simp: strconv_Itoa_def num_text_def num_ok_digits, simp_all add: num_ok_def dec_digits.simps digit_char_def is_digit_def)

lemma ParseInt_Itoa: "go_int64_min \<le> i \<Longrightarrow> i \<le> go_int64_max \<Longrightarrow> ParseInt (strconv_Itoa i) = Some i"
proof -
  assume i: "go_int64_min \<le> i" "i \<le> go_int64_max"
  obtain c t where d: "dec_digits (nat i) = c # t" by (cases "dec_digits (nat i)") auto
  have "c \<noteq> CHR ''-''" using list_all_dec_digits [of "nat i"] by (auto simp: d)
  then show ?thesis
    using i list_all_dec_digits [of "nat i"] dec_val_digits [of "nat i"]
    by (cases "i < 0") (auto simp: ParseInt_def strconv_Itoa_def Let_def list_all_dec_digits d simp del: dec_val_digits, simp_all)
qed

subsection \<open>Values\<close>

fun commas :: "string list \<Rightarrow> string" where
  "commas [] = []"
| "commas (x # xs) = x @ (if xs = [] then [] else CHR '','' # commas xs)"

definition quoted :: "string \<Rightarrow> string" where
  "quoted s = CHR 0x22 # appendString s @ [CHR 0x22]"

definition enc_member :: "string \<times> string \<Rightarrow> string" where
  "enc_member kv = quoted (fst kv) @ CHR '':'' # snd kv"

primrec enc_json :: "json \<Rightarrow> string" where
  "enc_json JNull = ''null''"
| "enc_json (JBool b) = (if b then ''true'' else ''false'')"
| "enc_json (JNum t) = t"
| "enc_json (JStr s) = quoted s"
| "enc_json (JArr vs) = CHR ''['' # commas (map enc_json vs) @ '']''"
| "enc_json (JObj ms) = CHR ''{'' # commas (map enc_member (map (map_prod id enc_json) ms)) @ ''}''"

text \<open>What is read back: the value with invalid UTF-8 replaced.\<close>

primrec tidy :: "json \<Rightarrow> json" where
  "tidy JNull = JNull"
| "tidy (JBool b) = JBool b"
| "tidy (JNum t) = JNum t"
| "tidy (JStr s) = JStr (to_valid s)"
| "tidy (JArr vs) = JArr (map tidy vs)"
| "tidy (JObj ms) = JObj (map (map_prod to_valid tidy) ms)"

definition is_literal :: "string \<Rightarrow> bool" where
  "is_literal t \<longleftrightarrow> (\<exists>neg ip fp ex. num_ok ip fp \<and> t = num_text neg ip fp ex)"

text \<open>Values nested at most \<open>d\<close> deep whose numbers are literals.\<close>

fun json_ok :: "nat \<Rightarrow> json \<Rightarrow> bool" where
  "json_ok d (JNum t) = is_literal t"
| "json_ok 0 (JArr vs) = False"
| "json_ok 0 (JObj ms) = False"
| "json_ok (Suc d) (JArr vs) = list_all (json_ok d) vs"
| "json_ok (Suc d) (JObj ms) = list_all (\<lambda>kv. json_ok d (snd kv)) ms"
| "json_ok d _ = True"

subsection \<open>Reading values back\<close>

lemma lex_Nil [simp]: "lex [] = Some []"
  by (simp add: lex.simps)

lemma lex_punctuation [simp]:
  "lex (CHR ''{'' # r) = map_option (Cons TLBrace) (lex r)" "lex (CHR ''}'' # r) = map_option (Cons TRBrace) (lex r)"
  "lex (CHR ''['' # r) = map_option (Cons TLBrack) (lex r)" "lex (CHR '']'' # r) = map_option (Cons TRBrack) (lex r)"
  "lex (CHR '':'' # r) = map_option (Cons TColon) (lex r)" "lex (CHR '','' # r) = map_option (Cons TComma) (lex r)"
  by (simp_all add: lex.simps [of "_ # r"] is_space_def)

lemma lex_quoted: "lex (quoted s @ r) = map_option (Cons (TStr (to_valid s))) (lex r)"
  using lex_string_append [of "[]" s r] by (simp add: quoted_def lex.simps [of "_ # _"] is_space_def)

lemma lex_words:
  "lex (''null'' @ r) = map_option (Cons TNull) (lex r)" "lex (''true'' @ r) = map_option (Cons TTrue) (lex r)"
  "lex (''false'' @ r) = map_option (Cons TFalse) (lex r)"
  by (simp_all add: lex.simps [of "_ # _"] is_space_def)

lemma lex_literal:
  assumes "is_literal t" "ends_num r"
  shows "lex (t @ r) = map_option (Cons (TNum t)) (lex r)"
proof -
  obtain neg ip fp ex where t: "num_ok ip fp" "t = num_text neg ip fp ex" using assms(1) by (auto simp: is_literal_def)
  obtain c t' where ip: "ip = c # t'" "is_digit c" using num_ok_Cons [OF t(1)] by blast
  obtain d u where d: "t = d # u" "d = CHR ''-'' \<or> is_digit d" using ip by (cases neg) (simp_all add: t(2) num_text_def)
  then have b: "byte d = 45 \<or> 48 \<le> byte d \<and> byte d \<le> 57" by (auto simp: is_digit_def)
  then have "\<not> is_space d" "d \<notin> set ''{}[]:,tfn''" "d \<noteq> CHR 0x22" by (auto simp: is_space_def)
  moreover have "lex_number (d # u @ r) = Some (t, r)" using lex_number_text [OF t(1) assms(2)] t(2) d(1) by (metis append_Cons)
  ultimately have "lex (d # u @ r) = map_option (Cons (TNum t)) (lex r)" by (simp add: lex.simps [of "d # u @ r"])
  then show ?thesis using d(1) by (metis append_Cons)
qed

text \<open>Tokens in front of those of the rest.\<close>

definition tokens :: "tok list \<Rightarrow> tok list option \<Rightarrow> tok list option" where
  "tokens ts = map_option ((@) ts)"

lemma tokens_tokens: "tokens ts (tokens us x) = tokens (ts @ us) x" "map_option (Cons a) x = tokens [a] x"
  by (cases x; simp add: tokens_def)+

text \<open>A text that reads as the value \<open>j\<close> wherever a value may stand, at most \<open>d\<close> levels deep.\<close>

definition reads :: "nat \<Rightarrow> string \<Rightarrow> json \<Rightarrow> bool" where
  "reads d t j \<longleftrightarrow> (\<exists>ts. (\<forall>r. ends_num r \<longrightarrow> lex (t @ r) = tokens ts (lex r)) \<and> ts \<noteq> [] \<and> hd ts \<noteq> TRBrack
     \<and> (\<forall>st us. length st + d \<le> max_nesting \<longrightarrow> prun (ts @ us) (PValue st) = prun us (complete j st)))"

lemma ends_num_punctuation [simp]: "ends_num (CHR '','' # r)" "ends_num (CHR ''}'' # r)" "ends_num (CHR '']'' # r)" "ends_num []"
  by (simp_all add: ends_num_def is_digit_def)

lemma reads_scalar:
  assumes "\<And>r. ends_num r \<Longrightarrow> lex (t @ r) = map_option (Cons tk) (lex r)" "\<And>st. begin_value tk st = Some (complete j st)" "tk \<noteq> TRBrack"
  shows "reads d t j"
proof -
  show ?thesis unfolding reads_def using assms by (intro exI [of _ "[tk]"]) (simp add: tokens_tokens)
qed

text \<open>The elements of an array and the members of an object.\<close>

lemma prun_append: "prun (ts @ us) p = (case prun ts p of None \<Rightarrow> None | Some p' \<Rightarrow> prun us p')"
  by (induction ts p rule: prun.induct) (auto split: option.split)

lemma elements_read:
  assumes "vs \<noteq> []" "list_all2 (reads d) xs vs"
  shows "\<exists>ts. (\<forall>r. lex (commas xs @ CHR '']'' # r) = tokens ts (lex (CHR '']'' # r))) \<and> ts \<noteq> [] \<and> hd ts \<noteq> TRBrack
    \<and> (\<forall>acc st us. length st + Suc d \<le> max_nesting \<longrightarrow>
        prun (ts @ us) (PValue (FArr acc # st)) = prun us (PAfter (FArr (acc @ vs) # st)))"
  using assms
proof (induction vs arbitrary: xs)
  case (Cons v vs)
  then obtain x xs' where xs: "xs = x # xs'" "reads d x v" "list_all2 (reads d) xs' vs" by (auto simp: list_all2_Cons2)
  then obtain ts where ts: "\<And>r. ends_num r \<Longrightarrow> lex (x @ r) = tokens ts (lex r)" "ts \<noteq> []" "hd ts \<noteq> TRBrack"
    "\<And>st us. length st + d \<le> max_nesting \<Longrightarrow> prun (ts @ us) (PValue st) = prun us (complete v st)"
    unfolding reads_def by blast
  show ?case
  proof (cases "vs = []")
    case True
    then show ?thesis using ts xs by (intro exI [of _ ts]) simp
  next
    case False
    then have "xs' \<noteq> []" using xs(3) by auto
    obtain ts' where ts': "\<And>r. lex (commas xs' @ CHR '']'' # r) = tokens ts' (lex (CHR '']'' # r))"
      "\<And>acc st us. length st + Suc d \<le> max_nesting \<Longrightarrow>
        prun (ts' @ us) (PValue (FArr acc # st)) = prun us (PAfter (FArr (acc @ vs) # st))"
      using Cons.IH [OF False xs(3)] by blast
    have "lex (commas xs @ CHR '']'' # r) = tokens (ts @ TComma # ts') (lex (CHR '']'' # r))" for r
      using \<open>xs' \<noteq> []\<close> ts(1) [of "CHR '','' # commas xs' @ CHR '']'' # r"]
      by (simp add: xs(1) ts'(1) tokens_tokens del: lex_punctuation(4))
    then show ?thesis using ts(2-4) ts'(2) by (intro exI [of _ "ts @ TComma # ts'"]) simp
  qed
qed simp

lemma members_read:
  assumes "ms \<noteq> []" "list_all2 (\<lambda>x v. fst v = to_valid (fst x) \<and> reads d (snd x) (snd v)) xs ms"
  shows "\<exists>k0 ts. (\<forall>r. lex (commas (map enc_member xs) @ CHR ''}'' # r) = tokens (TStr k0 # ts) (lex (CHR ''}'' # r)))
    \<and> (\<forall>acc st us. length st + Suc d \<le> max_nesting \<longrightarrow>
        (\<exists>k'. prun (ts @ us) (PColon (FObj acc k0 # st)) = prun us (PAfter (FObj (acc @ ms) k' # st))))"
  using assms
proof (induction ms arbitrary: xs)
  case (Cons m ms)
  obtain k v where m: "m = (k, v)" by fastforce
  obtain key x xs' where xs: "xs = (key, x) # xs'" "k = to_valid key" "reads d x v"
    "list_all2 (\<lambda>x v. fst v = to_valid (fst x) \<and> reads d (snd x) (snd v)) xs' ms"
    using Cons.prems(2) by (auto simp: list_all2_Cons2 m)
  then obtain ts where ts: "\<And>r. ends_num r \<Longrightarrow> lex (x @ r) = tokens ts (lex r)" "ts \<noteq> []"
    "\<And>st us. length st + d \<le> max_nesting \<Longrightarrow> prun (ts @ us) (PValue st) = prun us (complete v st)"
    unfolding reads_def by blast
  show ?case
  proof (cases "ms = []")
    case True
    then show ?thesis using ts xs
      by (intro exI [of _ k] exI [of _ "TColon # ts"]) (auto simp: enc_member_def lex_quoted tokens_tokens m)
  next
    case False
    then have ne: "xs' \<noteq> []" using xs(4) by auto
    obtain k0 ts' where ts': "\<And>r. lex (commas (map enc_member xs') @ CHR ''}'' # r) = tokens (TStr k0 # ts') (lex (CHR ''}'' # r))"
      "\<And>acc st us. length st + Suc d \<le> max_nesting \<Longrightarrow>
        \<exists>k'. prun (ts' @ us) (PColon (FObj acc k0 # st)) = prun us (PAfter (FObj (acc @ ms) k' # st))"
      using Cons.IH [OF False xs(4)] by blast
    have "lex (commas (map enc_member xs) @ CHR ''}'' # r) = tokens (TStr k # TColon # ts @ TComma # TStr k0 # ts') (lex (CHR ''}'' # r))" for r
      using ne ts(1) [of "CHR '','' # commas (map enc_member xs') @ CHR ''}'' # r"]
      by (simp add: xs(1,2) enc_member_def lex_quoted ts'(1) tokens_tokens del: lex_punctuation(2))
    moreover have "\<exists>k'. prun ((TColon # ts @ TComma # TStr k0 # ts') @ us) (PColon (FObj acc k # st)) = prun us (PAfter (FObj (acc @ m # ms) k' # st))"
      if "length st + Suc d \<le> max_nesting" for acc st us
      using ts(3) [of "FObj acc k # st" "TComma # TStr k0 # ts' @ us"] ts'(2) [OF that, of us "acc @ [m]"] that by (simp add: m)
    ultimately show ?thesis by (intro exI [of _ k] exI [of _ "TColon # ts @ TComma # TStr k0 # ts'"]) blast
  qed
qed simp

lemma reads_array:
  assumes "list_all2 (reads d) xs vs"
  shows "reads (Suc d) (CHR ''['' # commas xs @ '']'') (JArr vs)"
proof (cases "vs = []")
  case True
  then show ?thesis using assms by (auto simp: reads_def tokens_tokens intro!: exI [of _ "[TLBrack, TRBrack]"])
next
  case False
  from elements_read [OF False assms] obtain ts where ts: "\<And>r. lex (commas xs @ CHR '']'' # r) = tokens ts (lex (CHR '']'' # r))"
    "ts \<noteq> []" "hd ts \<noteq> TRBrack" "\<And>acc st us. length st + Suc d \<le> max_nesting \<Longrightarrow>
      prun (ts @ us) (PValue (FArr acc # st)) = prun us (PAfter (FArr (acc @ vs) # st))" by blast
  obtain t ts' where t: "ts = t # ts'" using ts(2) by (cases ts) auto
  have "pstep t (PElemOrEnd st) = pstep t (PValue st)" for st using ts(3) by (cases t) (simp_all add: t)
  then have "prun (ts @ us) (PElemOrEnd st) = prun (ts @ us) (PValue st)" for us st by (simp add: t)
  then have "prun ((TLBrack # ts @ [TRBrack]) @ us) (PValue st) = prun us (complete (JArr vs) st)" if "length st + Suc d \<le> max_nesting" for st us
    using ts(4) [OF that, of "TRBrack # us" "[]"] that by simp
  moreover have "lex ((CHR ''['' # commas xs @ '']'') @ r) = tokens (TLBrack # ts @ [TRBrack]) (lex r)" for r
    using ts(1) by (simp add: tokens_tokens)
  ultimately show ?thesis unfolding reads_def by (intro exI [of _ "TLBrack # ts @ [TRBrack]"]) simp
qed

lemma reads_object:
  assumes "list_all2 (\<lambda>x v. fst v = to_valid (fst x) \<and> reads d (snd x) (snd v)) xs ms"
  shows "reads (Suc d) (CHR ''{'' # commas (map enc_member xs) @ ''}'') (JObj ms)"
proof (cases "ms = []")
  case True
  then show ?thesis using assms by (auto simp: reads_def tokens_tokens intro!: exI [of _ "[TLBrace, TRBrace]"])
next
  case False
  from members_read [OF False assms] obtain k ts where
    ts: "\<And>r. lex (commas (map enc_member xs) @ CHR ''}'' # r) = tokens (TStr k # ts) (lex (CHR ''}'' # r))"
    "\<And>acc st us. length st + Suc d \<le> max_nesting \<Longrightarrow>
      \<exists>k'. prun (ts @ us) (PColon (FObj acc k # st)) = prun us (PAfter (FObj (acc @ ms) k' # st))" by blast
  have "prun ((TLBrace # TStr k # ts @ [TRBrace]) @ us) (PValue st) = prun us (complete (JObj ms) st)" if len: "length st + Suc d \<le> max_nesting" for st us
  proof -
    obtain k' where "prun (ts @ TRBrace # us) (PColon (FObj [] k # st)) = prun (TRBrace # us) (PAfter (FObj ([] @ ms) k' # st))"
      using ts(2) [OF len] by blast
    then show ?thesis using len by simp
  qed
  moreover have "lex ((CHR ''{'' # commas (map enc_member xs) @ ''}'') @ r) = tokens (TLBrace # TStr k # ts @ [TRBrace]) (lex r)" for r
    using ts(1) by (simp add: tokens_tokens)
  ultimately show ?thesis unfolding reads_def by (intro exI [of _ "TLBrace # TStr k # ts @ [TRBrace]"]) simp
qed

lemma reads_words:
  "reads d (enc_json JNull) JNull" "reads d (enc_json (JBool b)) (JBool b)"
  "reads d (enc_json (JStr s)) (JStr (to_valid s))"
proof -
  show "reads d (enc_json JNull) JNull"
    using lex_words by (intro reads_scalar [where tk = TNull]) simp_all
  show "reads d (enc_json (JBool b)) (JBool b)"
    using lex_words by (cases b) (auto intro: reads_scalar [where tk = TTrue] reads_scalar [where tk = TFalse])
  show "reads d (enc_json (JStr s)) (JStr (to_valid s))"
    using lex_quoted by (intro reads_scalar [where tk = "TStr (to_valid s)"]) simp_all
qed

lemma enc_json_reads: "json_ok d j \<Longrightarrow> reads d (enc_json j) (tidy j)"
proof (induction d j rule: json_ok.induct)
  case (4 d vs)
  then have "list_all2 (reads d) (map enc_json vs) (map tidy vs)"
    by (auto simp: list_all2_conv_all_nth list_all_length)
  from reads_array [OF this] show ?case by simp
next
  case (5 d ms)
  then have "list_all2 (\<lambda>x v. fst v = to_valid (fst x) \<and> reads d (snd x) (snd v)) (map (map_prod id enc_json) ms) (map (map_prod to_valid tidy) ms)"
    by (auto simp: list_all2_conv_all_nth list_all_length)
  from reads_object [OF this] show ?case by (simp add: comp_def)
next
  case (1 d t)
  then show ?case using lex_literal by (intro reads_scalar [where tk = "TNum t"]) simp_all
qed (simp_all add: reads_words [simplified])

theorem json_parse_enc: "json_ok max_nesting j \<Longrightarrow> json_parse (enc_json j) = Some (tidy j)"
proof -
  assume "json_ok max_nesting j"
  from enc_json_reads [OF this] obtain ts where "\<And>r. ends_num r \<Longrightarrow> lex (enc_json j @ r) = tokens ts (lex r)"
    "\<And>st us. length st + max_nesting \<le> max_nesting \<Longrightarrow> prun (ts @ us) (PValue st) = prun us (complete (tidy j) st)"
    unfolding reads_def by blast
  from this(1) [of "[]"] this(2) [of "[]" "[]"] show ?thesis by (simp add: json_parse_def tokens_def)
qed

subsection \<open>The wire structs\<close>

definition omitempty :: "bool \<Rightarrow> string \<Rightarrow> json \<Rightarrow> (string \<times> json) list" where
  "omitempty absent k v = (if absent then [] else [(k, v)])"

definition enc_Location :: "Location \<Rightarrow> json" where
  "enc_Location l = JObj [(''lat'', JNum (enc_float (Lat l))), (''lon'', JNum (enc_float (Lon l))),
     (''city'', JStr (City l)), (''country'', JStr (Country l))]"

definition enc_Meter :: "Meter \<Rightarrow> json" where
  "enc_Meter m = JObj [(''power_kw'', JNum (enc_float (PowerKW m))), (''energy_kwh'', JNum (enc_float (EnergyKWh m))),
     (''voltage_v'', JNum (enc_float (VoltageV m))), (''current_a'', JNum (enc_float (CurrentA m))),
     (''soc_percent'', JNum (strconv_Itoa (SocPercent m)))]"

definition enc_Vehicle :: "Vehicle \<Rightarrow> json" where
  "enc_Vehicle v = JObj [(''brand'', JStr (Brand v)), (''model'', JStr (VModel v)), (''ev_id'', JStr (EvID v))]"

definition enc_Fault :: "Fault \<Rightarrow> json" where
  "enc_Fault f = JObj [(''error_code'', JStr (ErrorCode f)), (''component'', JStr (Component f))]"

definition enc_ptr :: "('a \<Rightarrow> json) \<Rightarrow> 'a option \<Rightarrow> json" where
  "enc_ptr enc p = (case p of None \<Rightarrow> JNull | Some v \<Rightarrow> enc v)"

definition enc_Event :: "Event \<Rightarrow> json" where
  "enc_Event e = JObj
     ([(''event_id'', JStr (EventID e)), (''event_type'', JStr (EventType e)), (''station_id'', JStr (StationID e)),
       (''connector_id'', JNum (strconv_Itoa (ConnectorID e)))]
      @ omitempty (SessionID e = []) ''session_id'' (JStr (SessionID e))
      @ [(''timestamp'', JStr (Timestamp e)), (''operator_id'', JStr (OperatorID e)), (''location'', enc_Location (Location e))]
      @ omitempty (Meter e = None) ''meter'' (enc_ptr enc_Meter (Meter e))
      @ omitempty (Vehicle e = None) ''vehicle'' (enc_ptr enc_Vehicle (Vehicle e))
      @ omitempty (TariffID e = []) ''tariff_id'' (JStr (TariffID e))
      @ omitempty (CostEur e = 0) ''cost_eur'' (JNum (enc_float (CostEur e)))
      @ omitempty (Fault e = None) ''fault'' (enc_ptr enc_Fault (Fault e))
      @ omitempty (Status e = []) ''status'' (JStr (Status e))
      @ omitempty (\<not> IsPeakPriced e) ''is_peak_priced'' (JBool (IsPeakPriced e)))"

definition Marshal_Event :: "Event \<Rightarrow> bytes option" where
  "Marshal_Event e = (if event_finite e then Some (enc_json (enc_Event e)) else None)"

text \<open>
  Structs that survive the encoding: floats are binary64 values and integers have 64 bits, as the types
  promise, and strings are valid UTF-8, as they do not.
\<close>

definition int64 :: "int \<Rightarrow> bool" where
  "int64 i \<longleftrightarrow> go_int64_min \<le> i \<and> i \<le> go_int64_max"

definition location_wire :: "Location \<Rightarrow> bool" where
  "location_wire l \<longleftrightarrow> is_f64 (Lat l) \<and> is_f64 (Lon l) \<and> valid_utf8 (City l) \<and> valid_utf8 (Country l)"

definition meter_wire :: "Meter \<Rightarrow> bool" where
  "meter_wire m \<longleftrightarrow> is_f64 (PowerKW m) \<and> is_f64 (EnergyKWh m) \<and> is_f64 (VoltageV m) \<and> is_f64 (CurrentA m) \<and> int64 (SocPercent m)"

definition vehicle_wire :: "Vehicle \<Rightarrow> bool" where
  "vehicle_wire v \<longleftrightarrow> valid_utf8 (Brand v) \<and> valid_utf8 (VModel v) \<and> valid_utf8 (EvID v)"

definition fault_wire :: "Fault \<Rightarrow> bool" where
  "fault_wire f \<longleftrightarrow> valid_utf8 (ErrorCode f) \<and> valid_utf8 (Component f)"

definition wire_ok :: "Event \<Rightarrow> bool" where
  "wire_ok e \<longleftrightarrow> list_all valid_utf8 [EventID e, EventType e, StationID e, SessionID e, Timestamp e, OperatorID e, TariffID e, Status e]
     \<and> int64 (ConnectorID e) \<and> is_f64 (CostEur e) \<and> location_wire (Location e)
     \<and> pred_option meter_wire (Meter e) \<and> pred_option vehicle_wire (Vehicle e) \<and> pred_option fault_wire (Fault e)"

text \<open>The fields of the decoder under the names of the encoder.\<close>

lemma find_exact: "map_of fs k = Some d \<Longrightarrow> find_field fs k = Some d"
  by (simp add: find_field_def)

lemma dec_float_enc: "is_f64 x \<Longrightarrow> finite_f64 x \<Longrightarrow> dec_float (JNum (enc_float x)) y = (x, True)"
  using ParseFloat_enc by simp

lemma dec_int_enc: "int64 i \<Longrightarrow> dec_int (JNum (strconv_Itoa i)) y = (i, True)"
  by (simp add: int64_def ParseInt_Itoa)

lemma dec_string_enc: "valid_utf8 s \<Longrightarrow> dec_string (tidy (JStr s)) y = (s, True)"
  by (simp add: valid_utf8_def)

lemma dec_Location: "location_wire l \<Longrightarrow> location_finite l \<Longrightarrow> dec_struct Location_fields (tidy (enc_Location l)) r = (l, True)"
  by (cases l; cases r)
    (simp add: enc_Location_def to_valid_ascii Location_fields_def find_field_def fld_def location_wire_def location_floats_def dec_float_enc
      valid_utf8_def del: dec_float.simps)

lemma dec_Meter: "meter_wire m \<Longrightarrow> meter_finite m \<Longrightarrow> dec_struct Meter_fields (tidy (enc_Meter m)) r = (m, True)"
  by (cases m; cases r)
    (simp add: enc_Meter_def to_valid_ascii Meter_fields_def find_field_def fld_def meter_wire_def meter_floats_def dec_float_enc dec_int_enc
      del: dec_float.simps Json.dec_int.simps)

lemma dec_Vehicle: "vehicle_wire v \<Longrightarrow> dec_struct Vehicle_fields (tidy (enc_Vehicle v)) r = (v, True)"
  by (cases v; cases r) (simp add: enc_Vehicle_def to_valid_ascii Vehicle_fields_def find_field_def fld_def vehicle_wire_def valid_utf8_def)

lemma dec_Fault: "fault_wire f \<Longrightarrow> dec_struct Fault_fields (tidy (enc_Fault f)) r = (f, True)"
  by (cases f; cases r) (simp add: enc_Fault_def to_valid_ascii Fault_fields_def find_field_def fld_def fault_wire_def valid_utf8_def)

text \<open>A field that is omitted when empty reads back as empty.\<close>

lemma dec_omitempty:
  assumes "map_of fs (to_valid k) = Some (fld get upd d)" "b \<Longrightarrow> upd (\<lambda>_. x) r = r" "\<not> b \<Longrightarrow> d (tidy v) (get r) = (x, True)"
  shows "foldl (dec_member fs) (r, True) (map (map_prod to_valid tidy) (omitempty b k v)) = (upd (\<lambda>_. x) r, True)"
  using assms by (cases b) (simp_all add: omitempty_def find_exact fld_def)

lemma dec_omit_string:
  assumes "map_of fs (to_valid k) = Some (fld get upd dec_string)" "x = [] \<Longrightarrow> upd (\<lambda>_. x) r = r" "valid_utf8 x"
  shows "foldl (dec_member fs) (r, True) (map (map_prod to_valid tidy) (omitempty (x = []) k (JStr x))) = (upd (\<lambda>_. x) r, True)"
  by (rule dec_omitempty [where get = get and d = dec_string]) (use assms in \<open>simp_all add: valid_utf8_def\<close>)

lemma dec_omit_ptr:
  assumes "map_of fs (to_valid k) = Some (fld get upd (dec_ptr z d))" "p = None \<Longrightarrow> upd (\<lambda>_. p) r = r" "get r = None"
    "\<And>v. p = Some v \<Longrightarrow> tidy (enc v) \<noteq> JNull \<and> d (tidy (enc v)) z = (v, True)"
  shows "foldl (dec_member fs) (r, True) (map (map_prod to_valid tidy) (omitempty (p = None) k (enc_ptr enc p))) = (upd (\<lambda>_. p) r, True)"
proof (rule dec_omitempty [where get = get and d = "dec_ptr z d"])
  assume "p \<noteq> None"
  then obtain v where p: "p = Some v" by auto
  then show "dec_ptr z d (tidy (enc_ptr enc p)) (get r) = (p, True)"
    using assms(3) assms(4) [OF p] by (cases "tidy (enc v)") (simp_all add: enc_ptr_def)
qed (use assms in simp_all)

lemma tidy_enc_not_null: "tidy (enc_Meter m) \<noteq> JNull" "tidy (enc_Vehicle v) \<noteq> JNull" "tidy (enc_Fault f) \<noteq> JNull"
  by (simp_all add: enc_Meter_def enc_Vehicle_def enc_Fault_def)

lemma dec_Event_head:
  "foldl (dec_member Event_fields) (r, True) (map (map_prod to_valid tidy)
     [(''event_id'', JStr i), (''event_type'', JStr t), (''station_id'', JStr s), (''connector_id'', JNum (strconv_Itoa c))])
   = (r\<lparr>EventID := i, EventType := t, StationID := s, ConnectorID := c\<rparr>, True)"
  if "valid_utf8 i" "valid_utf8 t" "valid_utf8 s" "int64 c"
  using that by (simp add: to_valid_ascii Event_fields_def find_field_def fld_def valid_utf8_def dec_int_enc del: Json.dec_int.simps)

lemma dec_Event_place:
  "foldl (dec_member Event_fields) (r, True) (map (map_prod to_valid tidy)
     [(''timestamp'', JStr t), (''operator_id'', JStr p), (''location'', enc_Location l)])
   = (r\<lparr>Timestamp := t, OperatorID := p, Location := l\<rparr>, True)"
  if "valid_utf8 t" "valid_utf8 p" "location_wire l" "location_finite l"
  using that by (simp add: to_valid_ascii Event_fields_def find_field_def fld_def valid_utf8_def dec_Location)

lemma dec_Event:
  assumes "wire_ok e" "event_finite e"
  shows "dec_struct Event_fields (tidy (enc_Event e)) zero_Event = (e, True)"
proof -
  let ?D = "\<lambda>p ms. foldl (dec_member Event_fields) p (map (map_prod to_valid tidy) ms)"
  have w: "valid_utf8 (SessionID e)" "valid_utf8 (TariffID e)" "valid_utf8 (Status e)" using assms(1) by (simp_all add: wire_ok_def)
  have session: "?D (r, True) (omitempty (SessionID e = []) ''session_id'' (JStr (SessionID e))) = (r\<lparr>SessionID := SessionID e\<rparr>, True)"
    if "SessionID r = []" for r
    by (rule dec_omit_string [where get = SessionID]) (use that w in \<open>simp_all add: to_valid_ascii Event_fields_def\<close>)
  have tariff: "?D (r, True) (omitempty (TariffID e = []) ''tariff_id'' (JStr (TariffID e))) = (r\<lparr>TariffID := TariffID e\<rparr>, True)"
    if "TariffID r = []" for r
    by (rule dec_omit_string [where get = TariffID]) (use that w in \<open>simp_all add: to_valid_ascii Event_fields_def\<close>)
  have status: "?D (r, True) (omitempty (Status e = []) ''status'' (JStr (Status e))) = (r\<lparr>Status := Status e\<rparr>, True)"
    if "Status r = []" for r
    by (rule dec_omit_string [where get = Status]) (use that w in \<open>simp_all add: to_valid_ascii Event_fields_def\<close>)
  have meter: "?D (r, True) (omitempty (Meter e = None) ''meter'' (enc_ptr enc_Meter (Meter e))) = (r\<lparr>Meter := Meter e\<rparr>, True)"
    if "Meter r = None" for r
    by (rule dec_omit_ptr [where get = Meter and d = "dec_struct Meter_fields" and z = zero_Meter])
      (use that assms in \<open>simp_all add: to_valid_ascii Event_fields_def tidy_enc_not_null dec_Meter wire_ok_def event_floats_def\<close>)
  have vehicle: "?D (r, True) (omitempty (Vehicle e = None) ''vehicle'' (enc_ptr enc_Vehicle (Vehicle e))) = (r\<lparr>Vehicle := Vehicle e\<rparr>, True)"
    if "Vehicle r = None" for r
    by (rule dec_omit_ptr [where get = Vehicle and d = "dec_struct Vehicle_fields" and z = zero_Vehicle])
      (use that assms in \<open>simp_all add: to_valid_ascii Event_fields_def tidy_enc_not_null dec_Vehicle wire_ok_def\<close>)
  have fault: "?D (r, True) (omitempty (Fault e = None) ''fault'' (enc_ptr enc_Fault (Fault e))) = (r\<lparr>Fault := Fault e\<rparr>, True)"
    if "Fault r = None" for r
    by (rule dec_omit_ptr [where get = Fault and d = "dec_struct Fault_fields" and z = zero_Fault])
      (use that assms in \<open>simp_all add: to_valid_ascii Event_fields_def tidy_enc_not_null dec_Fault wire_ok_def\<close>)
  have cost: "?D (r, True) (omitempty (CostEur e = 0) ''cost_eur'' (JNum (enc_float (CostEur e)))) = (r\<lparr>CostEur := CostEur e\<rparr>, True)"
    if "CostEur r = 0" for r
    by (rule dec_omitempty [where get = CostEur and d = dec_float])
      (use that assms in \<open>simp_all add: to_valid_ascii Event_fields_def dec_float_enc wire_ok_def event_floats_def del: dec_float.simps\<close>)
  have peak: "?D (r, True) (omitempty (\<not> IsPeakPriced e) ''is_peak_priced'' (JBool (IsPeakPriced e))) = (r\<lparr>IsPeakPriced := IsPeakPriced e\<rparr>, True)"
    if "\<not> IsPeakPriced r" for r
    by (rule dec_omitempty [where get = IsPeakPriced and d = dec_bool])
      (use that in \<open>simp_all add: to_valid_ascii Event_fields_def\<close>)
  have head: "?D (r, True) [(''event_id'', JStr (EventID e)), (''event_type'', JStr (EventType e)), (''station_id'', JStr (StationID e)),
      (''connector_id'', JNum (strconv_Itoa (ConnectorID e)))]
      = (r\<lparr>EventID := EventID e, EventType := EventType e, StationID := StationID e, ConnectorID := ConnectorID e\<rparr>, True)" for r
    using assms(1) by (intro dec_Event_head) (simp_all add: wire_ok_def)
  have place: "?D (r, True) [(''timestamp'', JStr (Timestamp e)), (''operator_id'', JStr (OperatorID e)), (''location'', enc_Location (Location e))]
      = (r\<lparr>Timestamp := Timestamp e, OperatorID := OperatorID e, Location := Location e\<rparr>, True)" for r
    using assms by (intro dec_Event_place) (simp_all add: wire_ok_def event_floats_def)
  show ?thesis
    unfolding enc_Event_def tidy.simps dec_struct.simps map_append foldl_append head
    by (simp add: zero_Event_def session place meter vehicle tariff cost fault status peak del: list.map foldl_Cons)
qed

lemma is_literal_num: "is_literal (strconv_Itoa i)" "is_f64 x \<Longrightarrow> finite_f64 x \<Longrightarrow> is_literal (enc_float x)"
  using Itoa_text [of i] ParseFloat_enc [of x] unfolding is_literal_def by blast+

text \<open>Every float read from a document is a binary64 number, and so can be written again.\<close>

definition good_f64 :: "float64 \<Rightarrow> bool" where
  "good_f64 x \<longleftrightarrow> finite_f64 x \<and> is_f64 x"

lemma literal_good: "literal_floats good_f64"
proof -
  have "is_f64 v" if "ParseFloat s = Some v" for s v
    using that by (auto simp: ParseFloat_def split: float64.splits if_splits)
  then show ?thesis
    using literal_finite by (auto simp: literal_floats_def good_f64_def)
qed

lemma json_ok_omitempty: "(\<not> b \<Longrightarrow> json_ok d v) \<Longrightarrow> list_all (\<lambda>kv. json_ok d (snd kv)) (omitempty b k v)"
  by (simp add: omitempty_def)

lemma json_ok_ptr: "(\<And>v. p = Some v \<Longrightarrow> json_ok d (enc v)) \<Longrightarrow> json_ok d (enc_ptr enc p)"
  by (cases p) (simp_all add: enc_ptr_def)

lemma json_ok_parts:
  "location_wire l \<Longrightarrow> location_finite l \<Longrightarrow> json_ok (Suc d) (enc_Location l)"
  "meter_wire m \<Longrightarrow> meter_finite m \<Longrightarrow> json_ok (Suc d) (enc_Meter m)"
  "json_ok (Suc d) (enc_Vehicle v)" "json_ok (Suc d) (enc_Fault f)"
  by (simp_all add: enc_Location_def enc_Meter_def enc_Vehicle_def enc_Fault_def location_wire_def location_floats_def
      meter_wire_def meter_floats_def is_literal_num)

lemma json_ok_Event: "wire_ok e \<Longrightarrow> event_finite e \<Longrightarrow> json_ok (Suc (Suc d)) (enc_Event e)"
  unfolding enc_Event_def json_ok.simps list_all_append
  by (intro conjI json_ok_omitempty json_ok_ptr)
    (simp_all add: json_ok_parts is_literal_num wire_ok_def event_floats_def)

lemma Unmarshal_Marshal:
  assumes "wire_ok e" "Marshal_Event e = Some b"
  shows "Unmarshal_Event b = Some e"
proof -
  have e: "event_finite e" "b = enc_json (enc_Event e)" using assms(2) by (simp_all add: Marshal_Event_def split: if_splits)
  have "max_nesting = Suc (Suc 9998)" by (simp add: max_nesting_def)
  then have "json_parse b = Some (tidy (enc_Event e))"
    using json_parse_enc [OF json_ok_Event [OF assms(1) e(1), of 9998, folded \<open>max_nesting = Suc (Suc 9998)\<close>]] by (simp add: e(2))
  then show ?thesis by (simp add: Unmarshal_Event_def dec_Event [OF assms(1) e(1)])
qed

text \<open>
  C37: The wire format loses nothing: an event is refused only for a NaN or an infinity, and the bytes
  made of an event whose strings are valid UTF-8 and whose numbers are values of their Go types decode
  to that very event, every float to its last bit.
\<close>

theorem Marshal_roundtrip:
  assumes "wire_ok e"
  shows "(Marshal_Event e = None \<longleftrightarrow> \<not> event_finite e) \<and> (\<forall>b. Marshal_Event e = Some b \<longrightarrow> Unmarshal_Event b = Some e)"
  using Unmarshal_Marshal [OF assms] by (simp add: Marshal_Event_def)

text \<open>An event with escapes, umlauts, a tenth and a tiny number.\<close>

definition demo_wire_event :: Event where
  "demo_wire_event = zero_Event\<lparr>EventID := ''e1'', EventType := ''METER_UPDATE'', StationID := ''<IST>'', ConnectorID := 2,
     Location := \<lparr>Lat = rnd (1 / 10), Lon = rnd (- 1234567 / 10), City = [CHR ''K'', CHR 0xC3, CHR 0xB6, CHR ''l'', CHR ''n''], Country = ''DE''\<rparr>,
     Meter := Some \<lparr>PowerKW = rnd (3 / 10 ^ 9), EnergyKWh = Fin 22, VoltageV = Fin 400, CurrentA = 0, SocPercent = 80\<rparr>\<rparr>"

lemma demo_wire_event_ok: "wire_ok demo_wire_event" "event_finite demo_wire_event"
proof -
  have f: "finite_f64 (rnd q)" if "\<bar>q\<bar> \<le> 2 ^ 53" for q
    using in_range_rnd [of "- (2 ^ 53)" q "2 ^ 53"] that by (auto simp: in_range_iff abs_le_iff)
  show "event_finite demo_wire_event"
    by (simp add: demo_wire_event_def event_floats_def location_floats_def meter_floats_def wire_defs zero_f64 f)
  have "valid_utf8 [CHR ''K'', CHR 0xC3, CHR 0xB6, CHR ''l'', CHR ''n'']"
    by (simp add: valid_utf8_def to_valid.simps cont_byte_def)
  then show "wire_ok demo_wire_event"
    by (simp add: demo_wire_event_def wire_ok_def location_wire_def meter_wire_def int64_def go_int64_min_def go_int64_max_def
        wire_defs zero_f64)
qed

theorem Marshal_roundtrip_witness:
  "\<exists>b. Marshal_Event demo_wire_event = Some b \<and> Unmarshal_Event b = Some demo_wire_event"
proof -
  have m: "Marshal_Event demo_wire_event = Some (enc_json (enc_Event demo_wire_event))"
    using demo_wire_event_ok(2) by (simp add: Marshal_Event_def)
  then show ?thesis using Marshal_roundtrip [OF demo_wire_event_ok(1)] by blast
qed

end
