(* ===== verification/Registry.thy ===== *)
theory Registry
  imports Float64 "HOL-Library.AList"
begin

text \<open>
  \<^verbatim>\<open>processor/registry.go\<close>: the in-memory view of the station and tariff registry. A Go
  map is an association list updated with \<^const>\<open>AList.update\<close>, a
  \<^verbatim>\<open>map[string]struct{}\<close> a list of its keys without repetition. Postgres is not part of
  the program: a load consumes a \<open>db_reply\<close>, the outcome of every call the loader makes, and
  the theorems hold for every reply. \<^verbatim>\<open>Registry.snap\<close> is the atomic pointer: one
  snapshot, replaced wholesale.
  Shown: a snapshot is well formed, a lookup returns the last row the query delivered for that
  station, the roster never becomes empty once loaded, a failed refresh keeps the old snapshot,
  and the start-up poll ends within a bounded number of attempts.
\<close>

record stationMeta =
  numConnectors :: int
  operatorID :: string
  city :: string
  country :: string
  lat :: float64
  lon :: float64

record registrySnapshot =
  stations :: "(string \<times> stationMeta) list"
  tariffs :: "string list"

record Registry =
  snap :: registrySnapshot

definition StationMeta :: "Registry \<Rightarrow> string \<Rightarrow> stationMeta option" where
  "StationMeta r sid = map_of (stations (snap r)) sid"

definition TariffKnown :: "Registry \<Rightarrow> string \<Rightarrow> bool" where
  "TariffKnown r tid = List.member (tariffs (snap r)) tid"

definition Len :: "Registry \<Rightarrow> nat" where
  "Len r = length (stations (snap r))"

subsection \<open>Loading\<close>

datatype reg_error = OpenError | PingError | QueryError | ScanError | RowsError
  | RegistryEmpty | RefreshEmpty | NotReady reg_error

text \<open>
  The outcome of one query: it fails, or delivers rows, each of which scans or fails to, and
  then an iteration error or none.
\<close>

datatype 'a query_reply = QueryFails | Rows "'a option list" bool

record db_reply =
  db_open :: bool
  db_ping :: bool
  db_stations :: "(string \<times> stationMeta) query_reply"
  db_tariffs :: "string query_reply"

fun scan_rows :: "('a \<Rightarrow> 's \<Rightarrow> 's) \<Rightarrow> 'a query_reply \<Rightarrow> 's \<Rightarrow> reg_error + 's" where
  "scan_rows put QueryFails s = Inl QueryError"
| "scan_rows put (Rows [] err) s = (if err then Inl RowsError else Inr s)"
| "scan_rows put (Rows (None # rs) err) s = Inl ScanError"
| "scan_rows put (Rows (Some r # rs) err) s = scan_rows put (Rows rs err) (put r s)"

definition put_station :: "string \<times> stationMeta \<Rightarrow> registrySnapshot \<Rightarrow> registrySnapshot" where
  "put_station r s = s\<lparr>stations := AList.update (fst r) (snd r) (stations s)\<rparr>"

definition put_tariff :: "string \<Rightarrow> registrySnapshot \<Rightarrow> registrySnapshot" where
  "put_tariff tid s = s\<lparr>tariffs := List.insert tid (tariffs s)\<rparr>"

definition loadRegistry :: "db_reply \<Rightarrow> reg_error + registrySnapshot" where
  "loadRegistry db =
     (if \<not> db_open db then Inl OpenError
      else if \<not> db_ping db then Inl PingError
      else case scan_rows put_station (db_stations db) \<lparr>stations = [], tariffs = []\<rparr> of
             Inl e \<Rightarrow> Inl e
           | Inr s \<Rightarrow> scan_rows put_tariff (db_tariffs db) s)"

definition Refresh :: "Registry \<Rightarrow> db_reply \<Rightarrow> Registry \<times> reg_error option" where
  "Refresh r db = (case loadRegistry db of
       Inl e \<Rightarrow> (r, Some e)
     | Inr s \<Rightarrow> if length (stations s) = 0 then (r, Some RefreshEmpty)
               else (r\<lparr>snap := s\<rparr>, None))"

text \<open>
  The refresher's loop over the replies of its successive ticks: a failed refresh is logged and
  the loop continues. The loop ends when the context is cancelled, after any number of ticks.
\<close>

fun StartRegistryRefresher :: "Registry \<Rightarrow> db_reply list \<Rightarrow> Registry" where
  "StartRegistryRefresher r [] = r"
| "StartRegistryRefresher r (db # dbs) = StartRegistryRefresher (fst (Refresh r db)) dbs"

text \<open>
  The start-up poll. \<open>now0\<close> is the clock when it starts, the \<open>i\<close>-th attempt gets the reply
  \<open>db i\<close>, and the deadline is compared with the clock reading \<open>clk i\<close> after it. \<open>fuel\<close>
  bounds the attempts; \<open>None\<close> means that it ran out.
\<close>

fun retry_loop :: "nat \<Rightarrow> (nat \<Rightarrow> db_reply) \<Rightarrow> (nat \<Rightarrow> instant) \<Rightarrow> instant \<Rightarrow> nat
    \<Rightarrow> (reg_error + Registry) option" where
  "retry_loop 0 db clk deadline i = None"
| "retry_loop (Suc fuel) db clk deadline i =
     (let attempt = (case loadRegistry (db i) of
            Inl e \<Rightarrow> Inl e
          | Inr s \<Rightarrow> if length (stations s) = 0 then Inl RegistryEmpty else Inr \<lparr>snap = s\<rparr>)
      in case attempt of
           Inr r \<Rightarrow> Some (Inr r)
         | Inl e \<Rightarrow> if deadline < clk i then Some (Inl (NotReady e))
                    else retry_loop fuel db clk deadline (Suc i))"

definition LoadRegistryWithRetry ::
    "nat \<Rightarrow> (nat \<Rightarrow> db_reply) \<Rightarrow> (nat \<Rightarrow> instant) \<Rightarrow> instant \<Rightarrow> duration \<Rightarrow> (reg_error + Registry) option" where
  "LoadRegistryWithRetry fuel db clk now0 timeout = retry_loop fuel db clk (now0 + timeout) 0"

subsection \<open>Well-formed snapshots\<close>

definition snapshot_ok :: "registrySnapshot \<Rightarrow> bool" where
  "snapshot_ok s \<longleftrightarrow> distinct (map fst (stations s)) \<and> distinct (tariffs s)"

lemma put_station_ok: "snapshot_ok s \<Longrightarrow> snapshot_ok (put_station r s)"
  by (simp add: snapshot_ok_def put_station_def distinct_update)

lemma put_tariff_ok: "snapshot_ok s \<Longrightarrow> snapshot_ok (put_tariff t s)"
  by (simp add: snapshot_ok_def put_tariff_def)

lemma scan_rows_Inr:
  assumes "scan_rows put q s = Inr s'"
  obtains rs where "q = Rows (map Some rs) False" "s' = foldl (\<lambda>s r. put r s) s rs"
  using assms
proof (induction put q s arbitrary: thesis rule: scan_rows.induct)
  case (2 put err s)
  then show ?case by (auto split: if_splits)
next
  case (4 put r rs err s)
  from "4.prems"(2) obtain rs' where "Rows rs err = Rows (map Some rs') False"
    "s' = foldl (\<lambda>s r. put r s) (put r s) rs'"
    using "4.IH" by auto
  then show ?case using "4.prems"(1) [of "r # rs'"] by simp
qed auto

lemma foldl_put_keeps: "P s \<Longrightarrow> (\<And>r s. P s \<Longrightarrow> P (put r s)) \<Longrightarrow> P (foldl (\<lambda>s r. put r s) s rs)"
  by (induction rs arbitrary: s) auto

text \<open>A successful load delivered rows from both queries, and the snapshot is built from them.\<close>

definition snapshot_of :: "(string \<times> stationMeta) list \<Rightarrow> string list \<Rightarrow> registrySnapshot" where
  "snapshot_of rs ts =
     foldl (\<lambda>s t. put_tariff t s) (foldl (\<lambda>s r. put_station r s) \<lparr>stations = [], tariffs = []\<rparr> rs) ts"

lemma loadRegistry_Inr:
  assumes "loadRegistry db = Inr s"
  obtains rs ts where "db_stations db = Rows (map Some rs) False"
    "db_tariffs db = Rows (map Some ts) False" "s = snapshot_of rs ts"
proof -
  from assms obtain s1 where s1:
    "scan_rows put_station (db_stations db) \<lparr>stations = [], tariffs = []\<rparr> = Inr s1"
    "scan_rows put_tariff (db_tariffs db) s1 = Inr s"
    by (auto simp: loadRegistry_def split: if_splits sum.splits)
  from s1(1) obtain rs where "db_stations db = Rows (map Some rs) False"
    "s1 = foldl (\<lambda>s r. put_station r s) \<lparr>stations = [], tariffs = []\<rparr> rs" by (rule scan_rows_Inr)
  moreover from s1(2) obtain ts where "db_tariffs db = Rows (map Some ts) False"
    "s = foldl (\<lambda>s t. put_tariff t s) s1 ts" by (rule scan_rows_Inr)
  ultimately show thesis using that by (simp add: snapshot_of_def)
qed

lemma stations_put_tariffs: "stations (foldl (\<lambda>s t. put_tariff t s) s ts) = stations s"
  by (induction ts arbitrary: s) (simp_all add: put_tariff_def)

lemma tariffs_put_tariffs:
  "set (tariffs (foldl (\<lambda>s t. put_tariff t s) s ts)) = set (tariffs s) \<union> set ts"
  by (induction ts arbitrary: s) (auto simp: put_tariff_def)

lemma tariffs_put_stations: "tariffs (foldl (\<lambda>s r. put_station r s) s rs) = tariffs s"
  by (induction rs arbitrary: s) (simp_all add: put_station_def)

lemma stations_put_stations:
  "map_of (stations (foldl (\<lambda>s r. put_station r s) s rs)) = map_of (stations s) ++ map_of (rev rs)"
proof (induction rs arbitrary: s)
  case (Cons r rs)
  show ?case by (simp add: Cons.IH) (simp add: put_station_def update_conv' map_add_def fun_eq_iff
        split: option.split)
qed simp

lemma snapshot_of_lookup:
  "map_of (stations (snapshot_of rs ts)) = map_of (rev rs)"
  "set (tariffs (snapshot_of rs ts)) = set ts"
  by (simp_all add: snapshot_of_def stations_put_tariffs tariffs_put_tariffs stations_put_stations
      tariffs_put_stations)

lemma snapshot_of_ok: "snapshot_ok (snapshot_of rs ts)"
proof -
  have "snapshot_ok (foldl (\<lambda>s r. put_station r s) \<lparr>stations = [], tariffs = []\<rparr> rs)"
    by (rule foldl_put_keeps) (simp_all add: put_station_ok, simp add: snapshot_ok_def)
  then show ?thesis unfolding snapshot_of_def by (rule foldl_put_keeps) (rule put_tariff_ok)
qed

lemma loadRegistry_ok: "loadRegistry db = Inr s \<Longrightarrow> snapshot_ok s"
  by (rule loadRegistry_Inr) (auto simp: snapshot_of_ok)

definition registry_ok :: "Registry \<Rightarrow> bool" where
  "registry_ok r \<longleftrightarrow> snapshot_ok (snap r) \<and> 0 < Len r"

subsection \<open>Refreshing\<close>

text \<open>
  What a periodic refresher relies on: a refresh either fails and leaves the state alone, or
  installs a good state. The loop then keeps a good state good, whatever the replies are, and
  failures in a row change nothing.
\<close>

locale refresher =
  fixes refresh :: "'st \<Rightarrow> 'reply \<Rightarrow> 'st \<times> 'err option" and ok :: "'st \<Rightarrow> bool"
  assumes refresh_fail: "snd (refresh st rep) \<noteq> None \<Longrightarrow> fst (refresh st rep) = st"
    and refresh_ok: "snd (refresh st rep) = None \<Longrightarrow> ok (fst (refresh st rep))"
begin

definition refresh_all :: "'st \<Rightarrow> 'reply list \<Rightarrow> 'st" where
  "refresh_all st reps = foldl (\<lambda>st rep. fst (refresh st rep)) st reps"

lemma refresh_keeps: "ok st \<Longrightarrow> ok (fst (refresh st rep))"
  using refresh_fail refresh_ok by (cases "snd (refresh st rep) = None") auto

lemma refresh_all_keeps: "ok st \<Longrightarrow> ok (refresh_all st reps)"
  by (induction reps arbitrary: st) (auto simp: refresh_all_def refresh_keeps)

lemma refresh_all_failing:
  "(\<And>rep st. rep \<in> set reps \<Longrightarrow> snd (refresh st rep) \<noteq> None) \<Longrightarrow> refresh_all st reps = st"
  by (induction reps arbitrary: st) (auto simp: refresh_all_def refresh_fail)

end

lemma Refresh_fail: "snd (Refresh r db) \<noteq> None \<Longrightarrow> fst (Refresh r db) = r"
  by (auto simp: Refresh_def split: sum.splits)

lemma Refresh_success: "snd (Refresh r db) = None \<Longrightarrow> registry_ok (fst (Refresh r db))"
  by (auto simp: Refresh_def registry_ok_def Len_def loadRegistry_ok split: sum.splits if_splits)

interpretation reg: refresher Refresh registry_ok
  by unfold_locales (auto simp: Refresh_fail Refresh_success)

lemma StartRegistryRefresher_eq: "StartRegistryRefresher r dbs = reg.refresh_all r dbs"
  by (induction r dbs rule: StartRegistryRefresher.induct) (simp_all add: reg.refresh_all_def)

subsection \<open>The start-up poll returns\<close>

lemma retry_loop_returns:
  assumes "\<And>j. base + 2 * second * int j \<le> clk j"
    and "deadline < base + 2 * second * int (i + fuel)"
  shows "\<exists>res. retry_loop (Suc fuel) db clk deadline i = Some res"
  using assms(2)
proof (induction fuel arbitrary: i)
  case 0
  then have "deadline < clk i" using assms(1) [of i] by simp
  then show ?case by (simp add: Let_def split: sum.split)
next
  case (Suc fuel)
  have "\<exists>res. retry_loop (Suc fuel) db clk deadline (Suc i) = Some res"
    using Suc.prems by (intro Suc.IH) simp
  then show ?case by (subst retry_loop.simps) (auto simp: Let_def split: sum.split simp del: retry_loop.simps)
qed

lemma retry_loop_result:
  "retry_loop fuel db clk deadline i = Some (Inr r) \<Longrightarrow>
     registry_ok r \<and> (\<exists>j\<ge>i. loadRegistry (db j) = Inr (snap r))"
proof (induction fuel arbitrary: i)
  case (Suc fuel)
  show ?case
  proof (cases "\<exists>s. loadRegistry (db i) = Inr s \<and> stations s \<noteq> []")
    case True
    with Suc.prems show ?thesis
      by (auto simp: Let_def registry_ok_def Len_def loadRegistry_ok) (use order_refl in blast)
  next
    case False
    with Suc.prems have "retry_loop fuel db clk deadline (Suc i) = Some (Inr r)"
      by (auto simp: Let_def split: sum.splits if_splits)
    then show ?thesis using Suc.IH Suc_leD by blast
  qed
qed simp

subsection \<open>Properties\<close>

text \<open>
  A load that succeeds indexed exactly the rows of the two queries: a station id maps to the
  last row delivered for it, and a tariff is known iff some row names it.
\<close>

theorem loadRegistry_indexes_rows:
  assumes "loadRegistry db = Inr s"
  shows "\<exists>rs ts. db_stations db = Rows (map Some rs) False \<and> db_tariffs db = Rows (map Some ts) False
    \<and> (\<forall>sid. StationMeta \<lparr>snap = s\<rparr> sid = map_of (rev rs) sid)
    \<and> (\<forall>tid. TariffKnown \<lparr>snap = s\<rparr> tid \<longleftrightarrow> tid \<in> set ts)"
  using assms
  by (rule loadRegistry_Inr) (auto simp: StationMeta_def TariffKnown_def snapshot_of_lookup)

definition demo_meta :: stationMeta where
  "demo_meta = \<lparr>numConnectors = 2, operatorID = ''op'', city = ''Berlin'', country = ''DE'',
     lat = Fin 52, lon = Fin 13\<rparr>"

definition demo_db :: db_reply where
  "demo_db = \<lparr>db_open = True, db_ping = True,
     db_stations = Rows [Some (''ST-1'', demo_meta), Some (''ST-1'', demo_meta\<lparr>numConnectors := 4\<rparr>)] False,
     db_tariffs = Rows [Some ''T1''] False\<rparr>"

definition demo_snap :: registrySnapshot where
  "demo_snap = \<lparr>stations = [(''ST-1'', demo_meta\<lparr>numConnectors := 4\<rparr>)], tariffs = [''T1'']\<rparr>"

lemma demo_load: "loadRegistry demo_db = Inr demo_snap"
  by (simp add: demo_db_def demo_snap_def loadRegistry_def put_station_def put_tariff_def demo_meta_def)

theorem loadRegistry_indexes_rows_witness:
  "\<exists>rs ts. db_stations demo_db = Rows (map Some rs) False \<and> db_tariffs demo_db = Rows (map Some ts) False
    \<and> (\<forall>sid. StationMeta \<lparr>snap = demo_snap\<rparr> sid = map_of (rev rs) sid)
    \<and> (\<forall>tid. TariffKnown \<lparr>snap = demo_snap\<rparr> tid \<longleftrightarrow> tid \<in> set ts)"
  using demo_load by (rule loadRegistry_indexes_rows)

definition load_fails :: "db_reply \<Rightarrow> bool" where
  "load_fails db = (case loadRegistry db of Inl _ \<Rightarrow> True | Inr s \<Rightarrow> stations s = [])"

lemma load_fails_iff: "load_fails db \<longleftrightarrow> snd (Refresh r db) \<noteq> None"
  by (auto simp: load_fails_def Refresh_def split: sum.splits)

text \<open>
  C19: The periodic refresh never blanks the roster. Whatever Postgres answers, a registry that
  holds a well-formed, non-empty snapshot still does after any number of ticks; and ticks that
  fail or deliver no station leave the snapshot as it was.
\<close>

theorem StartRegistryRefresher_never_blank:
  assumes "registry_ok r"
  shows "registry_ok (StartRegistryRefresher r dbs)
    \<and> (list_all load_fails dbs \<longrightarrow> StartRegistryRefresher r dbs = r)"
proof (intro conjI impI)
  show "registry_ok (StartRegistryRefresher r dbs)"
    using assms by (simp add: StartRegistryRefresher_eq reg.refresh_all_keeps)
  assume "list_all load_fails dbs"
  then have "\<And>db st. db \<in> set dbs \<Longrightarrow> snd (Refresh st db) \<noteq> None"
    by (metis list_all_iff load_fails_iff)
  then show "StartRegistryRefresher r dbs = r"
    unfolding StartRegistryRefresher_eq by (rule reg.refresh_all_failing)
qed

theorem StartRegistryRefresher_never_blank_witness:
  "registry_ok (StartRegistryRefresher \<lparr>snap = demo_snap\<rparr>
      [demo_db, demo_db\<lparr>db_ping := False\<rparr>, demo_db\<lparr>db_stations := Rows [] False\<rparr>])
   \<and> StartRegistryRefresher \<lparr>snap = demo_snap\<rparr>
      [demo_db\<lparr>db_ping := False\<rparr>, demo_db\<lparr>db_stations := Rows [] False\<rparr>] = \<lparr>snap = demo_snap\<rparr>"
proof -
  have ok: "registry_ok \<lparr>snap = demo_snap\<rparr>"
    by (simp add: registry_ok_def snapshot_ok_def Len_def demo_snap_def)
  have "list_all load_fails [demo_db\<lparr>db_ping := False\<rparr>, demo_db\<lparr>db_stations := Rows [] False\<rparr>]"
    by (simp add: load_fails_def loadRegistry_def demo_db_def put_tariff_def)
  then show ?thesis using StartRegistryRefresher_never_blank [OF ok] by blast
qed

text \<open>
  The start-up poll ends. With a two-second pause between attempts the clock passes the
  deadline after at most \<open>timeout div 2s\<close> further attempts, so that much fuel always gives a
  result, whatever Postgres answers: an error, or a registry that is well formed and not empty.
\<close>

theorem LoadRegistryWithRetry_returns:
  assumes "\<And>j. now0 + 2 * second * int j \<le> clk j" and "0 \<le> timeout"
  shows "\<exists>res. LoadRegistryWithRetry (nat (timeout div (2 * second)) + 2) db clk now0 timeout = Some res
    \<and> (\<forall>r. res = Inr r \<longrightarrow> registry_ok r)"
proof -
  let ?n = "nat (timeout div (2 * second)) + 1"
  have "timeout < 2 * second * int ?n"
    using assms(2) mult_div_mod_eq [of "2 * second" timeout] pos_mod_bound [of "2 * second" timeout]
    by (simp add: pos_imp_zdiv_nonneg_iff)
  then have "\<exists>res. retry_loop (Suc ?n) db clk (now0 + timeout) 0 = Some res"
    by (intro retry_loop_returns [where base = now0, OF assms(1)]) simp
  then show ?thesis
    using retry_loop_result by (fastforce simp: LoadRegistryWithRetry_def simp del: retry_loop.simps)
qed

theorem LoadRegistryWithRetry_returns_witness:
  "\<exists>res. LoadRegistryWithRetry (nat ((90 * second) div (2 * second)) + 2) (\<lambda>_. demo_db\<lparr>db_open := False\<rparr>)
      (\<lambda>j. 5 + 2 * second * int j) 5 (90 * second) = Some res \<and> (\<forall>r. res = Inr r \<longrightarrow> registry_ok r)"
  by (rule LoadRegistryWithRetry_returns) simp_all

end
