(* ===== verification/Validate.thy ===== *)
theory Validate
  imports JsonWrite Registry
begin

text \<open>
  \<^verbatim>\<open>processor/validate.go\<close>. A \<^verbatim>\<open>*ValidationError\<close> that is not nil is the left
  component of a sum, or \<^const>\<open>Some\<close> where the function returns nothing else; the message is
  kept as the format and the arguments of \<^verbatim>\<open>fmt.Sprintf\<close>. \<^verbatim>\<open>Validate\<close> loads the
  registry's atomic pointer twice (for the station and for the tariff), so the model takes the
  registry as each of the two loads sees it; they are the same unless a refresh swaps the
  snapshot in between.
\<close>

datatype fmt_arg = AStr string | AInt int | AFloat float64

datatype sprintf = Sprintf string "fmt_arg list"

record ValidationError =
  Rule :: string
  Msg :: sprintf

definition verr :: "string \<Rightarrow> string \<Rightarrow> fmt_arg list \<Rightarrow> ValidationError" where
  "verr rule format args = \<lparr>Rule = rule, Msg = Sprintf format args\<rparr>"

lemma Rule_verr [simp]: "Rule (verr r f a) = r"
  by (simp add: verr_def)

definition validEventTypes :: "string \<Rightarrow> bool" where
  "validEventTypes t = List.member [''SESSION_START'', ''METER_UPDATE'', ''STATUS_CHANGE'',
     ''SESSION_STOP'', ''HEARTBEAT'', ''FAULT_ALERT''] t"

definition validStatuses :: "string \<Rightarrow> bool" where
  "validStatuses s = List.member [''Available'', ''Charging'', ''Faulted''] s"

text \<open>The error text of \<^verbatim>\<open>json.Unmarshal\<close> is not modelled; its argument is left out.\<close>

definition Decode :: "bytes \<Rightarrow> ValidationError + Event" where
  "Decode raw = (case Unmarshal_Event raw of
       None \<Rightarrow> Inl (verr ''invalid_json'' ''invalid json: %v'' [])
     | Some e \<Rightarrow> Inr e)"

definition isHexDigit :: "char \<Rightarrow> bool" where
  "isHexDigit c \<longleftrightarrow> (48 \<le> byte c \<and> byte c \<le> 57) \<or> (97 \<le> byte c \<and> byte c \<le> 102)
     \<or> (65 \<le> byte c \<and> byte c \<le> 70)"

text \<open>The loop of \<^verbatim>\<open>isValidEventID\<close> from index \<open>i\<close> over the rest of the string.\<close>

fun event_id_loop :: "nat \<Rightarrow> string \<Rightarrow> bool" where
  "event_id_loop i [] = True"
| "event_id_loop i (c # s) =
     (if i = 8 \<or> i = 13 \<or> i = 18 \<or> i = 23
      then (if c \<noteq> CHR ''-'' then False else event_id_loop (Suc i) s)
      else if \<not> isHexDigit c then False else event_id_loop (Suc i) s)"

definition isValidEventID :: "string \<Rightarrow> bool" where
  "isValidEventID s = (if length s \<noteq> 36 then False else event_id_loop 0 s)"

definition validateMeter :: "Meter \<Rightarrow> ValidationError option" where
  "validateMeter m =
     (if SocPercent m < 0 \<or> 100 < SocPercent m
        then Some (verr ''soc_out_of_range'' ''soc_percent %d out of range [0,100]'' [AInt (SocPercent m)])
      else if PowerKW m < 0 \<or> Fin 1000 < PowerKW m
        then Some (verr ''bad_power'' ''power_kw %v out of range [0,1000]'' [AFloat (PowerKW m)])
      else if EnergyKWh m < 0
        then Some (verr ''bad_energy'' ''negative energy_kwh %v'' [AFloat (EnergyKWh m)])
      else if VoltageV m < 0
        then Some (verr ''bad_voltage'' ''negative voltage_v %v'' [AFloat (VoltageV m)])
      else if CurrentA m < 0
        then Some (verr ''bad_current'' ''negative current_a %v'' [AFloat (CurrentA m)])
      else None)"

text \<open>The \<^verbatim>\<open>switch e.EventType\<close> of \<^verbatim>\<open>Validate\<close>.\<close>

definition validateByType :: "Event \<Rightarrow> ValidationError option" where
  "validateByType e =
     (if EventType e = ''SESSION_START'' then
        (if SessionID e = [] then Some (verr ''missing_session'' ''SESSION_START missing session_id'' [])
         else if (case Vehicle e of None \<Rightarrow> True | Some v \<Rightarrow> Brand v = [])
           then Some (verr ''missing_vehicle'' ''SESSION_START missing vehicle brand'' [])
         else if TariffID e = [] then Some (verr ''missing_tariff'' ''SESSION_START missing tariff_id'' [])
         else if Meter e = None then Some (verr ''missing_meter'' ''SESSION_START missing meter'' [])
         else None)
      else if EventType e = ''METER_UPDATE'' then
        (if SessionID e = [] then Some (verr ''missing_session'' ''METER_UPDATE missing session_id'' [])
         else if TariffID e = [] then Some (verr ''missing_tariff'' ''METER_UPDATE missing tariff_id'' [])
         else if Meter e = None then Some (verr ''missing_meter'' ''METER_UPDATE missing meter'' [])
         else None)
      else if EventType e = ''SESSION_STOP'' then
        (if SessionID e = [] then Some (verr ''missing_session'' ''SESSION_STOP missing session_id'' [])
         else if TariffID e = [] then Some (verr ''missing_tariff'' ''SESSION_STOP missing tariff_id'' [])
         else if Meter e = None then Some (verr ''missing_meter'' ''SESSION_STOP missing meter'' [])
         else if CostEur e < 0 then Some (verr ''bad_cost'' ''negative cost_eur %v'' [AFloat (CostEur e)])
         else None)
      else if EventType e = ''STATUS_CHANGE'' then
        (if \<not> validStatuses (Status e) then Some (verr ''bad_status'' ''invalid status %q'' [AStr (Status e)])
         else None)
      else if EventType e = ''FAULT_ALERT'' then
        (if (case Fault e of None \<Rightarrow> True | Some f \<Rightarrow> ErrorCode f = [])
           then Some (verr ''missing_fault'' ''FAULT_ALERT missing fault error_code'' [])
         else None)
      else None)"

definition epsilon_geo :: float64 where
  "epsilon_geo = rnd (1 / 10000)"

definition Validate :: "Event \<Rightarrow> Registry \<Rightarrow> Registry \<Rightarrow> ValidationError + instant" where
  "Validate e reg reg' =
     (if EventID e = [] then Inl (verr ''missing_event_id'' ''missing event_id'' [])
      else if \<not> isValidEventID (EventID e)
        then Inl (verr ''bad_event_id'' ''malformed event_id %q'' [AStr (EventID e)])
      else if \<not> validEventTypes (EventType e)
        then Inl (verr ''unknown_event_type'' ''unknown event_type %q'' [AStr (EventType e)])
      else case StationMeta reg (StationID e) of
        None \<Rightarrow> Inl (verr ''unknown_station'' ''unknown station_id %q'' [AStr (StationID e)])
      | Some meta \<Rightarrow>
      (case time_Parse (Timestamp e) of
        None \<Rightarrow> Inl (verr ''bad_timestamp'' ''unparseable timestamp %q'' [AStr (Timestamp e)])
      | Some ts \<Rightarrow>
      if OperatorID e = [] then Inl (verr ''missing_operator'' ''missing operator_id'' [])
      else if City (Location e) = [] \<or> Country (Location e) = []
        then Inl (verr ''missing_location'' ''missing location city/country'' [])
      else if Lat (Location e) < Fin (- 90) \<or> Fin 90 < Lat (Location e)
          \<or> Lon (Location e) < Fin (- 180) \<or> Fin 180 < Lon (Location e)
        then Inl (verr ''bad_geo'' ''lat/lon out of range'' [])
      else if OperatorID e \<noteq> operatorID meta
        then Inl (verr ''operator_mismatch'' ''operator_id %q does not match station operator %q''
               [AStr (OperatorID e), AStr (operatorID meta)])
      else if City (Location e) \<noteq> city meta
        then Inl (verr ''city_mismatch'' ''city %q does not match station city %q''
               [AStr (City (Location e)), AStr (city meta)])
      else if Country (Location e) \<noteq> country meta
        then Inl (verr ''country_mismatch'' ''country %q does not match station country %q''
               [AStr (Country (Location e)), AStr (country meta)])
      else if epsilon_geo < abs (Lat (Location e) - lat meta) \<or> epsilon_geo < abs (Lon (Location e) - lon meta)
        then Inl (verr ''geo_mismatch'' ''lat/lon (%v,%v) does not match station (%v,%v)''
               [AFloat (Lat (Location e)), AFloat (Lon (Location e)), AFloat (lat meta), AFloat (lon meta)])
      else if EventType e = ''HEARTBEAT'' \<and> ConnectorID e \<noteq> 0
        then Inl (verr ''bad_connector'' ''HEARTBEAT connector_id must be 0, got %d'' [AInt (ConnectorID e)])
      else if EventType e \<noteq> ''HEARTBEAT'' \<and> (ConnectorID e < 1 \<or> numConnectors meta < ConnectorID e)
        then Inl (verr ''connector_out_of_range'' ''connector_id %d exceeds station connector count %d''
               [AInt (ConnectorID e), AInt (numConnectors meta)])
      else if TariffID e \<noteq> [] \<and> \<not> TariffKnown reg' (TariffID e)
        then Inl (verr ''unknown_tariff'' ''unknown tariff_id %q'' [AStr (TariffID e)])
      else case validateByType e of
        Some err \<Rightarrow> Inl err
      | None \<Rightarrow>
      (case Meter e of
        None \<Rightarrow> Inr ts
      | Some m \<Rightarrow> (case validateMeter m of Some merr \<Rightarrow> Inl merr | None \<Rightarrow> Inr ts))))"

subsection \<open>The shape of an event id\<close>

definition uuid_char :: "nat \<Rightarrow> char \<Rightarrow> bool" where
  "uuid_char i c \<longleftrightarrow> (if i \<in> {8, 13, 18, 23} then c = CHR ''-'' else isHexDigit c)"

lemma event_id_loop_iff: "event_id_loop i s \<longleftrightarrow> (\<forall>j<length s. uuid_char (i + j) (s ! j))"
proof (induction s arbitrary: i)
  case (Cons c s)
  have "event_id_loop i (c # s) \<longleftrightarrow> uuid_char i c \<and> event_id_loop (Suc i) s"
    by (simp add: uuid_char_def)
  also have "\<dots> \<longleftrightarrow> (\<forall>j<Suc (length s). uuid_char (i + j) ((c # s) ! j))"
    by (subst All_less_Suc2) (simp add: Cons.IH)
  finally show ?case by simp
qed simp

lemma isValidEventID_iff: "isValidEventID s \<longleftrightarrow> length s = 36 \<and> (\<forall>j<36. uuid_char j (s ! j))"
  by (auto simp: isValidEventID_def event_id_loop_iff)

lemma isHexDigit_ascii: "isHexDigit c \<Longrightarrow> byte c < 128"
  by (auto simp: isHexDigit_def)

lemma event_id_ascii: "isValidEventID u \<Longrightarrow> ascii u"
proof -
  assume "isValidEventID u"
  then have "uuid_char i (u ! i)" if "i < length u" for i using that by (simp add: isValidEventID_iff)
  then have "byte (u ! i) < 128" if "i < length u" for i
    using that isHexDigit_ascii by (fastforce simp: uuid_char_def split: if_splits)
  then show ?thesis by (simp add: ascii_def list_all_length)
qed

subsection \<open>First failure wins\<close>

text \<open>
  A table of the rules in the order of the code, each with the condition that violates it.
  \<^verbatim>\<open>Validate\<close> reports the first violated one.
\<close>

definition meter_rules :: "Event \<Rightarrow> (string \<times> bool) list" where
  "meter_rules e =
     (let on_meter = (\<lambda>P. case Meter e of None \<Rightarrow> False | Some m \<Rightarrow> P m)
      in [(''soc_out_of_range'', on_meter (\<lambda>m. SocPercent m < 0 \<or> 100 < SocPercent m)),
          (''bad_power'', on_meter (\<lambda>m. PowerKW m < 0 \<or> Fin 1000 < PowerKW m)),
          (''bad_energy'', on_meter (\<lambda>m. EnergyKWh m < 0)),
          (''bad_voltage'', on_meter (\<lambda>m. VoltageV m < 0)),
          (''bad_current'', on_meter (\<lambda>m. CurrentA m < 0))])"

definition type_rules :: "Event \<Rightarrow> (string \<times> bool) list" where
  "type_rules e =
     (let ty = (\<lambda>t. EventType e = t);
          session_type = (ty ''SESSION_START'' \<or> ty ''METER_UPDATE'' \<or> ty ''SESSION_STOP'')
      in [(''missing_session'', session_type \<and> SessionID e = []),
          (''missing_vehicle'', ty ''SESSION_START''
             \<and> (case Vehicle e of None \<Rightarrow> True | Some v \<Rightarrow> Brand v = [])),
          (''missing_tariff'', session_type \<and> TariffID e = []),
          (''missing_meter'', session_type \<and> Meter e = None),
          (''bad_cost'', ty ''SESSION_STOP'' \<and> CostEur e < 0),
          (''bad_status'', ty ''STATUS_CHANGE'' \<and> \<not> validStatuses (Status e)),
          (''missing_fault'', ty ''FAULT_ALERT''
             \<and> (case Fault e of None \<Rightarrow> True | Some f \<Rightarrow> ErrorCode f = []))])"

definition rule_table :: "Event \<Rightarrow> Registry \<Rightarrow> Registry \<Rightarrow> (string \<times> bool) list" where
  "rule_table e reg reg' =
     (let on_meta = (\<lambda>P. case StationMeta reg (StationID e) of None \<Rightarrow> False | Some meta \<Rightarrow> P meta)
      in [(''missing_event_id'', EventID e = []),
          (''bad_event_id'', \<not> isValidEventID (EventID e)),
          (''unknown_event_type'', \<not> validEventTypes (EventType e)),
          (''unknown_station'', StationMeta reg (StationID e) = None),
          (''bad_timestamp'', time_Parse (Timestamp e) = None),
          (''missing_operator'', OperatorID e = []),
          (''missing_location'', City (Location e) = [] \<or> Country (Location e) = []),
          (''bad_geo'', Lat (Location e) < Fin (- 90) \<or> Fin 90 < Lat (Location e)
             \<or> Lon (Location e) < Fin (- 180) \<or> Fin 180 < Lon (Location e)),
          (''operator_mismatch'', on_meta (\<lambda>m. OperatorID e \<noteq> operatorID m)),
          (''city_mismatch'', on_meta (\<lambda>m. City (Location e) \<noteq> city m)),
          (''country_mismatch'', on_meta (\<lambda>m. Country (Location e) \<noteq> country m)),
          (''geo_mismatch'', on_meta (\<lambda>m. epsilon_geo < abs (Lat (Location e) - lat m)
             \<or> epsilon_geo < abs (Lon (Location e) - lon m))),
          (''bad_connector'', EventType e = ''HEARTBEAT'' \<and> ConnectorID e \<noteq> 0),
          (''connector_out_of_range'', EventType e \<noteq> ''HEARTBEAT''
             \<and> on_meta (\<lambda>m. ConnectorID e < 1 \<or> numConnectors m < ConnectorID e)),
          (''unknown_tariff'', TariffID e \<noteq> [] \<and> \<not> TariffKnown reg' (TariffID e))]
         @ type_rules e @ meter_rules e)"

definition first_violation :: "(string \<times> bool) list \<Rightarrow> string option" where
  "first_violation rs = map_option fst (find snd rs)"

lemma first_violation_Cons: "first_violation ((r, b) # rs) = (if b then Some r else first_violation rs)"
  by (simp add: first_violation_def)

lemma first_violation_Nil [simp]: "first_violation [] = None"
  by (simp add: first_violation_def)

lemma first_violation_None: "first_violation rs = None \<longleftrightarrow> (\<forall>(r, b) \<in> set rs. \<not> b)"
  by (induction rs) (auto simp: first_violation_Cons split: if_splits)

definition verdict :: "ValidationError + instant \<Rightarrow> string option" where
  "verdict r = (case r of Inl err \<Rightarrow> Some (Rule err) | Inr _ \<Rightarrow> None)"

lemma verdict_simps [simp]: "verdict (Inl err) = Some (Rule err)" "verdict (Inr ts) = None"
  by (simp_all add: verdict_def)

lemma verdict_if: "verdict (if b then Inl err else x) = (if b then Some (Rule err) else verdict x)"
  by simp

lemma first_violation_append:
  "first_violation (xs @ ys) = (case first_violation xs of Some r \<Rightarrow> Some r | None \<Rightarrow> first_violation ys)"
  by (induction xs) (auto simp: first_violation_Cons)

lemma validateMeter_rules:
  "first_violation (meter_rules e) =
     (case Meter e of None \<Rightarrow> None | Some m \<Rightarrow> map_option Rule (validateMeter m))"
  by (cases "Meter e") (simp_all add: meter_rules_def validateMeter_def first_violation_Cons)

lemma validateByType_rules: "first_violation (type_rules e) = map_option Rule (validateByType e)"
  by (cases "Meter e") (simp_all add: type_rules_def validateByType_def first_violation_Cons Let_def)

lemma verdict_tail:
  "verdict (case validateByType e of Some err \<Rightarrow> Inl err
      | None \<Rightarrow> (case Meter e of None \<Rightarrow> Inr ts
                | Some m \<Rightarrow> (case validateMeter m of Some merr \<Rightarrow> Inl merr | None \<Rightarrow> Inr ts))) =
    first_violation (type_rules e @ meter_rules e)"
  by (simp add: first_violation_append validateMeter_rules validateByType_rules split: option.split)

lemma Validate_first_violation:
  "verdict (Validate e reg reg') = first_violation (rule_table e reg reg')"
proof (cases "StationMeta reg (StationID e)")
  case None
  then show ?thesis by (simp add: Validate_def rule_table_def first_violation_Cons Let_def)
next
  case (Some meta)
  show ?thesis
  proof (cases "time_Parse (Timestamp e)")
    case None
    with Some show ?thesis by (simp add: Validate_def rule_table_def first_violation_Cons Let_def)
  next
    case (Some ts)
    with \<open>StationMeta reg (StationID e) = Some meta\<close> show ?thesis
      by (simp add: Validate_def rule_table_def verdict_if verdict_tail first_violation_Cons Let_def
          cong: if_cong split del: if_split)
  qed
qed

lemma Validate_Inr_iff:
  "Validate e reg reg' = Inr ts \<longleftrightarrow>
     first_violation (rule_table e reg reg') = None \<and> time_Parse (Timestamp e) = Some ts"
proof -
  have "time_Parse (Timestamp e) = Some ts" if "Validate e reg reg' = Inr ts"
    using that by (simp add: Validate_def split: if_splits option.splits)
  moreover have "Validate e reg reg' = Inr ts" if "first_violation (rule_table e reg reg') = None"
    "time_Parse (Timestamp e) = Some ts"
  proof (cases "Validate e reg reg'")
    case (Inl err)
    then show ?thesis using that Validate_first_violation [of e reg reg'] by simp
  next
    case (Inr ts')
    then show ?thesis using that by (simp add: Validate_def split: if_splits option.splits)
  qed
  ultimately show ?thesis
    by (metis Validate_first_violation verdict_simps(2))
qed

subsection \<open>Properties\<close>

text \<open>
  C17: \<^verbatim>\<open>Validate\<close> is exactly the ordered rule table: it accepts iff no rule is
  violated, and otherwise reports the first violated rule.
\<close>

theorem Validate_first_failure:
  "(case Validate e reg reg' of Inl err \<Rightarrow> Some (Rule err) | Inr _ \<Rightarrow> None) =
     first_violation (rule_table e reg reg')"
  using Validate_first_violation [of e reg reg'] by (simp add: verdict_def)

lemma first_violation_None_iff: "first_violation rs = None \<longleftrightarrow> list_all (\<lambda>rb. \<not> snd rb) rs"
  by (auto simp: first_violation_None list_all_iff)

lemma Validate_no_violation:
  "Validate e reg reg' = Inr ts \<Longrightarrow> list_all (\<lambda>rb. \<not> snd rb) (rule_table e reg reg')"
  by (simp add: Validate_Inr_iff first_violation_None_iff)

lemma Validate_station:
  assumes "Validate e reg reg' = Inr ts"
  obtains meta where "StationMeta reg (StationID e) = Some meta"
    "OperatorID e = operatorID meta" "City (Location e) = city meta" "Country (Location e) = country meta"
    "EventType e = ''HEARTBEAT'' \<longrightarrow> ConnectorID e = 0"
    "EventType e = ''HEARTBEAT'' \<or> 1 \<le> ConnectorID e \<and> ConnectorID e \<le> numConnectors meta"
  using Validate_no_violation [OF assms]
  by (cases "StationMeta reg (StationID e)") (simp_all add: rule_table_def Let_def not_less)

lemma Validate_identity:
  assumes "Validate e reg reg' = Inr ts"
  shows "isValidEventID (EventID e)" "validEventTypes (EventType e)"
    "time_Parse (Timestamp e) = Some ts"
    "\<not> Lat (Location e) < Fin (- 90) \<and> \<not> Fin 90 < Lat (Location e)
      \<and> \<not> Lon (Location e) < Fin (- 180) \<and> \<not> Fin 180 < Lon (Location e)"
    "TariffID e \<noteq> [] \<Longrightarrow> TariffKnown reg' (TariffID e)"
  using Validate_no_violation [OF assms] assms
  by (simp_all add: rule_table_def Let_def Validate_Inr_iff)

lemma Validate_by_type:
  assumes "Validate e reg reg' = Inr ts"
  shows "EventType e \<in> {''SESSION_START'', ''METER_UPDATE'', ''SESSION_STOP''} \<Longrightarrow>
      SessionID e \<noteq> [] \<and> TariffID e \<noteq> [] \<and> Meter e \<noteq> None"
    "EventType e = ''STATUS_CHANGE'' \<Longrightarrow> validStatuses (Status e)"
proof -
  have "list_all (\<lambda>rb. \<not> snd rb) (type_rules e)"
    using Validate_no_violation [OF assms] by (simp add: rule_table_def Let_def)
  then show "EventType e \<in> {''SESSION_START'', ''METER_UPDATE'', ''SESSION_STOP''} \<Longrightarrow>
      SessionID e \<noteq> [] \<and> TariffID e \<noteq> [] \<and> Meter e \<noteq> None"
    "EventType e = ''STATUS_CHANGE'' \<Longrightarrow> validStatuses (Status e)"
    by (auto simp: type_rules_def Let_def)
qed

lemma Validate_meter:
  assumes "Validate e reg reg' = Inr ts" "Meter e = Some m"
  shows "validateMeter m = None"
proof -
  have "first_violation (meter_rules e) = None"
    using Validate_no_violation [OF assms(1)]
    by (simp add: first_violation_None_iff rule_table_def Let_def)
  then show ?thesis using assms(2) by (simp add: validateMeter_rules)
qed

definition meter_ok :: "Meter \<Rightarrow> bool" where
  "meter_ok m \<longleftrightarrow> 0 \<le> SocPercent m \<and> SocPercent m \<le> 100 \<and> in_range 0 (PowerKW m) 1000
     \<and> nonneg_f64 (EnergyKWh m) \<and> nonneg_f64 (VoltageV m) \<and> nonneg_f64 (CurrentA m)"

lemma validateMeter_ok: "validateMeter m = None \<Longrightarrow> meter_finite m \<Longrightarrow> meter_ok m"
  by (auto simp: validateMeter_def meter_ok_def meter_floats_def zero_f64 not_less
      intro!: in_range_Fin nonneg_Fin split: if_splits)

definition accepted_row :: "Event \<Rightarrow> stationMeta \<Rightarrow> bool" where
  "accepted_row e meta \<longleftrightarrow> isValidEventID (EventID e) \<and> validEventTypes (EventType e)
     \<and> OperatorID e = operatorID meta \<and> City (Location e) = city meta \<and> Country (Location e) = country meta
     \<and> in_range (- 90) (Lat (Location e)) 90 \<and> in_range (- 180) (Lon (Location e)) 180
     \<and> (EventType e = ''HEARTBEAT'' \<longrightarrow> ConnectorID e = 0)
     \<and> (EventType e = ''HEARTBEAT'' \<or> 1 \<le> ConnectorID e \<and> ConnectorID e \<le> numConnectors meta)
     \<and> (case Meter e of None \<Rightarrow> True | Some m \<Rightarrow> meter_ok m)"


text \<open>A demonstration roster and payload; \<open>!\<close> stands for the double quote.\<close>

definition demo_reg :: Registry where
  "demo_reg = \<lparr>snap = demo_snap\<rparr>"

definition demo_json :: "string \<Rightarrow> bytes" where
  "demo_json s = map (\<lambda>c. if c = CHR ''!'' then CHR 0x22 else c) s"

definition demo_uuid :: string where
  "demo_uuid = ''0f8fad5b-d9cb-469f-a165-70867728950e''"

definition demo_payload :: bytes where
  "demo_payload = demo_json (''{!event_id!:!'' @ demo_uuid @ ''!,!event_type!:!STATUS_CHANGE!,!station_id!:!ST-1!,!connector_id!:3,!timestamp!:!2026-01-02T03:04:05.678Z!,!operator_id!:!op!,!location!:{!lat!:52,!lon!:13,!city!:!Berlin!,!country!:!DE!},!status!:!Faulted!}'')"

definition demo_event :: Event where
  "demo_event = zero_Event\<lparr>EventID := demo_uuid, EventType := ''STATUS_CHANGE'', StationID := ''ST-1'',
     ConnectorID := 3, Timestamp := ''2026-01-02T03:04:05.678Z'', OperatorID := ''op'',
     Location := \<lparr>Lat = Fin 52, Lon = Fin 13, City = ''Berlin'', Country = ''DE''\<rparr>, Status := ''Faulted''\<rparr>"

lemma demo_Decode: "Decode demo_payload = Inr demo_event"
  by code_simp

lemma demo_Validate: "Validate demo_event demo_reg demo_reg = Inr 1767323045678000000"
  by code_simp


definition demo_tariff_event :: Event where
  "demo_tariff_event = demo_event\<lparr>TariffID := ''T1''\<rparr>"

definition reg_before :: Registry where
  "reg_before = \<lparr>snap = demo_snap\<lparr>tariffs := []\<rparr>\<rparr>"

definition reg_after :: Registry where
  "reg_after = \<lparr>snap = demo_snap\<lparr>stations := [(''ST-2'', demo_meta)]\<rparr>\<rparr>"

lemma demo_before: "verdict (Validate demo_tariff_event reg_before reg_before) = Some ''unknown_tariff''"
  by code_simp

lemma demo_after: "verdict (Validate demo_tariff_event reg_after reg_after) = Some ''unknown_station''"
  by code_simp

lemma demo_mixed: "verdict (Validate demo_tariff_event reg_before reg_after) = None"
  by code_simp

text \<open>
  C21: The two registry reads of one \<^verbatim>\<open>Validate\<close> call can straddle a refresh: an event
  that both the old and the new roster reject is accepted when the swap falls between the station
  lookup and the tariff lookup.
\<close>

theorem Validate_straddles_refresh:
  "\<exists>e reg reg'. verdict (Validate e reg reg) = Some ''unknown_tariff''
     \<and> verdict (Validate e reg' reg') = Some ''unknown_station'' \<and> verdict (Validate e reg reg') = None"
  using demo_before demo_after demo_mixed by blast

lemma demo_wide: "Validate (demo_event\<lparr>ConnectorID := 256\<rparr>)
    \<lparr>snap = \<lparr>stations = [(''ST-1'', demo_meta\<lparr>numConnectors := 300\<rparr>)], tariffs = []\<rparr>\<rparr> demo_reg
      = Inr 1767323045678000000"
  by code_simp

text \<open>
  The connector check bounds the connector by the roster's count only, so that it keeps the
  \<^verbatim>\<open>UInt8\<close> column of ClickHouse safe exactly when no station of the roster has more than
  255 connectors: with such a roster every accepted connector fits, and with a larger station
  connector 256 is accepted.
\<close>

theorem connector_fits_uint8:
  "(\<forall>e reg reg' ts. Validate e reg reg' = Inr ts
      \<longrightarrow> list_all (\<lambda>(sid, meta). numConnectors meta \<le> 255) (stations (snap reg))
      \<longrightarrow> 0 \<le> ConnectorID e \<and> ConnectorID e \<le> 255)
   \<and> (\<exists>e reg reg' ts. Validate e reg reg' = Inr ts \<and> 255 < ConnectorID e)"
proof (intro conjI allI impI)
  fix e reg reg' ts
  assume v: "Validate e reg reg' = Inr ts"
    and le: "list_all (\<lambda>(sid, meta). numConnectors meta \<le> 255) (stations (snap reg))"
  from v obtain meta where meta: "StationMeta reg (StationID e) = Some meta"
    and c: "EventType e = ''HEARTBEAT'' \<longrightarrow> ConnectorID e = 0"
      "EventType e = ''HEARTBEAT'' \<or> 1 \<le> ConnectorID e \<and> ConnectorID e \<le> numConnectors meta"
    by (rule Validate_station)
  from meta le have "numConnectors meta \<le> 255"
    by (auto simp: StationMeta_def list_all_iff dest: map_of_SomeD)
  with c show "0 \<le> ConnectorID e" "ConnectorID e \<le> 255" by auto
next
  have "255 < ConnectorID (demo_event\<lparr>ConnectorID := 256\<rparr>)" by simp
  then show "\<exists>e reg reg' ts. Validate e reg reg' = Inr ts \<and> 255 < ConnectorID e"
    using demo_wide by blast
qed

theorem connector_fits_uint8_witness:
  "0 \<le> ConnectorID demo_event \<and> ConnectorID demo_event \<le> 255"
proof -
  have "list_all (\<lambda>(sid, meta). numConnectors meta \<le> 255) (stations (snap demo_reg))"
    by (simp add: demo_reg_def demo_snap_def demo_meta_def)
  then show ?thesis using connector_fits_uint8 demo_Validate by blast
qed

end
