(* ===== verification/Kafka.thy ===== *)
theory Kafka
  imports Prelude
begin

text \<open>
  The interface to Kafka. Broker and client library are a parameter: a write of a list of keyed
  values to a topic returns whether it was acknowledged, and \<open>k_has\<close> observes what a topic holds.
  The locale states what the program relies on (synchronous writes with \<^verbatim>\<open>RequireAll\<close>): an
  acknowledged write is durable, topics only grow, and nothing appears that was not written. A
  write that fails may have left any part of its messages behind. The locale is interpreted on an
  in-memory broker with scripted failures.
\<close>

text \<open>A message fetched from the raw topic (\<^verbatim>\<open>kafka.Message\<close>), with its wall-clock produce time.\<close>

record kmessage =
  km_Key :: bytes
  km_Value :: bytes
  km_Time :: instant

record ('k, 'v) kafka =
  k_write :: "'k \<Rightarrow> string \<Rightarrow> (bytes \<times> 'v) list \<Rightarrow> 'k \<times> bool"
  k_has :: "'k \<Rightarrow> string \<Rightarrow> bytes \<times> 'v \<Rightarrow> bool"

locale kafka_log =
  fixes K :: "('k, 'v) kafka"
  assumes write_durable: "snd (k_write K k t msgs) \<Longrightarrow> m \<in> set msgs \<Longrightarrow> k_has K (fst (k_write K k t msgs)) t m"
    and write_keeps: "k_has K k t' m \<Longrightarrow> k_has K (fst (k_write K k t msgs)) t' m"
    and write_only: "k_has K (fst (k_write K k t msgs)) t' m \<Longrightarrow> k_has K k t' m \<or> (t' = t \<and> m \<in> set msgs)"

subsection \<open>An in-memory broker\<close>

record 'v broker =
  b_log :: "(string \<times> bytes \<times> 'v) list"
  b_faults :: "nat option list"

definition broker_empty :: "'v broker" where
  "broker_empty = \<lparr>b_log = [], b_faults = []\<rparr>"

definition broker_write :: "'v broker \<Rightarrow> string \<Rightarrow> (bytes \<times> 'v) list \<Rightarrow> 'v broker \<times> bool" where
  "broker_write b t msgs = (case b_faults b of
       Some n # fs \<Rightarrow> (b\<lparr>b_log := b_log b @ map (Pair t) (take n msgs), b_faults := fs\<rparr>, False)
     | fs \<Rightarrow> (b\<lparr>b_log := b_log b @ map (Pair t) msgs, b_faults := tl fs\<rparr>, True))"

definition mem_kafka :: "('v broker, 'v) kafka" where
  "mem_kafka = \<lparr>k_write = broker_write, k_has = (\<lambda>b t m. List.member (b_log b) (t, m))\<rparr>"

lemma mem_kafka_sel [simp]:
  "k_write mem_kafka = broker_write" "k_has mem_kafka b t m \<longleftrightarrow> (t, m) \<in> set (b_log b)"
  by (simp_all add: mem_kafka_def)

interpretation mem_broker: kafka_log mem_kafka
  by unfold_locales (auto simp: broker_write_def split: list.splits option.splits dest: in_set_takeD)

end
