(* ===== verification/ProcConfig.thy ===== *)
theory ProcConfig
  imports Prelude
begin

text \<open>
  \<^verbatim>\<open>processor/config.go\<close>. Reading the file and parsing the YAML are not part of the
  program: \<open>file\<close> is the content, or nothing when the read fails, and \<open>yaml\<close> the parser, which
  fills the struct or fails. \<^verbatim>\<open>LoadConfig\<close> then checks the brokers and fills in the
  defaults, in the order of the code.
\<close>

record KafkaConfig =
  kc_Brokers :: "string list"
  kc_TopicRaw :: string
  kc_TopicClean :: string
  kc_TopicDLQ :: string
  kc_GroupRealtime :: string
  kc_GroupAnalytics :: string
  kc_BatchSize :: int
  kc_LingerMs :: int

record RedisConfig =
  rc_Addr :: string
  rc_DedupAddr :: string

record MetricsConfig =
  mc_Listen :: string
  mc_Pprof :: bool

record WorkersConfig =
  wc_Realtime :: int
  wc_Analytics :: int

record AnalyticsConfig =
  ac_BatchSize :: int
  ac_FlushMs :: int

record RealtimeConfig =
  rt_BatchMaxMessages :: int
  rt_BatchMaxWaitMs :: int

record readerTuning =
  tn_MinBytes :: int
  tn_MaxWaitMs :: int

record ReadersConfig =
  rd_Realtime :: readerTuning
  rd_Analytics :: readerTuning

record Config =
  cf_Kafka :: KafkaConfig
  cf_Redis :: RedisConfig
  cf_PostgresDSN :: string
  cf_DedupTTLSec :: int
  cf_StateTTLSec :: int
  cf_Metrics :: MetricsConfig
  cf_Workers :: WorkersConfig
  cf_Analytics :: AnalyticsConfig
  cf_Realtime :: RealtimeConfig
  cf_Readers :: ReadersConfig
  cf_RefreshSec :: "int option"

datatype config_error = ReadConfig | ParseConfig | BrokersRequired

text \<open>\<^verbatim>\<open>if x <= 0 { x = def }\<close>\<close>

definition or_default :: "int \<Rightarrow> int \<Rightarrow> int" where
  "or_default def x = (if x \<le> 0 then def else x)"

definition default_dedup_addr :: "Config \<Rightarrow> Config" where
  "default_dedup_addr c =
     (if rc_DedupAddr (cf_Redis c) = [] then c\<lparr>cf_Redis := (cf_Redis c)\<lparr>rc_DedupAddr := rc_Addr (cf_Redis c)\<rparr>\<rparr> else c)"

definition default_limits :: "Config \<Rightarrow> Config" where
  "default_limits c = c\<lparr>
     cf_DedupTTLSec := or_default 120 (cf_DedupTTLSec c),
     cf_StateTTLSec := or_default 300 (cf_StateTTLSec c),
     cf_Workers := \<lparr>wc_Realtime = or_default 4 (wc_Realtime (cf_Workers c)),
                    wc_Analytics = or_default 6 (wc_Analytics (cf_Workers c))\<rparr>,
     cf_Kafka := (cf_Kafka c)\<lparr>kc_BatchSize := or_default 1000 (kc_BatchSize (cf_Kafka c))\<rparr>,
     cf_Analytics := \<lparr>ac_BatchSize = or_default 500 (ac_BatchSize (cf_Analytics c)),
                      ac_FlushMs = or_default 100 (ac_FlushMs (cf_Analytics c))\<rparr>,
     cf_Realtime := \<lparr>rt_BatchMaxMessages = or_default 750 (rt_BatchMaxMessages (cf_Realtime c)),
                     rt_BatchMaxWaitMs = or_default 25 (rt_BatchMaxWaitMs (cf_Realtime c))\<rparr>,
     cf_Readers := \<lparr>
       rd_Realtime = \<lparr>tn_MinBytes = or_default 1 (tn_MinBytes (rd_Realtime (cf_Readers c))),
                      tn_MaxWaitMs = or_default 50 (tn_MaxWaitMs (rd_Realtime (cf_Readers c)))\<rparr>,
       rd_Analytics = \<lparr>tn_MinBytes = or_default 10000 (tn_MinBytes (rd_Analytics (cf_Readers c))),
                       tn_MaxWaitMs = or_default 1000 (tn_MaxWaitMs (rd_Analytics (cf_Readers c)))\<rparr>\<rparr>\<rparr>"

definition default_refresh :: "Config \<Rightarrow> Config" where
  "default_refresh c = (case cf_RefreshSec c of None \<Rightarrow> c\<lparr>cf_RefreshSec := Some 300\<rparr> | Some _ \<Rightarrow> c)"

definition default_listen :: "Config \<Rightarrow> Config" where
  "default_listen c =
     (if mc_Listen (cf_Metrics c) = [] then c\<lparr>cf_Metrics := (cf_Metrics c)\<lparr>mc_Listen := '':9102''\<rparr>\<rparr> else c)"

definition fill_defaults :: "Config \<Rightarrow> Config" where
  "fill_defaults c = default_listen (default_refresh (default_limits (default_dedup_addr c)))"

definition LoadConfig :: "(bytes \<Rightarrow> Config option) \<Rightarrow> bytes option \<Rightarrow> config_error + Config" where
  "LoadConfig yaml file = (case file of
       None \<Rightarrow> Inl ReadConfig
     | Some b \<Rightarrow> (case yaml b of
           None \<Rightarrow> Inl ParseConfig
         | Some c \<Rightarrow> if kc_Brokers (cf_Kafka c) = [] then Inl BrokersRequired else Inr (fill_defaults c)))"

subsection \<open>What a loaded configuration guarantees\<close>

definition config_ok :: "Config \<Rightarrow> bool" where
  "config_ok c \<longleftrightarrow> kc_Brokers (cf_Kafka c) \<noteq> [] \<and> 0 < cf_DedupTTLSec c \<and> 0 < cf_StateTTLSec c
     \<and> 0 < wc_Realtime (cf_Workers c) \<and> 0 < wc_Analytics (cf_Workers c) \<and> 0 < kc_BatchSize (cf_Kafka c)
     \<and> 0 < ac_BatchSize (cf_Analytics c) \<and> 0 < ac_FlushMs (cf_Analytics c)
     \<and> 0 < rt_BatchMaxMessages (cf_Realtime c) \<and> 0 < rt_BatchMaxWaitMs (cf_Realtime c)
     \<and> 0 < tn_MinBytes (rd_Realtime (cf_Readers c)) \<and> 0 < tn_MaxWaitMs (rd_Realtime (cf_Readers c))
     \<and> 0 < tn_MinBytes (rd_Analytics (cf_Readers c)) \<and> 0 < tn_MaxWaitMs (rd_Analytics (cf_Readers c))
     \<and> cf_RefreshSec c \<noteq> None \<and> mc_Listen (cf_Metrics c) \<noteq> []"

lemma or_default_pos: "0 < d \<Longrightarrow> 0 < or_default d x"
  by (simp add: or_default_def)

lemma or_default_keep: "0 < x \<Longrightarrow> or_default d x = x"
  by (simp add: or_default_def)

lemma default_dedup_addr_sel [simp]:
  "cf_Kafka (default_dedup_addr c) = cf_Kafka c" "cf_DedupTTLSec (default_dedup_addr c) = cf_DedupTTLSec c" "cf_StateTTLSec (default_dedup_addr c) = cf_StateTTLSec c" "cf_Metrics (default_dedup_addr c) = cf_Metrics c" "cf_Workers (default_dedup_addr c) = cf_Workers c" "cf_Analytics (default_dedup_addr c) = cf_Analytics c" "cf_Realtime (default_dedup_addr c) = cf_Realtime c" "cf_Readers (default_dedup_addr c) = cf_Readers c" "cf_RefreshSec (default_dedup_addr c) = cf_RefreshSec c"
  by (simp_all add: default_dedup_addr_def)

lemma default_refresh_sel [simp]:
  "cf_Kafka (default_refresh c) = cf_Kafka c" "cf_Redis (default_refresh c) = cf_Redis c" "cf_DedupTTLSec (default_refresh c) = cf_DedupTTLSec c" "cf_StateTTLSec (default_refresh c) = cf_StateTTLSec c" "cf_Metrics (default_refresh c) = cf_Metrics c" "cf_Workers (default_refresh c) = cf_Workers c" "cf_Analytics (default_refresh c) = cf_Analytics c" "cf_Realtime (default_refresh c) = cf_Realtime c" "cf_Readers (default_refresh c) = cf_Readers c"
  "cf_RefreshSec (default_refresh c) = Some (case cf_RefreshSec c of None \<Rightarrow> 300 | Some n \<Rightarrow> n)"
  by (simp_all add: default_refresh_def split: option.split)

lemma default_listen_sel [simp]:
  "cf_Kafka (default_listen c) = cf_Kafka c" "cf_Redis (default_listen c) = cf_Redis c" "cf_DedupTTLSec (default_listen c) = cf_DedupTTLSec c" "cf_StateTTLSec (default_listen c) = cf_StateTTLSec c" "cf_Workers (default_listen c) = cf_Workers c" "cf_Analytics (default_listen c) = cf_Analytics c" "cf_Realtime (default_listen c) = cf_Realtime c" "cf_Readers (default_listen c) = cf_Readers c" "cf_RefreshSec (default_listen c) = cf_RefreshSec c"
  "mc_Listen (cf_Metrics (default_listen c)) \<noteq> []"
  by (simp_all add: default_listen_def)

lemma fill_defaults_ok: "kc_Brokers (cf_Kafka c) \<noteq> [] \<Longrightarrow> config_ok (fill_defaults c)"
  unfolding config_ok_def fill_defaults_def by (simp add: default_limits_def or_default_pos)

lemma fill_defaults_keeps:
  assumes "config_ok c" "rc_DedupAddr (cf_Redis c) \<noteq> []"
  shows "fill_defaults c = c"
proof -
  have "default_dedup_addr c = c" using assms(2) by (simp add: default_dedup_addr_def)
  moreover have "default_limits c = c"
    using assms(1) by (simp add: default_limits_def config_ok_def or_default_keep)
  moreover have "default_refresh c = c" "default_listen c = c"
    using assms(1) by (auto simp: default_refresh_def default_listen_def config_ok_def)
  ultimately show ?thesis by (simp add: fill_defaults_def)
qed


definition demo_config :: Config where
  "demo_config = \<lparr>cf_Kafka = \<lparr>kc_Brokers = [''redpanda:9092''], kc_TopicRaw = ''charging-events-raw'',
       kc_TopicClean = ''charging-events-clean'', kc_TopicDLQ = ''charging-events-dlq'', kc_GroupRealtime = ''rt'',
       kc_GroupAnalytics = ''an'', kc_BatchSize = 0, kc_LingerMs = 5\<rparr>,
     cf_Redis = \<lparr>rc_Addr = ''redis:6379'', rc_DedupAddr = []\<rparr>, cf_PostgresDSN = [], cf_DedupTTLSec = 0, cf_StateTTLSec = 60,
     cf_Metrics = \<lparr>mc_Listen = [], mc_Pprof = False\<rparr>, cf_Workers = \<lparr>wc_Realtime = 0, wc_Analytics = 2\<rparr>,
     cf_Analytics = \<lparr>ac_BatchSize = 3, ac_FlushMs = 0\<rparr>, cf_Realtime = \<lparr>rt_BatchMaxMessages = 0, rt_BatchMaxWaitMs = 0\<rparr>,
     cf_Readers = \<lparr>rd_Realtime = \<lparr>tn_MinBytes = 0, tn_MaxWaitMs = 0\<rparr>, rd_Analytics = \<lparr>tn_MinBytes = 0, tn_MaxWaitMs = 0\<rparr>\<rparr>,
     cf_RefreshSec = Some 0\<rparr>"


end
