(* ===== verification/Writers.thy ===== *)
theory Writers
  imports Validate Kafka ProcConfig
begin

text \<open>
  \<^verbatim>\<open>processor/producer.go\<close>: the clean and the dead-letter producer. A row is a document, the list of
  its columns, which \<^verbatim>\<open>json.Marshal\<close> renders to bytes; it fails on a NaN or an infinity and on
  nothing else.
  Shown: every row of a decoded event can be marshalled, so a write fails only at the broker; the bytes
  of a row parse back to its columns, invalid UTF-8 replaced.
\<close>

datatype jscalar = SStr string | SInt int | SFloat float64 | SUint8 "8 word"

type_synonym document = "(string \<times> jscalar) list"

record kafkaWriter =
  kw_Addr :: "string list"
  kw_Topic :: string
  kw_BatchSize :: int
  kw_BatchTimeout :: duration
  kw_RequireAll :: bool
  kw_Async :: bool

record Writers =
  w_clean :: kafkaWriter
  w_dlq :: kafkaWriter

definition mk_writer :: "Config \<Rightarrow> string \<Rightarrow> int \<Rightarrow> kafkaWriter" where
  "mk_writer cfg topic batchSize = \<lparr>kw_Addr = kc_Brokers (cf_Kafka cfg), kw_Topic = topic, kw_BatchSize = batchSize,
     kw_BatchTimeout = wrap64 (kc_LingerMs (cf_Kafka cfg) * millisecond), kw_RequireAll = True, kw_Async = False\<rparr>"

definition NewWriters :: "Config \<Rightarrow> Writers" where
  "NewWriters cfg =
     (let cleanBatch = kc_BatchSize (cf_Kafka cfg);
          cleanBatch = (if cleanBatch < ac_BatchSize (cf_Analytics cfg) then ac_BatchSize (cf_Analytics cfg) else cleanBatch)
      in \<lparr>w_clean = mk_writer cfg (kc_TopicClean (cf_Kafka cfg)) cleanBatch,
          w_dlq = mk_writer cfg (kc_TopicDLQ (cf_Kafka cfg)) (kc_BatchSize (cf_Kafka cfg))\<rparr>)"

definition clean_document :: "CleanEvent \<Rightarrow> document" where
  "clean_document ce =
     [(''event_id'', SStr (ce_EventID ce)), (''event_type'', SStr (ce_EventType ce)),
      (''station_id'', SStr (ce_StationID ce)), (''connector_id'', SInt (ce_ConnectorID ce)),
      (''session_id'', SStr (ce_SessionID ce)), (''timestamp'', SStr (ce_Timestamp ce)),
      (''ingested_at'', SStr (ce_IngestedAt ce)), (''produced_at'', SStr (ce_ProducedAt ce)),
      (''operator_id'', SStr (ce_OperatorID ce)), (''lat'', SFloat (ce_Lat ce)), (''lon'', SFloat (ce_Lon ce)),
      (''city'', SStr (ce_City ce)), (''country'', SStr (ce_Country ce)),
      (''power_kw'', SFloat (ce_PowerKW ce)), (''energy_kwh'', SFloat (ce_EnergyKWh ce)),
      (''voltage_v'', SFloat (ce_VoltageV ce)), (''current_a'', SFloat (ce_CurrentA ce)),
      (''soc_percent'', SInt (ce_SocPercent ce)), (''vehicle_brand'', SStr (ce_VehicleBrand ce)),
      (''vehicle_model'', SStr (ce_VehicleModel ce)), (''ev_id'', SStr (ce_EvID ce)),
      (''tariff_id'', SStr (ce_TariffID ce)), (''cost_eur'', SFloat (ce_CostEur ce)),
      (''error_code'', SStr (ce_ErrorCode ce)), (''component'', SStr (ce_Component ce)),
      (''status'', SStr (ce_Status ce)), (''is_peak_priced'', SUint8 (ce_IsPeakPriced ce))]"

fun scalar_ok :: "jscalar \<Rightarrow> bool" where
  "scalar_ok (SFloat x) = finite_f64 x"
| "scalar_ok _ = True"

fun enc_scalar :: "jscalar \<Rightarrow> json" where
  "enc_scalar (SStr s) = JStr s"
| "enc_scalar (SInt i) = JNum (strconv_Itoa i)"
| "enc_scalar (SFloat x) = JNum (enc_float x)"
| "enc_scalar (SUint8 w) = JNum (strconv_Itoa (uint w))"

definition enc_document :: "document \<Rightarrow> bytes" where
  "enc_document d = enc_json (JObj (map (map_prod id enc_scalar) d))"

definition Marshal :: "document \<Rightarrow> bytes option" where
  "Marshal d = (if list_all (\<lambda>fv. scalar_ok (snd fv)) d then Some (enc_document d) else None)"

fun marshal_all :: "(bytes \<times> document) list \<Rightarrow> (bytes \<times> bytes) list option" where
  "marshal_all [] = Some []"
| "marshal_all ((key, d) # ms) = (case Marshal d of
      None \<Rightarrow> None
    | Some b \<Rightarrow> map_option (Cons (key, b)) (marshal_all ms))"

definition WriteMessages :: "('k, bytes) kafka \<Rightarrow> kafkaWriter \<Rightarrow> (bytes \<times> bytes) list option \<Rightarrow> 'k \<Rightarrow> 'k \<times> bool" where
  "WriteMessages K w msgs k = (case msgs of None \<Rightarrow> (k, False) | Some ms \<Rightarrow> k_write K k (kw_Topic w) ms)"

definition WriteCleanBatch :: "('k, bytes) kafka \<Rightarrow> Writers \<Rightarrow> CleanEvent list \<Rightarrow> 'k \<Rightarrow> 'k \<times> bool" where
  "WriteCleanBatch K w events k =
     (if events = [] then (k, True)
      else WriteMessages K (w_clean w) (marshal_all (map (\<lambda>ce. (ce_StationID ce, clean_document ce)) events)) k)"

record dlqItem =
  di_Key :: bytes
  di_Raw :: bytes
  di_Rule :: string
  di_Error :: string

definition dlq_document :: "dlqItem \<Rightarrow> instant \<Rightarrow> document" where
  "dlq_document it ingestedAt =
     [(''raw_payload'', SStr (di_Raw it)), (''error'', SStr (di_Error it)), (''ingested_at'', SStr (format_ms ingestedAt))]"

definition WriteDLQBatch :: "('k, bytes) kafka \<Rightarrow> Writers \<Rightarrow> dlqItem list \<Rightarrow> instant \<Rightarrow> 'k \<Rightarrow> 'k \<times> bool" where
  "WriteDLQBatch K w items ingestedAt k =
     (if items = [] then (k, True)
      else WriteMessages K (w_dlq w) (marshal_all (map (\<lambda>it. (di_Key it, dlq_document it ingestedAt)) items)) k)"

text \<open>\<^verbatim>\<open>Close\<close> closes both writers and reports the first error.\<close>

definition Close :: "(kafkaWriter \<Rightarrow> 'e option) \<Rightarrow> Writers \<Rightarrow> 'e option" where
  "Close close w = (let err = close (w_clean w); err2 = close (w_dlq w) in if err2 \<noteq> None \<and> err = None then err2 else err)"

lemma Close_reports: "Close close w = None \<longleftrightarrow> close (w_clean w) = None \<and> close (w_dlq w) = None"
  by (auto simp: Close_def Let_def)

subsection \<open>Marshalling\<close>

lemma marshal_all_eq:
  "marshal_all ms = (if list_all (\<lambda>kd. list_all (\<lambda>fv. scalar_ok (snd fv)) (snd kd)) ms
     then Some (map (map_prod id enc_document) ms) else None)"
  by (induction ms rule: marshal_all.induct) (auto simp: Marshal_def)

definition clean_floats :: "(float64 \<Rightarrow> bool) \<Rightarrow> CleanEvent \<Rightarrow> bool" where
  "clean_floats P ce \<longleftrightarrow> P (ce_Lat ce) \<and> P (ce_Lon ce) \<and> P (ce_PowerKW ce)
     \<and> P (ce_EnergyKWh ce) \<and> P (ce_VoltageV ce) \<and> P (ce_CurrentA ce) \<and> P (ce_CostEur ce)"

lemma clean_document_ok: "list_all (\<lambda>fv. scalar_ok (snd fv)) (clean_document ce) \<longleftrightarrow> clean_floats finite_f64 ce"
  by (auto simp: clean_document_def clean_floats_def)

lemma Flatten_floats: "event_floats P e \<Longrightarrow> P 0 \<Longrightarrow> clean_floats P (Flatten e t)"
  by (auto simp: clean_floats_def event_floats_def location_floats_def meter_floats_def split: option.splits)

text \<open>A row that can be written and whose id survives the encoding.\<close>

definition row_ok :: "CleanEvent \<Rightarrow> bool" where
  "row_ok ce \<longleftrightarrow> clean_floats good_f64 ce \<and> valid_utf8 (ce_EventID ce)"

lemma row_ok_finite: "row_ok ce \<Longrightarrow> clean_floats finite_f64 ce"
  by (simp add: row_ok_def clean_floats_def good_f64_def)

definition clean_bytes :: "CleanEvent \<Rightarrow> bytes" where
  "clean_bytes ce = enc_document (clean_document ce)"

definition dlq_bytes :: "dlqItem \<Rightarrow> instant \<Rightarrow> bytes" where
  "dlq_bytes it t = enc_document (dlq_document it t)"

lemma marshal_clean:
  assumes "list_all row_ok ces"
  shows "marshal_all (map (\<lambda>ce. (ce_StationID ce, clean_document ce)) ces) = Some (map (\<lambda>ce. (ce_StationID ce, clean_bytes ce)) ces)"
proof -
  have "list_all (\<lambda>kd. list_all (\<lambda>fv. scalar_ok (snd fv)) (snd kd)) (map (\<lambda>ce. (ce_StationID ce, clean_document ce)) ces)"
    using assms by (induction ces) (simp_all add: clean_document_ok row_ok_finite)
  then show ?thesis by (simp only: marshal_all_eq if_True) (simp add: clean_bytes_def)
qed

lemma marshal_dlq:
  "marshal_all (map (\<lambda>it. (di_Key it, dlq_document it t)) items) = Some (map (\<lambda>it. (di_Key it, dlq_bytes it t)) items)"
proof -
  have "list_all (\<lambda>kd. list_all (\<lambda>fv. scalar_ok (snd fv)) (snd kd)) (map (\<lambda>it. (di_Key it, dlq_document it t)) items)"
    by (simp add: list_all_iff dlq_document_def)
  then show ?thesis by (simp only: marshal_all_eq if_True) (simp add: dlq_bytes_def)
qed

lemma WriteCleanBatch_eq:
  "list_all row_ok ces \<Longrightarrow> WriteCleanBatch K w ces k =
     (if ces = [] then (k, True)
      else k_write K k (kw_Topic (w_clean w)) (map (\<lambda>ce. (ce_StationID ce, clean_bytes ce)) ces))"
  by (simp add: WriteCleanBatch_def WriteMessages_def marshal_clean)

lemma WriteDLQBatch_eq:
  "WriteDLQBatch K w items t k =
     (if items = [] then (k, True)
      else k_write K k (kw_Topic (w_dlq w)) (map (\<lambda>it. (di_Key it, dlq_bytes it t)) items))"
  by (simp add: WriteDLQBatch_def WriteMessages_def marshal_dlq)

text \<open>A dead letter holds its payload escaped, which can be six times as long.\<close>

lemma dlq_bytes_length: "length (appendString (di_Raw it)) < length (dlq_bytes it t)"
  by (simp add: dlq_bytes_def enc_document_def dlq_document_def enc_member_def quoted_def)

lemma appendString_angles: "length (appendString (replicate n (CHR ''<''))) = 6 * n"
proof (induction n)
  case (Suc n)
  have "esc_step (CHR ''<'' # r) = (CHR 0x5C # ''u003c'', r)" for r by (simp add: esc_step_def) code_simp
  then show ?case using Suc by (simp add: appendString.simps [of "CHR ''<'' # _"])
qed simp

subsection \<open>Reading rows back\<close>

text \<open>
  The payload column is not the payload itself: an invalid byte is replaced, so that two payloads can
  give the same dead letter.
\<close>

theorem dead_letter_collapses:
  "dlq_bytes \<lparr>di_Key = k, di_Raw = [CHR 0xFF], di_Rule = r, di_Error = e\<rparr> t =
   dlq_bytes \<lparr>di_Key = k, di_Raw = [CHR 0xFE], di_Rule = r, di_Error = e\<rparr> t"
proof -
  have "appendString [CHR 0xFF] = appendString [CHR 0xFE]" by code_simp
  then show ?thesis by (simp add: dlq_bytes_def enc_document_def dlq_document_def enc_member_def quoted_def)
qed

text \<open>A column of a row as a reader of the topic finds it.\<close>

definition column :: "string \<Rightarrow> bytes \<Rightarrow> json option" where
  "column k b = (case json_parse b of Some (JObj ms) \<Rightarrow> map_of ms k | _ \<Rightarrow> None)"

definition scalar_good :: "jscalar \<Rightarrow> bool" where
  "scalar_good v \<longleftrightarrow> (case v of SFloat x \<Rightarrow> good_f64 x | _ \<Rightarrow> True)"

lemma parse_document:
  assumes "list_all (\<lambda>fv. scalar_good (snd fv)) d"
  shows "json_parse (enc_document d) = Some (JObj (map (map_prod to_valid (tidy \<circ> enc_scalar)) d))"
proof -
  have n: "max_nesting = Suc 9999" by (simp add: max_nesting_def)
  have "json_ok k (enc_scalar v)" if "scalar_good v" for k v
    using that by (cases v) (simp_all add: scalar_good_def good_f64_def is_literal_num)
  then have "json_ok max_nesting (JObj (map (map_prod id enc_scalar) d))"
    using assms unfolding n json_ok.simps by (auto simp: list_all_iff)
  from json_parse_enc [OF this] show ?thesis by (simp add: enc_document_def prod.map_comp comp_def map_prod_def case_prod_beta)
qed

lemma column_event_id: "row_ok ce \<Longrightarrow> column ''event_id'' (clean_bytes ce) = Some (JStr (ce_EventID ce))"
proof -
  assume ok: "row_ok ce"
  then have "list_all (\<lambda>fv. scalar_good (snd fv)) (clean_document ce)"
    by (simp add: clean_document_def scalar_good_def row_ok_def clean_floats_def)
  from parse_document [OF this] ok show ?thesis
    by (simp add: column_def clean_bytes_def clean_document_def to_valid_ascii row_ok_def valid_utf8_def)
qed

lemma column_raw_payload: "column ''raw_payload'' (dlq_bytes it t) = Some (JStr (to_valid (di_Raw it)))"
proof -
  have "list_all (\<lambda>fv. scalar_good (snd fv)) (dlq_document it t)" by (simp add: dlq_document_def scalar_good_def)
  from parse_document [OF this] show ?thesis
    by (simp add: column_def dlq_bytes_def dlq_document_def to_valid_ascii)
qed

text \<open>
  The clean writer never splits a flush: its batch size is at least the analytics batch size.
\<close>

theorem NewWriters_batch:
  "ac_BatchSize (cf_Analytics cfg) \<le> kw_BatchSize (w_clean (NewWriters cfg))
   \<and> kc_BatchSize (cf_Kafka cfg) \<le> kw_BatchSize (w_clean (NewWriters cfg))
   \<and> kw_BatchSize (w_dlq (NewWriters cfg)) = kc_BatchSize (cf_Kafka cfg)"
  by (simp add: NewWriters_def mk_writer_def Let_def)

end
