(* ===== verification/Redis.thy ===== *)
theory Redis
  imports Float64 "HOL-Library.AList"
begin

text \<open>
  The interface to Redis. The server, its Lua interpreter and the client library are not part
  of the program, so they are a parameter: a record of the operations the program reaches on a
  server state \<open>'r\<close>. What the program relies on is stated by two locales, one for the hashes of
  the current state and one for the keys of the dedup window; both are interpreted on an
  in-memory server with expiry and lost replies, which the examples use.

  Everything on the wire is a byte string: an argument is rendered by the client
  (\<open>append_arg\<close>), integers in decimal, text as it is, and a \<^verbatim>\<open>float64\<close> by the
  client's formatter, a field of the interface.
  A round trip first calls \<open>r_trip\<close> with the number of commands it carries: time passes and
  keys may expire, and the trip may fail. \<open>Some k\<close> means that the client sees an error although
  the first \<open>k\<close> commands took effect.
\<close>

record 'r redis =
  r_trip :: "'r \<Rightarrow> nat \<Rightarrow> nat option \<times> 'r"
  r_hget :: "'r \<Rightarrow> string \<Rightarrow> string \<Rightarrow> bytes option"
  r_hset :: "'r \<Rightarrow> string \<Rightarrow> (string \<times> bytes) list \<Rightarrow> 'r"
  r_pexpire :: "'r \<Rightarrow> string \<Rightarrow> bytes \<Rightarrow> 'r"
  r_pttl :: "'r \<Rightarrow> string \<Rightarrow> int option"
  r_exists :: "'r \<Rightarrow> string \<Rightarrow> bool"
  r_set :: "'r \<Rightarrow> string \<Rightarrow> bytes \<Rightarrow> duration \<Rightarrow> 'r"
  lua_tonumber :: "bytes \<Rightarrow> float64 option"
  fmt_float :: "float64 \<Rightarrow> bytes"

datatype redis_arg = ArgStr string | ArgInt int | ArgFloat float64

fun append_arg :: "'r redis \<Rightarrow> redis_arg \<Rightarrow> bytes" where
  "append_arg R (ArgStr s) = s"
| "append_arg R (ArgInt i) = strconv_Itoa i"
| "append_arg R (ArgFloat x) = fmt_float R x"

text \<open>
  \<^verbatim>\<open>pipe.Exec\<close>: the queued commands run in order in one round trip; a failed trip
  reports no result.
\<close>

fun run_cmds :: "('r \<Rightarrow> 'r \<times> 'a) list \<Rightarrow> 'r \<Rightarrow> 'r \<times> 'a list" where
  "run_cmds [] r = (r, [])"
| "run_cmds (c # cs) r = (let (r1, x) = c r; (r2, xs) = run_cmds cs r1 in (r2, x # xs))"

definition pipe_exec :: "'r redis \<Rightarrow> ('r \<Rightarrow> 'r \<times> 'a) list \<Rightarrow> 'r \<Rightarrow> 'r \<times> 'a list option" where
  "pipe_exec R cs r = (case r_trip R r (length cs) of
       (Some k, r1) \<Rightarrow> (fst (run_cmds (take k cs) r1), None)
     | (None, r1) \<Rightarrow> (case run_cmds cs r1 of (r2, xs) \<Rightarrow> (r2, Some xs)))"

lemma run_cmds_Cons [simp]:
  "fst (run_cmds (c # cs) r) = fst (run_cmds cs (fst (c r)))"
  "snd (run_cmds (c # cs) r) = snd (c r) # snd (run_cmds cs (fst (c r)))"
  by (simp_all split: prod.split)

declare run_cmds.simps(2) [simp del]

lemma run_cmds_length [simp]: "length (snd (run_cmds cs r)) = length cs"
  by (induction cs arbitrary: r) simp_all

lemma run_cmds_append: "fst (run_cmds (cs @ ds) r) = fst (run_cmds ds (fst (run_cmds cs r)))"
  by (induction cs arbitrary: r) simp_all

lemma run_cmds_keeps:
  assumes "\<And>c r. c \<in> set cs \<Longrightarrow> P r \<Longrightarrow> P (fst (c r))" "P r"
  shows "P (fst (run_cmds cs r))"
  using assms by (induction cs arbitrary: r) simp_all

lemma pipe_exec_simps:
  "fst (pipe_exec R cs r) = (case fst (r_trip R r (length cs)) of
       Some k \<Rightarrow> fst (run_cmds (take k cs) (snd (r_trip R r (length cs))))
     | None \<Rightarrow> fst (run_cmds cs (snd (r_trip R r (length cs)))))"
  "snd (pipe_exec R cs r) = (case fst (r_trip R r (length cs)) of
       Some k \<Rightarrow> None
     | None \<Rightarrow> Some (snd (run_cmds cs (snd (r_trip R r (length cs))))))"
  by (simp_all add: pipe_exec_def split: prod.split option.split)

text \<open>A pipeline, failed or not, ran a prefix of its commands; one that succeeds ran them all.\<close>

lemma pipe_exec_prefix:
  obtains n where "fst (pipe_exec R cs r) = fst (run_cmds (take n cs) (snd (r_trip R r (length cs))))"
    "snd (pipe_exec R cs r) \<noteq> None \<Longrightarrow> n = length cs"
proof (cases "fst (r_trip R r (length cs))")
  case None
  then show thesis using that [of "length cs"] by (simp add: pipe_exec_simps)
next
  case (Some k)
  then show thesis using that [of k] by (simp add: pipe_exec_simps)
qed

text \<open>Whatever the commands and the trip keep, a pipeline keeps.\<close>

lemma pipe_exec_keeps:
  assumes "\<And>c r. c \<in> set cs \<Longrightarrow> P r \<Longrightarrow> P (fst (c r))" "\<And>n. P (snd (r_trip R r n))"
  shows "P (fst (pipe_exec R cs r))"
proof -
  obtain n where "fst (pipe_exec R cs r) = fst (run_cmds (take n cs) (snd (r_trip R r (length cs))))"
    by (rule pipe_exec_prefix)
  moreover have "P (fst (run_cmds (take n cs) (snd (r_trip R r (length cs)))))"
    by (rule run_cmds_keeps [where P = P]) (use assms in_set_takeD in metis)+
  ultimately show ?thesis by simp
qed

subsection \<open>Hashes\<close>

text \<open>
  What the current-state store relies on. A trip keeps a hash or loses it as a whole (expiry).
  \<open>tonumber\<close> reads a decimal integer as the nearest binary64.
\<close>

locale redis_hash =
  fixes R :: "'r redis"
  assumes hget_hset: "r_hget R (r_hset R r k fvs) k' =
      (if k' = k then r_hget R r k ++ map_of (rev fvs) else r_hget R r k')"
    and hget_pexpire: "0 < ms \<Longrightarrow> r_hget R (r_pexpire R r k (strconv_Itoa ms)) = r_hget R r"
    and hget_trip: "r_hget R (snd (r_trip R r n)) k = r_hget R r k \<or> r_hget R (snd (r_trip R r n)) k = Map.empty"
    and pttl_pexpire: "0 < ms \<Longrightarrow> r_pttl R (r_pexpire R r k (strconv_Itoa ms)) k = Some ms"
    and tonumber_Itoa: "lua_tonumber R (strconv_Itoa i) = Some (f64_of_int i)"

text \<open>A server on which no key expires while the program looks.\<close>

locale redis_hash_live = redis_hash +
  assumes hget_trip_live: "r_hget R (snd (r_trip R r n)) = r_hget R r"

subsection \<open>Keys of the dedup window\<close>

text \<open>
  What the correctness of the analytics path relies on: a key that is there was set. Expiry and
  eviction may remove keys at any time.
\<close>

locale redis_keys =
  fixes R :: "'r redis"
  assumes exists_set: "r_exists R (r_set R r k v ttl) k' \<Longrightarrow> k' = k \<or> r_exists R r k'"
    and exists_trip: "r_exists R (snd (r_trip R r n)) k \<Longrightarrow> r_exists R r k"

text \<open>What its effectiveness relies on: within the window and without eviction keys stay.\<close>

locale redis_keys_live = redis_keys +
  assumes exists_set_live: "0 < ttl \<Longrightarrow> k' = k \<or> r_exists R r k' \<Longrightarrow> r_exists R (r_set R r k v ttl) k'"
    and exists_trip_live: "r_exists R r k \<Longrightarrow> r_exists R (snd (r_trip R r n)) k"

subsection \<open>An in-memory server\<close>

text \<open>
  A server on which both interfaces hold. \<open>m_faults\<close> scripts the outcome of the coming round
  trips and \<open>m_drops\<close> the keys that expire or are evicted at each of them; without \<open>drops\<close>
  keys stay. The float formatter is a placeholder that keeps the integer part.
\<close>

record mem =
  m_hash :: "(string \<times> (string \<times> bytes) list) list"
  m_pttl :: "(string \<times> int) list"
  m_keys :: "string list"
  m_faults :: "nat option list"
  m_drops :: "string list list"

definition mem_empty :: mem where
  "mem_empty = \<lparr>m_hash = [], m_pttl = [], m_keys = [], m_faults = [], m_drops = []\<rparr>"

definition mem_drop :: "string list \<Rightarrow> mem \<Rightarrow> mem" where
  "mem_drop ks m = m\<lparr>m_hash := filter (\<lambda>(k, _). \<not> List.member ks k) (m_hash m),
     m_pttl := filter (\<lambda>(k, _). \<not> List.member ks k) (m_pttl m),
     m_keys := filter (\<lambda>k. \<not> List.member ks k) (m_keys m)\<rparr>"

definition mem_trip :: "bool \<Rightarrow> mem \<Rightarrow> nat \<Rightarrow> nat option \<times> mem" where
  "mem_trip drops m n =
     (let fault = (case m_faults m of [] \<Rightarrow> None | f # _ \<Rightarrow> f);
          gone = (case m_drops m of [] \<Rightarrow> [] | d # _ \<Rightarrow> if drops then d else []);
          m1 = (if gone = [] then m else mem_drop gone m)
      in (fault, m1\<lparr>m_faults := tl (m_faults m), m_drops := tl (m_drops m)\<rparr>))"

definition mem_hget :: "mem \<Rightarrow> string \<Rightarrow> string \<Rightarrow> bytes option" where
  "mem_hget m k = (case map_of (m_hash m) k of None \<Rightarrow> Map.empty | Some fvs \<Rightarrow> map_of fvs)"

definition mem_hset :: "mem \<Rightarrow> string \<Rightarrow> (string \<times> bytes) list \<Rightarrow> mem" where
  "mem_hset m k fvs = m\<lparr>m_hash := AList.update k
     (rev fvs @ (case map_of (m_hash m) k of None \<Rightarrow> [] | Some old \<Rightarrow> old)) (m_hash m)\<rparr>"

definition mem_pexpire :: "mem \<Rightarrow> string \<Rightarrow> bytes \<Rightarrow> mem" where
  "mem_pexpire m k b = (case dec_int b of None \<Rightarrow> m
     | Some ms \<Rightarrow> if 0 < ms then m\<lparr>m_pttl := AList.update k ms (m_pttl m)\<rparr> else mem_drop [k] m)"

definition mem_set :: "mem \<Rightarrow> string \<Rightarrow> bytes \<Rightarrow> duration \<Rightarrow> mem" where
  "mem_set m k v ttl = m\<lparr>m_keys := List.insert k (m_keys m)\<rparr>"

definition mem_tonumber :: "bytes \<Rightarrow> float64 option" where
  "mem_tonumber b = map_option f64_of_int (dec_int b)"

definition mem_redis :: "bool \<Rightarrow> mem redis" where
  "mem_redis drops = \<lparr>r_trip = mem_trip drops, r_hget = mem_hget, r_hset = mem_hset, r_pexpire = mem_pexpire,
     r_pttl = (\<lambda>m. map_of (m_pttl m)), r_exists = (\<lambda>m. List.member (m_keys m)), r_set = mem_set,
     lua_tonumber = mem_tonumber,
     fmt_float = (\<lambda>x. case x of Fin q \<Rightarrow> strconv_Itoa \<lfloor>q\<rfloor> | _ \<Rightarrow> ''NaN'')\<rparr>"

lemma mem_redis_sel [simp]:
  "r_trip (mem_redis d) = mem_trip d" "r_hget (mem_redis d) = mem_hget" "r_hset (mem_redis d) = mem_hset"
  "r_pexpire (mem_redis d) = mem_pexpire" "r_pttl (mem_redis d) m = map_of (m_pttl m)"
  "r_exists (mem_redis d) m k \<longleftrightarrow> k \<in> set (m_keys m)" "r_set (mem_redis d) = mem_set"
  "lua_tonumber (mem_redis d) = mem_tonumber"
  by (simp_all add: mem_redis_def)

lemma map_of_filter_keys:
  "map_of (filter (\<lambda>(k, _). k \<notin> set ks) xs) k = (if k \<in> set ks then None else map_of xs k)"
  by (induction xs) auto

lemma mem_hget_drop: "mem_hget (mem_drop ks m) k = (if k \<in> set ks then Map.empty else mem_hget m k)"
  by (simp add: mem_hget_def mem_drop_def map_of_filter_keys)

lemma mem_hget_hset:
  "mem_hget (mem_hset m k fvs) k' = (if k' = k then mem_hget m k ++ map_of (rev fvs) else mem_hget m k')"
  by (auto simp: mem_hget_def mem_hset_def update_conv' split: option.split)

lemma mem_hget_pexpire: "0 < ms \<Longrightarrow> mem_hget (mem_pexpire m k (strconv_Itoa ms)) = mem_hget m"
  by (simp add: mem_pexpire_def mem_hget_def fun_eq_iff)

lemma mem_pttl_pexpire: "0 < ms \<Longrightarrow> map_of (m_pttl (mem_pexpire m k (strconv_Itoa ms))) k = Some ms"
  by (simp add: mem_pexpire_def update_conv')

lemma mem_hget_trip: "mem_hget (snd (mem_trip d m n)) k = mem_hget m k \<or> mem_hget (snd (mem_trip d m n)) k = Map.empty"
  by (auto simp: mem_trip_def Let_def mem_hget_def mem_drop_def map_of_filter_keys split: list.split)

interpretation mem: redis_hash "mem_redis d"
  by unfold_locales
    (simp_all add: mem_hget_hset mem_hget_pexpire mem_pttl_pexpire mem_tonumber_def mem_hget_trip)

interpretation mem_live: redis_hash_live "mem_redis False"
  by unfold_locales (simp add: mem_trip_def Let_def mem_hget_def fun_eq_iff split: list.split)

interpretation mem_keys: redis_keys "mem_redis d"
  by unfold_locales
    (auto simp: mem_set_def mem_trip_def Let_def mem_drop_def split: list.splits if_splits)

interpretation mem_keys_live: redis_keys_live "mem_redis False"
  by unfold_locales (auto simp: mem_set_def mem_trip_def Let_def split: list.splits)

end
