(* ===== verification/Dedup.thy ===== *)
theory Dedup
  imports Redis
begin

text \<open>
  \<^verbatim>\<open>processor/dedup.go\<close>: the dedup window, one Redis key per event id. An error of the
  round trip is \<^const>\<open>None\<close> for \<^verbatim>\<open>SeenBatch\<close> and \<^const>\<open>False\<close> for
  \<^verbatim>\<open>MarkBatch\<close>.
  Shown: a key reported as seen was there before the call, a mark adds no key but those of the
  given ids even when the pipeline breaks half way, and, while keys live, a marked id is seen.
\<close>

record Deduper =
  dd_ttl :: duration

definition NewDeduper :: "duration \<Rightarrow> Deduper" where
  "NewDeduper ttl = \<lparr>dd_ttl = ttl\<rparr>"

definition dedupKey :: "string \<Rightarrow> string" where
  "dedupKey eventID = ''dedup:'' @ eventID"

lemma dedupKey_inj [simp]: "dedupKey a = dedupKey b \<longleftrightarrow> a = b"
  by (simp add: dedupKey_def)

definition SeenBatch :: "'r redis \<Rightarrow> Deduper \<Rightarrow> string list \<Rightarrow> 'r \<Rightarrow> 'r \<times> bool list option" where
  "SeenBatch R d eventIDs r =
     (if eventIDs = [] then (r, Some [])
      else pipe_exec R (map (\<lambda>eid r. (r, r_exists R r (dedupKey eid))) eventIDs) r)"

definition MarkBatch :: "'r redis \<Rightarrow> Deduper \<Rightarrow> string list \<Rightarrow> 'r \<Rightarrow> 'r \<times> bool" where
  "MarkBatch R d eventIDs r =
     (if eventIDs = [] then (r, True)
      else case pipe_exec R (map (\<lambda>eid r. (r_set R r (dedupKey eid) [] (dd_ttl d), ())) eventIDs) r of
        (r', None) \<Rightarrow> (r', False) | (r', Some _) \<Rightarrow> (r', True))"

subsection \<open>Results of the reads\<close>

lemma run_exists:
  "run_cmds (map (\<lambda>eid r. (r, r_exists R r (dedupKey eid))) ids) r = (r, map (\<lambda>eid. r_exists R r (dedupKey eid)) ids)"
  by (induction ids) (simp_all add: run_cmds.simps)

lemma SeenBatch_cases:
  obtains (empty) "ids = []" "SeenBatch R d ids r = (r, Some [])"
  | (failed) "ids \<noteq> []" "SeenBatch R d ids r = (snd (r_trip R r (length ids)), None)"
  | (answered) "ids \<noteq> []" "SeenBatch R d ids r = (snd (r_trip R r (length ids)),
      Some (map (\<lambda>eid. r_exists R (snd (r_trip R r (length ids))) (dedupKey eid)) ids))"
proof (cases "ids = []")
  case False
  show thesis
  proof (cases "fst (r_trip R r (length ids))")
    case None
    then have "SeenBatch R d ids r = (snd (r_trip R r (length ids)),
      Some (map (\<lambda>eid. r_exists R (snd (r_trip R r (length ids))) (dedupKey eid)) ids))"
      using False by (simp add: SeenBatch_def prod_eq_iff pipe_exec_simps run_exists)
    then show thesis using False answered by blast
  next
    case (Some k)
    then have "SeenBatch R d ids r = (snd (r_trip R r (length ids)), None)"
      using False by (simp add: SeenBatch_def prod_eq_iff pipe_exec_simps take_map run_exists)
    then show thesis using False failed by blast
  qed
qed (simp add: empty SeenBatch_def)

lemma SeenBatch_length: "snd (SeenBatch R d ids r) = Some seen \<Longrightarrow> length seen = length ids"
  by (cases R d ids r rule: SeenBatch_cases) auto

subsection \<open>Soundness of the window\<close>

definition marked :: "'r redis \<Rightarrow> 'r \<Rightarrow> string \<Rightarrow> bool" where
  "marked R r eid = r_exists R r (dedupKey eid)"

context redis_keys
begin

lemma marked_set_sound: "marked R (r_set R r (dedupKey a) v ttl) b \<Longrightarrow> b = a \<or> marked R r b"
  using exists_set [of r "dedupKey a" v ttl "dedupKey b"] by (simp add: marked_def)

lemma marked_trip_sound: "marked R (snd (r_trip R r n)) eid \<Longrightarrow> marked R r eid"
  using exists_trip [of r n "dedupKey eid"] by (simp add: marked_def)

lemma SeenBatch_marked: "marked R (fst (SeenBatch R d ids r)) eid \<Longrightarrow> marked R r eid"
  by (cases R d ids r rule: SeenBatch_cases) (auto simp: marked_def dest: exists_trip)

lemma SeenBatch_sound:
  assumes "snd (SeenBatch R d ids r) = Some seen" "i < length ids" "seen ! i"
  shows "marked R r (ids ! i)"
  using assms by (cases R d ids r rule: SeenBatch_cases) (auto simp: marked_def dest: exists_trip)

lemma MarkBatch_marked:
  assumes "marked R (fst (MarkBatch R d ids r)) eid"
  shows "marked R r eid \<or> eid \<in> set ids"
proof (cases "ids = []")
  case False
  let ?P = "\<lambda>r'. \<forall>x. marked R r' x \<longrightarrow> marked R r x \<or> x \<in> set ids"
  have "?P (fst (pipe_exec R (map (\<lambda>eid r. (r_set R r (dedupKey eid) [] (dd_ttl d), ())) ids) r))"
    by (rule pipe_exec_keeps) (auto dest!: marked_set_sound marked_trip_sound)
  then show ?thesis using assms False by (auto simp: MarkBatch_def split: prod.splits option.splits)
qed (use assms in \<open>simp add: MarkBatch_def\<close>)

end

context redis_keys_live
begin

lemma marked_trip [simp]: "marked R (snd (r_trip R r n)) eid \<longleftrightarrow> marked R r eid"
  using marked_trip_sound exists_trip_live [of r "dedupKey eid" n] by (auto simp: marked_def)

lemma marked_set: "0 < ttl \<Longrightarrow> marked R (r_set R r (dedupKey a) v ttl) b \<longleftrightarrow> b = a \<or> marked R r b"
  using marked_set_sound [of r a v ttl b] exists_set_live [of ttl "dedupKey b" "dedupKey a" r v]
  by (auto simp: marked_def)

lemma SeenBatch_live:
  assumes "snd (SeenBatch R d ids r) = Some seen"
  shows "seen = map (marked R r) ids" "marked R (fst (SeenBatch R d ids r)) = marked R r"
proof -
  show "seen = map (marked R r) ids"
    using assms marked_trip by (cases R d ids r rule: SeenBatch_cases) (auto simp: marked_def)
  show "marked R (fst (SeenBatch R d ids r)) = marked R r"
    by (cases R d ids r rule: SeenBatch_cases) (simp_all add: fun_eq_iff)
qed

lemma MarkBatch_live:
  assumes "snd (MarkBatch R d ids r)" "0 < dd_ttl d"
  shows "marked R (fst (MarkBatch R d ids r)) eid \<longleftrightarrow> marked R r eid \<or> eid \<in> set ids"
proof -
  have run: "marked R (fst (run_cmds (map (\<lambda>eid r. (r_set R r (dedupKey eid) [] (dd_ttl d), ())) xs) r')) eid
      \<longleftrightarrow> marked R r' eid \<or> eid \<in> set xs" for xs r'
    by (induction xs arbitrary: r') (auto simp: marked_set assms(2))
  show ?thesis
  proof (cases "ids = []")
    case False
    then have "fst (r_trip R r (length ids)) = None"
      using assms(1) by (auto simp: MarkBatch_def pipe_exec_def split: option.splits prod.splits)
    then have "fst (MarkBatch R d ids r) =
        fst (run_cmds (map (\<lambda>eid r. (r_set R r (dedupKey eid) [] (dd_ttl d), ())) ids) (snd (r_trip R r (length ids))))"
      using False by (auto simp: MarkBatch_def pipe_exec_def split: option.splits prod.splits)
    then show ?thesis by (simp add: run)
  qed (simp add: MarkBatch_def)
qed

end

end
