(* ===== verification/Metrics.thy ===== *)
theory Metrics
  imports Prelude
begin

text \<open>
  \<^verbatim>\<open>processor/metrics.go\<close>: the state behind the Prometheus collectors. A counter is a
  number, a counter vector a function from its labels, a histogram the list of its observations
  (durations in nanoseconds, sizes as numbers; the bucket bounds only shape the exposition), a
  gauge vector a map. The metrics server is its address and the routes it serves.
\<close>

record Metrics =
  Consumed :: "string \<times> string \<Rightarrow> nat"
  CleanProduced :: nat
  DLQ :: "string \<Rightarrow> nat"
  DuplicatesDropped :: nat
  ValidationErrors :: "string \<Rightarrow> nat"
  StaleSkipped :: nat
  RedisErrors :: "string \<Rightarrow> nat"
  TransportLag :: "duration list"
  IngestionLag :: "duration list"
  StateApplyLag :: "duration list"
  RedisWrite :: "(string \<times> duration) list"
  CleanProduce :: "duration list"
  AnalyticsBatch :: "nat list"
  RealtimeBatch :: "nat list"
  RealtimeFlush :: "string \<Rightarrow> nat"
  ConsumerLag :: "string \<rightharpoonup> int"
  RealtimeInvalidSkipped :: nat

definition NewMetrics :: Metrics where
  "NewMetrics = \<lparr>Consumed = (\<lambda>_. 0), CleanProduced = 0, DLQ = (\<lambda>_. 0), DuplicatesDropped = 0,
     ValidationErrors = (\<lambda>_. 0), StaleSkipped = 0, RedisErrors = (\<lambda>_. 0), TransportLag = [], IngestionLag = [],
     StateApplyLag = [], RedisWrite = [], CleanProduce = [], AnalyticsBatch = [], RealtimeBatch = [],
     RealtimeFlush = (\<lambda>_. 0), ConsumerLag = Map.empty, RealtimeInvalidSkipped = 0\<rparr>"

text \<open>\<^verbatim>\<open>WithLabelValues(l).Inc()\<close>\<close>

definition inc :: "'l \<Rightarrow> ('l \<Rightarrow> nat) \<Rightarrow> 'l \<Rightarrow> nat" where
  "inc l f = f(l := f l + 1)"

lemma inc_apply: "inc l f l' = (if l' = l then f l + 1 else f l')"
  by (simp add: inc_def)

definition redis_error :: "string \<Rightarrow> Metrics \<Rightarrow> Metrics" where
  "redis_error op m = m\<lparr>RedisErrors := inc op (RedisErrors m)\<rparr>"

definition observe_redis :: "string \<Rightarrow> duration \<Rightarrow> Metrics \<Rightarrow> Metrics" where
  "observe_redis op d m = m\<lparr>RedisWrite := RedisWrite m @ [(op, d)]\<rparr>"

text \<open>\<^verbatim>\<open>StartMetricsServer\<close>: what is mounted, and where. What the handlers answer is the libraries' part.\<close>

record metrics_server =
  ms_Addr :: string
  ms_Routes :: "string list"

definition StartMetricsServer :: "string \<Rightarrow> bool \<Rightarrow> metrics_server" where
  "StartMetricsServer listen enablePprof = \<lparr>ms_Addr = listen, ms_Routes = ''/metrics'' #
     (if enablePprof
      then [''/debug/pprof/'', ''/debug/pprof/cmdline'', ''/debug/pprof/profile'', ''/debug/pprof/symbol'', ''/debug/pprof/trace'']
      else [])\<rparr>"

end
