(* ===== verification/Analytics.thy ===== *)
theory Analytics
  imports Writers Dedup Metrics
begin

text \<open>
  \<^verbatim>\<open>processor/analytics.go\<close>: the authoritative path. \<^verbatim>\<open>flush\<close> is the composition of its
  numbered steps, each a function on the world it acts on: the dedup Redis, the broker and the
  metrics. The readings of the wall clock and of the registry pointer are inputs: \<open>fi_clk i\<close> is
  the \<open>i\<close>-th reading of \<^verbatim>\<open>time.Now\<close> in the order of the code (reading \<open>5 + i\<close> belongs to the
  \<open>i\<close>-th valid event), and \<open>fi_regs i\<close> is the registry as the two loads of the \<open>i\<close>-th message's
  validation see it. \<open>fi_sprintf\<close> is the text that \<^verbatim>\<open>fmt.Sprintf\<close> makes of an error.
  The topics hold bytes; a reader finds the columns of a row with \<^const>\<open>column\<close>.
  Shown: a flush that succeeds has accounted for every message, as a dead letter or as a row of the
  clean topic, now or earlier; an id is marked only when its row is in the clean topic; a flush
  fails only when the broker refuses a write; the counters add up; a redelivered batch is shed.
\<close>

record ('r, 'k) world =
  w_r :: 'r
  w_k :: 'k
  w_m :: Metrics

record analyticsHandler =
  ah_dedup :: Deduper
  ah_writers :: Writers

record flush_in =
  fi_clk :: "nat \<Rightarrow> instant"
  fi_regs :: "nat \<Rightarrow> Registry \<times> Registry"
  fi_sprintf :: "sprintf \<Rightarrow> string"

record validEvent =
  ve_clean :: CleanEvent
  ve_msgTime :: instant
  ve_ts :: instant

definition judge :: "Registry \<times> Registry \<Rightarrow> bytes \<Rightarrow> ValidationError + (Event \<times> instant)" where
  "judge regs raw = (case Decode raw of
       Inl err \<Rightarrow> Inl err
     | Inr e \<Rightarrow> (case Validate e (fst regs) (snd regs) of Inl err \<Rightarrow> Inl err | Inr ts \<Rightarrow> Inr (e, ts)))"

text \<open>Step 1: decode and validate; a valid message becomes a row, an invalid one a dead letter.\<close>

fun flush_decode :: "(sprintf \<Rightarrow> string) \<Rightarrow> instant \<Rightarrow> (nat \<Rightarrow> Registry \<times> Registry) \<Rightarrow> nat \<Rightarrow> kmessage list
    \<Rightarrow> validEvent list \<times> dlqItem list" where
  "flush_decode fmt ingestedAt regs i [] = ([], [])"
| "flush_decode fmt ingestedAt regs i (msg # batch) =
     (let (valid, dlqItems) = flush_decode fmt ingestedAt regs (Suc i) batch
      in case judge (regs i) (km_Value msg) of
           Inl err \<Rightarrow> (valid, \<lparr>di_Key = km_Key msg, di_Raw = km_Value msg, di_Rule = Rule err, di_Error = fmt (Msg err)\<rparr> # dlqItems)
         | Inr (e, ts) \<Rightarrow>
             (\<lparr>ve_clean = (Flatten e ingestedAt)\<lparr>ce_ProducedAt := format_ms (km_Time msg)\<rparr>,
               ve_msgTime = km_Time msg, ve_ts = ts\<rparr> # valid, dlqItems))"

definition ve_id :: "validEvent \<Rightarrow> string" where
  "ve_id v = ce_EventID (ve_clean v)"

text \<open>The in-batch dedup: \<open>inBatch\<close> holds the ids met so far; the count is that of the duplicates.\<close>

fun in_batch_dedup :: "string list \<Rightarrow> validEvent list \<Rightarrow> validEvent list \<times> nat" where
  "in_batch_dedup inBatch [] = ([], 0)"
| "in_batch_dedup inBatch (v # vs) =
     (if List.member inBatch (ve_id v)
      then (case in_batch_dedup inBatch vs of (uniq, n) \<Rightarrow> (uniq, Suc n))
      else (case in_batch_dedup (ve_id v # inBatch) vs of (uniq, n) \<Rightarrow> (v # uniq, n)))"

text \<open>Step 3: the rows whose id was not seen, from index \<open>i\<close>, and the number of the others.\<close>

fun pick_fresh :: "bool list option \<Rightarrow> nat \<Rightarrow> validEvent list \<Rightarrow> CleanEvent list \<times> nat" where
  "pick_fresh seen i [] = ([], 0)"
| "pick_fresh seen i (v # vs) =
     (case pick_fresh seen (Suc i) vs of (fresh, n) \<Rightarrow>
        if (case seen of None \<Rightarrow> False | Some bs \<Rightarrow> bs ! i) then (fresh, Suc n) else (ve_clean v # fresh, n))"

record plan =
  pl_valid :: "validEvent list"
  pl_dlq :: "dlqItem list"
  pl_fresh :: "CleanEvent list"
  pl_dupes :: nat

text \<open>Steps 1 to 3; the only effect is the pipelined \<^verbatim>\<open>EXISTS\<close> and its metrics.\<close>

definition flush_plan :: "'r redis \<Rightarrow> analyticsHandler \<Rightarrow> flush_in \<Rightarrow> kmessage list \<Rightarrow> ('r, 'k) world
    \<Rightarrow> ('r, 'k) world \<times> plan" where
  "flush_plan R h inp batch w =
     (let (valid, dlqItems) = flush_decode (fi_sprintf inp) (fi_clk inp 0) (fi_regs inp) 0 batch;
          (uniq, intraDupes) = in_batch_dedup [] valid;
          (r, seen) = SeenBatch R (ah_dedup h) (map ve_id uniq) (w_r w);
          m = observe_redis ''dedup'' (fi_clk inp 2 - fi_clk inp 1) (w_m w);
          m = (if seen = None then redis_error ''dedup'' m else m);
          (fresh, crossDupes) = pick_fresh seen 0 uniq
      in (w\<lparr>w_r := r, w_m := m\<rparr>,
          \<lparr>pl_valid = valid, pl_dlq = dlqItems, pl_fresh = fresh, pl_dupes = intraDupes + crossDupes\<rparr>))"

text \<open>Step 4: the two produces.\<close>

definition flush_clean :: "('k, bytes) kafka \<Rightarrow> analyticsHandler \<Rightarrow> flush_in \<Rightarrow> plan \<Rightarrow> ('r, 'k) world
    \<Rightarrow> ('r, 'k) world \<times> bool" where
  "flush_clean K h inp p w =
     (case WriteCleanBatch K (ah_writers h) (pl_fresh p) (w_k w) of
        (k, False) \<Rightarrow> (w\<lparr>w_k := k\<rparr>, False)
      | (k, True) \<Rightarrow> (w\<lparr>w_k := k, w_m := (if pl_fresh p \<noteq> []
            then (w_m w)\<lparr>CleanProduce := CleanProduce (w_m w) @ [fi_clk inp 4 - fi_clk inp 3]\<rparr> else w_m w)\<rparr>, True))"

definition flush_dlq :: "('k, bytes) kafka \<Rightarrow> analyticsHandler \<Rightarrow> flush_in \<Rightarrow> plan \<Rightarrow> ('r, 'k) world
    \<Rightarrow> ('r, 'k) world \<times> bool" where
  "flush_dlq K h inp p w =
     (case WriteDLQBatch K (ah_writers h) (pl_dlq p) (fi_clk inp 0) (w_k w) of (k, ok) \<Rightarrow> (w\<lparr>w_k := k\<rparr>, ok))"

text \<open>Step 5: the metrics of the batch.\<close>

fun count_valid :: "flush_in \<Rightarrow> nat \<Rightarrow> validEvent list \<Rightarrow> Metrics \<Rightarrow> Metrics" where
  "count_valid inp i [] m = m"
| "count_valid inp i (v # vs) m = count_valid inp (Suc i) vs
     (m\<lparr>Consumed := inc (''analytics'', ce_EventType (ve_clean v)) (Consumed m),
        TransportLag := TransportLag m @ [fi_clk inp (5 + i) - ve_msgTime v],
        IngestionLag := IngestionLag m @ [fi_clk inp 0 - ve_ts v]\<rparr>)"

fun count_dlq :: "dlqItem list \<Rightarrow> Metrics \<Rightarrow> Metrics" where
  "count_dlq [] m = m"
| "count_dlq (it # its) m =
     (let reason = (if di_Rule it = ''invalid_json'' then ''invalid_json'' else ''validation'')
      in count_dlq its (m\<lparr>DLQ := inc reason (DLQ m), ValidationErrors := inc (di_Rule it) (ValidationErrors m)\<rparr>))"

definition flush_metrics :: "flush_in \<Rightarrow> plan \<Rightarrow> Metrics \<Rightarrow> Metrics" where
  "flush_metrics inp p m =
     (let m = count_valid inp 0 (pl_valid p) m;
          m = (if 0 < pl_dupes p then m\<lparr>DuplicatesDropped := DuplicatesDropped m + pl_dupes p\<rparr> else m);
          m = m\<lparr>CleanProduced := CleanProduced m + length (pl_fresh p)\<rparr>
      in count_dlq (pl_dlq p) m)"

text \<open>Steps 5 and 6: the metrics, then the best-effort mark.\<close>

definition flush_finish :: "'r redis \<Rightarrow> analyticsHandler \<Rightarrow> flush_in \<Rightarrow> kmessage list \<Rightarrow> plan \<Rightarrow> ('r, 'k) world
    \<Rightarrow> ('r, 'k) world" where
  "flush_finish R h inp batch p w =
     (let m = flush_metrics inp p (w_m w);
          (r, ok) = MarkBatch R (ah_dedup h) (map ce_EventID (pl_fresh p)) (w_r w);
          m = (if ok then m else redis_error ''dedup'' m);
          m = m\<lparr>AnalyticsBatch := AnalyticsBatch m @ [length batch]\<rparr>
      in w\<lparr>w_r := r, w_m := m\<rparr>)"

text \<open>The handler: an error of a produce returns at once, without mark and without metrics.\<close>

definition flush :: "'r redis \<Rightarrow> ('k, bytes) kafka \<Rightarrow> analyticsHandler \<Rightarrow> flush_in \<Rightarrow> kmessage list
    \<Rightarrow> ('r, 'k) world \<Rightarrow> ('r, 'k) world \<times> bool" where
  "flush R K h inp batch w =
     (let (w, p) = flush_plan R h inp batch w;
          (w, ok) = flush_clean K h inp p w
      in if \<not> ok then (w, False)
         else let (w, ok) = flush_dlq K h inp p w
              in if \<not> ok then (w, False) else (flush_finish R h inp batch p w, True))"

text \<open>The world a crash leaves behind after the first \<open>n\<close> effects of a flush that goes well so far.\<close>

definition flush_crash :: "'r redis \<Rightarrow> ('k, bytes) kafka \<Rightarrow> analyticsHandler \<Rightarrow> nat \<Rightarrow> flush_in \<Rightarrow> kmessage list
    \<Rightarrow> ('r, 'k) world \<Rightarrow> ('r, 'k) world" where
  "flush_crash R K h n inp batch w =
     (let (w1, p) = flush_plan R h inp batch w;
          (w2, ok2) = flush_clean K h inp p w1;
          (w3, ok3) = flush_dlq K h inp p w2
      in if n = 0 then w else if n = 1 then w1 else if n = 2 \<or> \<not> ok2 then w2 else if n = 3 \<or> \<not> ok3 then w3
         else flush_finish R h inp batch p w3)"

subsection \<open>Step 1\<close>

lemma flush_decode_dlq:
  assumes "i < length batch" "judge (regs (n + i)) (km_Value (batch ! i)) = Inl err"
  shows "\<exists>it \<in> set (snd (flush_decode fmt t regs n batch)). di_Key it = km_Key (batch ! i) \<and> di_Raw it = km_Value (batch ! i)
    \<and> di_Rule it = Rule err \<and> di_Error it = fmt (Msg err)"
  using assms
proof (induction fmt t regs n batch arbitrary: i rule: flush_decode.induct)
  case (2 fmt t regs n msg batch)
  then show ?case
    by (cases i) (force simp: Let_def case_prod_beta split: sum.splits)+
qed simp

lemma flush_decode_valid:
  assumes "i < length batch" "judge (regs (n + i)) (km_Value (batch ! i)) = Inr (e, ts)"
  shows "\<exists>v \<in> set (fst (flush_decode fmt t regs n batch)). ve_id v = EventID e"
  using assms
proof (induction fmt t regs n batch arbitrary: i rule: flush_decode.induct)
  case (2 fmt t regs n msg batch)
  then show ?case
    by (cases i) (force simp: Let_def case_prod_beta ve_id_def split: sum.splits)+
qed simp

lemma flush_decode_origin:
  assumes "v \<in> set (fst (flush_decode fmt t regs n batch))"
  shows "\<exists>i e. i < length batch \<and> judge (regs (n + i)) (km_Value (batch ! i)) = Inr (e, ve_ts v)
    \<and> ve_clean v = (Flatten e t)\<lparr>ce_ProducedAt := format_ms (km_Time (batch ! i))\<rparr>"
  using assms
proof (induction fmt t regs n batch rule: flush_decode.induct)
  case (2 fmt t regs n msg batch)
  show ?case
  proof (cases "v \<in> set (fst (flush_decode fmt t regs (Suc n) batch))")
    case True
    from "2.IH" [OF this] obtain i e where
      "i < length batch" "judge (regs (Suc n + i)) (km_Value (batch ! i)) = Inr (e, ve_ts v)"
      "ve_clean v = (Flatten e t)\<lparr>ce_ProducedAt := format_ms (km_Time (batch ! i))\<rparr>" by blast
    then show ?thesis by (intro exI [of _ "Suc i"] exI [of _ e]) simp
  next
    case False
    with "2.prems" show ?thesis
      by (intro exI [of _ 0]) (auto simp: Let_def case_prod_beta split: sum.splits)
  qed
qed simp

lemma flush_decode_length:
  "length (fst (flush_decode fmt t regs n batch)) + length (snd (flush_decode fmt t regs n batch)) = length batch"
  by (induction fmt t regs n batch rule: flush_decode.induct) (auto simp: Let_def case_prod_beta split: sum.splits)

lemma judge_good: "judge regs raw = Inr (e, ts) \<Longrightarrow> Decode raw = Inr e \<and> event_floats good_f64 e \<and> valid_utf8 (EventID e)"
  by (auto simp: judge_def Decode_def Unmarshal_Event_floats [OF literal_good] event_id_ascii [THEN valid_utf8_ascii]
      dest: Validate_identity(1) split: sum.splits option.splits)

lemma flush_decode_row_ok: "v \<in> set (fst (flush_decode fmt t regs n batch)) \<Longrightarrow> row_ok (ve_clean v)"
proof -
  assume "v \<in> set (fst (flush_decode fmt t regs n batch))"
  then obtain i e where e: "judge (regs (n + i)) (km_Value (batch ! i)) = Inr (e, ve_ts v)"
    "ve_clean v = (Flatten e t)\<lparr>ce_ProducedAt := format_ms (km_Time (batch ! i))\<rparr>"
    using flush_decode_origin by blast
  have "clean_floats good_f64 (Flatten e t)"
    by (rule Flatten_floats) (use judge_good [OF e(1)] in \<open>simp_all add: good_f64_def zero_f64\<close>)
  then show ?thesis using judge_good [OF e(1)] by (simp add: e(2) row_ok_def clean_floats_def)
qed

subsection \<open>Steps 2 and 3\<close>

lemma in_batch_dedup_ids:
  "set (map ve_id (fst (in_batch_dedup ids vs))) = ve_id ` set vs - set ids"
  "distinct (map ve_id (fst (in_batch_dedup ids vs)))"
  "set (fst (in_batch_dedup ids vs)) \<subseteq> set vs"
  "length (fst (in_batch_dedup ids vs)) + snd (in_batch_dedup ids vs) = length vs"
  by (induction ids vs rule: in_batch_dedup.induct) (auto simp: case_prod_beta)

lemma pick_fresh_sub: "set (fst (pick_fresh seen i vs)) \<subseteq> ve_clean ` set vs"
  by (induction seen i vs rule: pick_fresh.induct) (auto simp: case_prod_beta)

lemma pick_fresh_length: "length (fst (pick_fresh seen i vs)) + snd (pick_fresh seen i vs) = length vs"
  by (induction seen i vs rule: pick_fresh.induct) (auto simp: case_prod_beta)

lemma pick_fresh_distinct:
  "distinct (map ve_id vs) \<Longrightarrow> distinct (map ce_EventID (fst (pick_fresh seen i vs)))"
proof (induction seen i vs rule: pick_fresh.induct)
  case (2 seen i v vs)
  then have "ce_EventID (ve_clean v) \<notin> ce_EventID ` set (fst (pick_fresh seen (Suc i) vs))"
    using pick_fresh_sub [of seen "Suc i" vs] by (auto simp: ve_id_def)
  with 2 show ?case by (simp add: case_prod_beta)
qed simp

text \<open>Every unique row is fresh or was seen; with every row seen nothing is fresh.\<close>

lemma pick_fresh_or_seen:
  assumes "j < length vs"
  shows "ve_clean (vs ! j) \<in> set (fst (pick_fresh seen i vs)) \<or> (\<exists>bs. seen = Some bs \<and> bs ! (i + j))"
  using assms
proof (induction seen i vs arbitrary: j rule: pick_fresh.induct)
  case (2 seen i v vs)
  show ?case
  proof (cases j)
    case 0
    then show ?thesis by (simp add: case_prod_beta split: option.split)
  next
    case (Suc j')
    with 2 have "ve_clean (vs ! j') \<in> set (fst (pick_fresh seen (Suc i) vs)) \<or> (\<exists>bs. seen = Some bs \<and> bs ! (Suc i + j'))"
      by simp
    then show ?thesis using Suc by (auto simp: case_prod_beta)
  qed
qed simp

lemma pick_fresh_all_seen:
  "(\<And>j. j < length vs \<Longrightarrow> bs ! (i + j)) \<Longrightarrow> fst (pick_fresh (Some bs) i vs) = []"
proof (induction "Some bs" i vs rule: pick_fresh.induct)
  case (2 i v vs)
  have "fst (pick_fresh (Some bs) (Suc i) vs) = []"
    by (rule "2.hyps") (use "2.prems" [of "Suc _"] in simp)
  moreover have "bs ! i" using "2.prems" [of 0] by simp
  ultimately show ?case by (simp add: case_prod_beta)
qed simp

subsection \<open>The plan\<close>

definition plan_uniq :: "flush_in \<Rightarrow> kmessage list \<Rightarrow> validEvent list" where
  "plan_uniq inp batch = fst (in_batch_dedup [] (fst (flush_decode (fi_sprintf inp) (fi_clk inp 0) (fi_regs inp) 0 batch)))"

lemma flush_plan_sel:
  "pl_valid (snd (flush_plan R h inp batch w)) = fst (flush_decode (fi_sprintf inp) (fi_clk inp 0) (fi_regs inp) 0 batch)"
  "pl_dlq (snd (flush_plan R h inp batch w)) = snd (flush_decode (fi_sprintf inp) (fi_clk inp 0) (fi_regs inp) 0 batch)"
  "pl_fresh (snd (flush_plan R h inp batch w)) =
     fst (pick_fresh (snd (SeenBatch R (ah_dedup h) (map ve_id (plan_uniq inp batch)) (w_r w))) 0 (plan_uniq inp batch))"
  "pl_dupes (snd (flush_plan R h inp batch w)) =
     snd (in_batch_dedup [] (fst (flush_decode (fi_sprintf inp) (fi_clk inp 0) (fi_regs inp) 0 batch)))
     + snd (pick_fresh (snd (SeenBatch R (ah_dedup h) (map ve_id (plan_uniq inp batch)) (w_r w))) 0 (plan_uniq inp batch))"
  "w_k (fst (flush_plan R h inp batch w)) = w_k w"
  "w_r (fst (flush_plan R h inp batch w)) = fst (SeenBatch R (ah_dedup h) (map ve_id (plan_uniq inp batch)) (w_r w))"
  by (simp_all add: flush_plan_def plan_uniq_def Let_def case_prod_beta)

lemma plan_uniq_ids:
  "set (map ve_id (plan_uniq inp batch)) = ve_id ` set (fst (flush_decode (fi_sprintf inp) (fi_clk inp 0) (fi_regs inp) 0 batch))"
  "distinct (map ve_id (plan_uniq inp batch))"
  "set (plan_uniq inp batch) \<subseteq> set (fst (flush_decode (fi_sprintf inp) (fi_clk inp 0) (fi_regs inp) 0 batch))"
  unfolding plan_uniq_def using in_batch_dedup_ids [of "[]"] by simp_all

lemma plan_fresh_sub: "set (pl_fresh (snd (flush_plan R h inp batch w))) \<subseteq>
    ve_clean ` set (fst (flush_decode (fi_sprintf inp) (fi_clk inp 0) (fi_regs inp) 0 batch))"
  unfolding flush_plan_sel using pick_fresh_sub plan_uniq_ids(3) by fast

lemma plan_fresh_ok: "list_all row_ok (pl_fresh (snd (flush_plan R h inp batch w)))"
  using plan_fresh_sub flush_decode_row_ok by (fastforce simp: list_all_iff)

lemma plan_fresh_distinct: "distinct (map ce_EventID (pl_fresh (snd (flush_plan R h inp batch w))))"
  unfolding flush_plan_sel by (intro pick_fresh_distinct plan_uniq_ids(2))

lemma plan_lengths:
  "length (pl_fresh (snd (flush_plan R h inp batch w))) + pl_dupes (snd (flush_plan R h inp batch w))
     = length (pl_valid (snd (flush_plan R h inp batch w)))"
  "length (pl_valid (snd (flush_plan R h inp batch w))) + length (pl_dlq (snd (flush_plan R h inp batch w))) = length batch"
proof -
  have "length (plan_uniq inp batch) + snd (in_batch_dedup [] (fst (flush_decode (fi_sprintf inp) (fi_clk inp 0) (fi_regs inp) 0 batch)))
      = length (fst (flush_decode (fi_sprintf inp) (fi_clk inp 0) (fi_regs inp) 0 batch))"
    unfolding plan_uniq_def by (rule in_batch_dedup_ids(4))
  then show "length (pl_fresh (snd (flush_plan R h inp batch w))) + pl_dupes (snd (flush_plan R h inp batch w))
     = length (pl_valid (snd (flush_plan R h inp batch w)))"
    unfolding flush_plan_sel
    using pick_fresh_length [of "snd (SeenBatch R (ah_dedup h) (map ve_id (plan_uniq inp batch)) (w_r w))" 0 "plan_uniq inp batch"]
    by linarith
qed (simp add: flush_plan_sel flush_decode_length)

subsection \<open>The topics\<close>

definition produced :: "('k, bytes) kafka \<Rightarrow> Writers \<Rightarrow> 'k \<Rightarrow> string \<Rightarrow> bool" where
  "produced K w k eid \<longleftrightarrow> (\<exists>key b. k_has K k (kw_Topic (w_clean w)) (key, b) \<and> column ''event_id'' b = Some (JStr eid))"

definition dead_lettered :: "('k, bytes) kafka \<Rightarrow> Writers \<Rightarrow> 'k \<Rightarrow> kmessage \<Rightarrow> bool" where
  "dead_lettered K w k msg \<longleftrightarrow>
     (\<exists>b. k_has K k (kw_Topic (w_dlq w)) (km_Key msg, b) \<and> column ''raw_payload'' b = Some (JStr (to_valid (km_Value msg))))"

text \<open>A message is accounted for when it is a dead letter or its event is in the clean topic.\<close>

definition accounted :: "('k, bytes) kafka \<Rightarrow> Writers \<Rightarrow> 'k \<Rightarrow> kmessage \<Rightarrow> bool" where
  "accounted K w k msg \<longleftrightarrow> dead_lettered K w k msg \<or> (\<exists>e. Decode (km_Value msg) = Inr e \<and> produced K w k (EventID e))"

text \<open>The invariant of the dedup window: an id that is marked has been produced.\<close>

definition window_ok :: "'r redis \<Rightarrow> ('k, bytes) kafka \<Rightarrow> analyticsHandler \<Rightarrow> ('r, 'k) world \<Rightarrow> bool" where
  "window_ok R K h w \<longleftrightarrow> (\<forall>eid. marked R (w_r w) eid \<longrightarrow> produced K (ah_writers h) (w_k w) eid)"

locale analytics_env = redis_keys R + kafka_log K
  for R :: "'r redis" and K :: "('k, bytes) kafka"
begin

lemma accounted_write:
  assumes "accounted K w k msg"
  shows "accounted K w (fst (k_write K k t msgs)) msg"
  using assms write_keeps unfolding accounted_def dead_lettered_def produced_def by meson

lemma produced_write: "produced K w k eid \<Longrightarrow> produced K w (fst (k_write K k t msgs)) eid"
  using write_keeps unfolding produced_def by meson

lemma flush_clean_k:
  assumes "list_all row_ok (pl_fresh p)"
  shows "w_k (fst (flush_clean K h inp p w)) =
      (if pl_fresh p = [] then w_k w else fst (k_write K (w_k w) (kw_Topic (w_clean (ah_writers h)))
         (map (\<lambda>ce. (ce_StationID ce, clean_bytes ce)) (pl_fresh p))))"
    "snd (flush_clean K h inp p w) = (pl_fresh p = [] \<or> snd (k_write K (w_k w) (kw_Topic (w_clean (ah_writers h)))
         (map (\<lambda>ce. (ce_StationID ce, clean_bytes ce)) (pl_fresh p))))"
    "w_r (fst (flush_clean K h inp p w)) = w_r w"
  by (simp_all add: flush_clean_def WriteCleanBatch_eq [OF assms] case_prod_beta split: bool.split)

lemma flush_dlq_k:
  "w_k (fst (flush_dlq K h inp p w)) =
      (if pl_dlq p = [] then w_k w else fst (k_write K (w_k w) (kw_Topic (w_dlq (ah_writers h)))
         (map (\<lambda>it. (di_Key it, dlq_bytes it (fi_clk inp 0))) (pl_dlq p))))"
  "snd (flush_dlq K h inp p w) = (pl_dlq p = [] \<or> snd (k_write K (w_k w) (kw_Topic (w_dlq (ah_writers h)))
         (map (\<lambda>it. (di_Key it, dlq_bytes it (fi_clk inp 0))) (pl_dlq p))))"
  "w_r (fst (flush_dlq K h inp p w)) = w_r w"
  by (simp_all add: flush_dlq_def WriteDLQBatch_eq case_prod_beta)

lemma flush_clean_produced:
  assumes "list_all row_ok (pl_fresh p)" "snd (flush_clean K h inp p w)" "ce \<in> set (pl_fresh p)"
  shows "produced K (ah_writers h) (w_k (fst (flush_clean K h inp p w))) (ce_EventID ce)"
proof -
  have "pl_fresh p \<noteq> []" using assms(3) by auto
  then have "k_has K (w_k (fst (flush_clean K h inp p w))) (kw_Topic (w_clean (ah_writers h))) (ce_StationID ce, clean_bytes ce)"
    using assms flush_clean_k [OF assms(1), of h inp w] by (auto intro!: write_durable)
  moreover have "column ''event_id'' (clean_bytes ce) = Some (JStr (ce_EventID ce))"
    using assms(1,3) by (auto simp: list_all_iff intro: column_event_id)
  ultimately show ?thesis unfolding produced_def by blast
qed

lemma flush_dlq_lettered:
  assumes "snd (flush_dlq K h inp p w)" "it \<in> set (pl_dlq p)" "di_Key it = km_Key msg" "di_Raw it = km_Value msg"
  shows "dead_lettered K (ah_writers h) (w_k (fst (flush_dlq K h inp p w))) msg"
proof -
  have "pl_dlq p \<noteq> []" using assms(2) by auto
  then have "k_has K (w_k (fst (flush_dlq K h inp p w))) (kw_Topic (w_dlq (ah_writers h))) (km_Key msg, dlq_bytes it (fi_clk inp 0))"
    using assms flush_dlq_k [of h inp p w] by (auto intro!: write_durable simp flip: assms(3))
  moreover have "column ''raw_payload'' (dlq_bytes it (fi_clk inp 0)) = Some (JStr (to_valid (km_Value msg)))"
    using assms(4) by (simp add: column_raw_payload)
  ultimately show ?thesis unfolding dead_lettered_def by blast
qed

end

subsection \<open>The contract of a flush\<close>

text \<open>The worlds between the steps.\<close>

definition after_clean :: "'r redis \<Rightarrow> ('k, bytes) kafka \<Rightarrow> analyticsHandler \<Rightarrow> flush_in \<Rightarrow> kmessage list
    \<Rightarrow> ('r, 'k) world \<Rightarrow> ('r, 'k) world \<times> bool" where
  "after_clean R K h inp batch w =
     flush_clean K h inp (snd (flush_plan R h inp batch w)) (fst (flush_plan R h inp batch w))"

definition after_dlq :: "'r redis \<Rightarrow> ('k, bytes) kafka \<Rightarrow> analyticsHandler \<Rightarrow> flush_in \<Rightarrow> kmessage list
    \<Rightarrow> ('r, 'k) world \<Rightarrow> ('r, 'k) world \<times> bool" where
  "after_dlq R K h inp batch w =
     flush_dlq K h inp (snd (flush_plan R h inp batch w)) (fst (after_clean R K h inp batch w))"

definition after_finish :: "'r redis \<Rightarrow> ('k, bytes) kafka \<Rightarrow> analyticsHandler \<Rightarrow> flush_in \<Rightarrow> kmessage list
    \<Rightarrow> ('r, 'k) world \<Rightarrow> ('r, 'k) world" where
  "after_finish R K h inp batch w =
     flush_finish R h inp batch (snd (flush_plan R h inp batch w)) (fst (after_dlq R K h inp batch w))"

lemma flush_stages:
  "flush R K h inp batch w =
     (if \<not> snd (after_clean R K h inp batch w) then (fst (after_clean R K h inp batch w), False)
      else if \<not> snd (after_dlq R K h inp batch w) then (fst (after_dlq R K h inp batch w), False)
      else (after_finish R K h inp batch w, True))"
  by (simp add: flush_def after_clean_def after_dlq_def after_finish_def case_prod_beta Let_def)

lemma flush_crash_stages:
  "flush_crash R K h n inp batch w \<in> {w, fst (flush_plan R h inp batch w), fst (after_clean R K h inp batch w)}
   \<or> snd (after_clean R K h inp batch w) \<and>
     flush_crash R K h n inp batch w \<in> {fst (after_dlq R K h inp batch w), after_finish R K h inp batch w}"
  by (simp add: flush_crash_def after_clean_def after_dlq_def after_finish_def case_prod_beta Let_def)

lemma flush_finish_sel:
  "w_k (flush_finish R h inp batch p w) = w_k w"
  "w_r (flush_finish R h inp batch p w) = fst (MarkBatch R (ah_dedup h) (map ce_EventID (pl_fresh p)) (w_r w))"
  by (simp_all add: flush_finish_def Let_def case_prod_beta)

context analytics_env
begin

lemma after_clean_sel:
  "w_r (fst (after_clean R K h inp batch w)) = w_r (fst (flush_plan R h inp batch w))"
  "produced K x (w_k w) eid \<Longrightarrow> produced K x (w_k (fst (after_clean R K h inp batch w))) eid"
  "accounted K x (w_k w) msg \<Longrightarrow> accounted K x (w_k (fst (after_clean R K h inp batch w))) msg"
  using plan_fresh_ok [of R h inp batch w]
  by (simp_all add: after_clean_def flush_clean_k flush_plan_sel(5) produced_write accounted_write)

lemma after_clean_produced:
  "snd (after_clean R K h inp batch w) \<Longrightarrow> ce \<in> set (pl_fresh (snd (flush_plan R h inp batch w))) \<Longrightarrow>
     produced K (ah_writers h) (w_k (fst (after_clean R K h inp batch w))) (ce_EventID ce)"
  unfolding after_clean_def by (rule flush_clean_produced [OF plan_fresh_ok])

lemma after_dlq_sel:
  "w_r (fst (after_dlq R K h inp batch w)) = w_r (fst (flush_plan R h inp batch w))"
  "produced K x (w_k (fst (after_clean R K h inp batch w))) eid \<Longrightarrow> produced K x (w_k (fst (after_dlq R K h inp batch w))) eid"
  "accounted K x (w_k (fst (after_clean R K h inp batch w))) msg \<Longrightarrow> accounted K x (w_k (fst (after_dlq R K h inp batch w))) msg"
  by (simp_all add: after_dlq_def flush_dlq_k after_clean_sel(1) produced_write accounted_write)

lemma plan_marked: "marked R (w_r (fst (flush_plan R h inp batch w))) eid \<Longrightarrow> marked R (w_r w) eid"
  unfolding flush_plan_sel(6) by (rule SeenBatch_marked)

lemma window_ok_stages:
  assumes "window_ok R K h w"
  shows "window_ok R K h (fst (flush_plan R h inp batch w))"
    and "window_ok R K h (fst (after_clean R K h inp batch w))"
    and "window_ok R K h (fst (after_dlq R K h inp batch w))"
    and "snd (after_clean R K h inp batch w) \<Longrightarrow> window_ok R K h (after_finish R K h inp batch w)"
proof -
  have base: "produced K (ah_writers h) (w_k w) eid" if "marked R (w_r (fst (flush_plan R h inp batch w))) eid" for eid
    using assms plan_marked [OF that] by (simp add: window_ok_def)
  show "window_ok R K h (fst (flush_plan R h inp batch w))"
    using base by (simp add: window_ok_def flush_plan_sel(5))
  show "window_ok R K h (fst (after_clean R K h inp batch w))"
    using base by (simp add: window_ok_def after_clean_sel(1,2))
  show w3: "window_ok R K h (fst (after_dlq R K h inp batch w))"
    using base by (simp add: window_ok_def after_dlq_sel(1,2) after_clean_sel(2))
  show "window_ok R K h (after_finish R K h inp batch w)" if ok: "snd (after_clean R K h inp batch w)"
    unfolding window_ok_def after_finish_def flush_finish_sel
  proof (intro allI impI)
    fix eid
    assume "marked R (fst (MarkBatch R (ah_dedup h) (map ce_EventID (pl_fresh (snd (flush_plan R h inp batch w))))
        (w_r (fst (after_dlq R K h inp batch w))))) eid"
    then have "marked R (w_r (fst (after_dlq R K h inp batch w))) eid
        \<or> eid \<in> set (map ce_EventID (pl_fresh (snd (flush_plan R h inp batch w))))"
      by (rule MarkBatch_marked)
    then consider "marked R (w_r (fst (after_dlq R K h inp batch w))) eid"
      | ce where "ce \<in> set (pl_fresh (snd (flush_plan R h inp batch w)))" "eid = ce_EventID ce"
      by auto
    then show "produced K (ah_writers h) (w_k (fst (after_dlq R K h inp batch w))) eid"
    proof cases
      case 1
      then show ?thesis using w3 by (simp add: window_ok_def)
    next
      case 2
      then show ?thesis using after_clean_produced [OF ok] after_dlq_sel(2) by simp
    qed
  qed
qed

lemma flush_window_ok: "window_ok R K h w \<Longrightarrow> window_ok R K h (fst (flush R K h inp batch w))"
  by (simp add: flush_stages window_ok_stages)

lemma flush_crash_window_ok: "window_ok R K h w \<Longrightarrow> window_ok R K h (flush_crash R K h n inp batch w)"
  using flush_crash_stages [of R K h n inp batch w] window_ok_stages [of h w inp batch] by auto

lemma flush_keeps_accounted: "accounted K x (w_k w) msg \<Longrightarrow> accounted K x (w_k (fst (flush R K h inp batch w))) msg"
  by (simp add: flush_stages after_finish_def flush_finish_sel after_clean_sel(3) after_dlq_sel(3))

lemma flush_crash_keeps_accounted:
  "accounted K x (w_k w) msg \<Longrightarrow> accounted K x (w_k (flush_crash R K h n inp batch w)) msg"
  using flush_crash_stages [of R K h n inp batch w] after_clean_sel(3) [of x w msg h inp batch]
    after_dlq_sel(3) [of x h inp batch w msg]
  by (auto simp: after_finish_def flush_finish_sel flush_plan_sel(5))

lemma flush_ok_stages:
  assumes "snd (flush R K h inp batch w)"
  shows "snd (after_clean R K h inp batch w)" "snd (after_dlq R K h inp batch w)"
    "w_k (fst (flush R K h inp batch w)) = w_k (fst (after_dlq R K h inp batch w))"
  using assms by (auto simp: flush_stages after_finish_def flush_finish_sel split: if_splits)

text \<open>Every valid event of a batch is fresh in its plan, or was marked and so produced before.\<close>

lemma plan_covers:
  assumes "window_ok R K h w" "v \<in> set (fst (flush_decode (fi_sprintf inp) (fi_clk inp 0) (fi_regs inp) 0 batch))"
  shows "(\<exists>ce\<in>set (pl_fresh (snd (flush_plan R h inp batch w))). ce_EventID ce = ve_id v)
    \<or> produced K (ah_writers h) (w_k w) (ve_id v)"
proof -
  let ?seen = "snd (SeenBatch R (ah_dedup h) (map ve_id (plan_uniq inp batch)) (w_r w))"
  have "ve_id v \<in> set (map ve_id (plan_uniq inp batch))"
    using assms(2) unfolding plan_uniq_ids(1) by (rule imageI)
  then obtain j where j: "j < length (plan_uniq inp batch)" "ve_id v = ve_id (plan_uniq inp batch ! j)"
    by (metis in_set_conv_nth length_map nth_map)
  from pick_fresh_or_seen [OF j(1), of ?seen 0] show ?thesis
  proof (elim disjE exE conjE)
    assume "ve_clean (plan_uniq inp batch ! j) \<in> set (fst (pick_fresh ?seen 0 (plan_uniq inp batch)))"
    then show ?thesis unfolding flush_plan_sel using j(2) by (auto simp: ve_id_def)
  next
    fix bs
    assume "?seen = Some bs" "bs ! (0 + j)"
    then have "marked R (w_r w) (ve_id v)"
      using SeenBatch_sound [of "ah_dedup h" "map ve_id (plan_uniq inp batch)" "w_r w" bs j] j by simp
    then show ?thesis using assms(1) by (simp add: window_ok_def)
  qed
qed

text \<open>A successful flush has every valid event of its batch in the clean topic.\<close>

lemma flush_produces:
  assumes "window_ok R K h w" "snd (flush R K h inp batch w)" "i < length batch"
    and "judge (fi_regs inp i) (km_Value (batch ! i)) = Inr (e, ts)"
  shows "produced K (ah_writers h) (w_k (fst (flush R K h inp batch w))) (EventID e)"
proof -
  note ok = flush_ok_stages [OF assms(2)]
  obtain v where v: "v \<in> set (fst (flush_decode (fi_sprintf inp) (fi_clk inp 0) (fi_regs inp) 0 batch))" "ve_id v = EventID e"
    using flush_decode_valid [of i batch "fi_regs inp" 0 e ts "fi_sprintf inp" "fi_clk inp 0"] assms(3,4) by auto
  from plan_covers [OF assms(1) v(1)] show ?thesis
    unfolding ok(3) v(2) using after_clean_produced [OF ok(1)] after_clean_sel(2) after_dlq_sel(2) by metis
qed

lemma flush_accounts:
  assumes "window_ok R K h w" "snd (flush R K h inp batch w)" "msg \<in> set batch"
  shows "accounted K (ah_writers h) (w_k (fst (flush R K h inp batch w))) msg"
proof -
  let ?p = "snd (flush_plan R h inp batch w)" and ?w3 = "fst (after_dlq R K h inp batch w)"
  note ok = flush_ok_stages [OF assms(2)]
  obtain i where i: "i < length batch" "msg = batch ! i" using assms(3) by (metis in_set_conv_nth)
  show ?thesis
  proof (cases "judge (fi_regs inp i) (km_Value msg)")
    case (Inl err)
    then obtain it where "it \<in> set (pl_dlq ?p)" "di_Key it = km_Key msg" "di_Raw it = km_Value msg"
      using flush_decode_dlq [of i batch "fi_regs inp" 0 err "fi_sprintf inp" "fi_clk inp 0"] i by (auto simp: flush_plan_sel)
    then have "dead_lettered K (ah_writers h) (w_k ?w3) msg"
      using ok(2) unfolding after_dlq_def by (intro flush_dlq_lettered)
    then show ?thesis by (simp add: accounted_def ok(3))
  next
    case (Inr ets)
    then obtain e ts where e: "judge (fi_regs inp i) (km_Value msg) = Inr (e, ts)" by (cases ets) auto
    then show ?thesis
      using judge_good [OF e] flush_produces [OF assms(1,2) i(1)] i(2) by (auto simp: accounted_def)
  qed
qed

text \<open>A batch of valid messages leaves the dead-letter topic alone.\<close>

lemma flush_decode_all_valid:
  assumes "\<And>i. i < length batch \<Longrightarrow> \<exists>ets. judge (regs (n + i)) (km_Value (batch ! i)) = Inr ets"
  shows "snd (flush_decode fmt t regs n batch) = []"
  using assms
proof (induction fmt t regs n batch rule: flush_decode.induct)
  case (2 fmt t regs n msg batch)
  have "snd (flush_decode fmt t regs (Suc n) batch) = []" by (rule "2.IH") (use "2.prems" [of "Suc _"] in simp)
  moreover obtain e ts where "judge (regs n) (km_Value msg) = Inr (e, ts)" using "2.prems" [of 0] by auto
  ultimately show ?case by (simp add: case_prod_beta Let_def)
qed simp

lemma flush_no_dead_letters:
  assumes "kw_Topic (w_dlq (ah_writers h)) \<noteq> kw_Topic (w_clean (ah_writers h))"
    and "\<And>i. i < length batch \<Longrightarrow> \<exists>ets. judge (fi_regs inp i) (km_Value (batch ! i)) = Inr ets"
    and "k_has K (w_k (fst (flush R K h inp batch w))) (kw_Topic (w_dlq (ah_writers h))) kd"
  shows "k_has K (w_k w) (kw_Topic (w_dlq (ah_writers h))) kd"
proof -
  have "pl_dlq (snd (flush_plan R h inp batch w)) = []"
    using flush_decode_all_valid [of batch "fi_regs inp" 0] assms(2) by (simp add: flush_plan_sel)
  then have "w_k (fst (flush R K h inp batch w)) = w_k (fst (after_clean R K h inp batch w))"
    by (simp add: flush_stages after_finish_def flush_finish_sel after_dlq_def flush_dlq_k)
  then show ?thesis
    using assms(1,3)
    by (auto simp: after_clean_def flush_clean_k [OF plan_fresh_ok] flush_plan_sel(5) split: if_splits dest: write_only)
qed

end

subsection \<open>A flush fails only at the broker\<close>

lemma flush_succeeds:
  assumes "\<And>k t msgs. snd (k_write K k t msgs)"
  shows "snd (flush R K h inp batch w)"
proof -
  have "snd (after_clean R K h inp batch w)"
    by (simp add: after_clean_def flush_clean_def WriteCleanBatch_eq [OF plan_fresh_ok] assms case_prod_beta
        split: bool.split)
  moreover have "snd (after_dlq R K h inp batch w)"
    by (simp add: after_dlq_def flush_dlq_def WriteDLQBatch_eq assms case_prod_beta)
  ultimately show ?thesis by (simp add: flush_stages)
qed

subsection \<open>The counters\<close>

definition settled :: "Metrics \<Rightarrow> nat" where
  "settled m = CleanProduced m + DuplicatesDropped m + DLQ m ''validation'' + DLQ m ''invalid_json''"

text \<open>The counters that stand for handled messages.\<close>

definition batch_counters :: "Metrics \<Rightarrow> nat \<times> nat \<times> (string \<Rightarrow> nat) \<times> (string \<Rightarrow> nat) \<times> (string \<times> string \<Rightarrow> nat)" where
  "batch_counters m = (CleanProduced m, DuplicatesDropped m, DLQ m, ValidationErrors m, Consumed m)"

lemma count_valid_sel:
  "CleanProduced (count_valid inp i vs m) = CleanProduced m"
  "DuplicatesDropped (count_valid inp i vs m) = DuplicatesDropped m"
  "DLQ (count_valid inp i vs m) = DLQ m"
  by (induction inp i vs m rule: count_valid.induct) simp_all

lemma count_dlq_sel:
  "CleanProduced (count_dlq its m) = CleanProduced m"
  "DuplicatesDropped (count_dlq its m) = DuplicatesDropped m"
  "DLQ (count_dlq its m) ''validation'' + DLQ (count_dlq its m) ''invalid_json'' =
     DLQ m ''validation'' + DLQ m ''invalid_json'' + length its"
  by (induction its m rule: count_dlq.induct) (simp_all add: Let_def inc_apply)

lemma flush_metrics_settled:
  "settled (flush_metrics inp p m) = settled m + length (pl_fresh p) + pl_dupes p + length (pl_dlq p)"
  unfolding flush_metrics_def Let_def settled_def
  using count_dlq_sel(3) [of "pl_dlq p"] by (simp add: count_dlq_sel(1,2) count_valid_sel)

lemma stage_counters:
  "batch_counters (w_m (fst (flush_plan R h inp batch w))) = batch_counters (w_m w)"
  "batch_counters (w_m (fst (flush_clean K h inp p w))) = batch_counters (w_m w)"
  "batch_counters (w_m (fst (flush_dlq K h inp p w))) = batch_counters (w_m w)"
  by (simp_all add: flush_plan_def flush_clean_def flush_dlq_def batch_counters_def observe_redis_def redis_error_def
      Let_def case_prod_beta split: bool.split)

lemma settled_counters: "batch_counters m = batch_counters m' \<Longrightarrow> settled m = settled m'"
  by (simp add: batch_counters_def settled_def)

lemma flush_finish_settled:
  "settled (w_m (flush_finish R h inp batch p w)) = settled (flush_metrics inp p (w_m w))"
  by (simp add: flush_finish_def Let_def case_prod_beta settled_def redis_error_def)

lemma stage_counters':
  "batch_counters (w_m (fst (after_clean R K h inp batch w))) = batch_counters (w_m w)"
  "batch_counters (w_m (fst (after_dlq R K h inp batch w))) = batch_counters (w_m w)"
  by (simp_all add: after_clean_def after_dlq_def stage_counters)

subsection \<open>A redelivered batch is shed\<close>

lemma flush_decode_ids:
  "map ve_id (fst (flush_decode fmt t regs n batch)) = map ve_id (fst (flush_decode fmt' t' regs n batch))"
  by (induction fmt t regs n batch rule: flush_decode.induct)
    (auto simp: Let_def case_prod_beta ve_id_def split: sum.splits)

lemma plan_uniq_id_set:
  "fi_regs inp = fi_regs inp' \<Longrightarrow> set (map ve_id (plan_uniq inp batch)) = set (map ve_id (plan_uniq inp' batch))"
  unfolding plan_uniq_ids(1) by (simp only: list.set_map [symmetric] flush_decode_ids [of "fi_sprintf inp" "fi_clk inp 0" _ _ _ "fi_sprintf inp'" "fi_clk inp' 0"])

locale analytics_live = redis_keys_live R + kafka_log K
  for R :: "'r redis" and K :: "('k, bytes) kafka" +
  assumes up: "fst (r_trip R r n) = None"
begin

lemma SeenBatch_up: "snd (SeenBatch R d ids r) = Some (map (marked R r) ids)"
proof (cases R d ids r rule: SeenBatch_cases)
  case failed
  then have "fst (r_trip R r (length ids)) \<noteq> None"
    by (auto simp: SeenBatch_def pipe_exec_def split: option.splits prod.splits)
  then show ?thesis by (simp add: up)
next
  case answered
  then show ?thesis using SeenBatch_live(1) [of d ids r] by simp
qed simp

lemma MarkBatch_up: "snd (MarkBatch R d ids r)"
  using up [of r "length ids"] by (auto simp: MarkBatch_def pipe_exec_def split: prod.splits option.splits)

lemma flush_marks:
  assumes "snd (flush R K h inp batch w)" "0 < dd_ttl (ah_dedup h)" "eid \<in> set (map ve_id (plan_uniq inp batch))"
  shows "marked R (w_r (fst (flush R K h inp batch w))) eid"
proof -
  have w: "fst (flush R K h inp batch w) = after_finish R K h inp batch w"
    using assms(1) by (auto simp: flush_stages split: if_splits)
  have r3: "w_r (fst (after_dlq R K h inp batch w)) = w_r (fst (flush_plan R h inp batch w))"
    by (simp add: after_dlq_def after_clean_def flush_dlq_def flush_clean_def case_prod_beta split: bool.split)
  have r1: "marked R (w_r (fst (flush_plan R h inp batch w))) = marked R (w_r w)"
    unfolding flush_plan_sel(6) by (rule SeenBatch_live(2) [OF SeenBatch_up])
  obtain j where j: "j < length (plan_uniq inp batch)" "eid = ve_id (plan_uniq inp batch ! j)"
    using assms(3) by (metis in_set_conv_nth length_map nth_map)
  have "marked R (w_r w) eid \<or> eid \<in> set (map ce_EventID (pl_fresh (snd (flush_plan R h inp batch w))))"
    using pick_fresh_or_seen [OF j(1), of "Some (map (marked R (w_r w)) (map ve_id (plan_uniq inp batch)))" 0] j
    by (auto simp: flush_plan_sel SeenBatch_up ve_id_def)
  then show ?thesis
    by (simp add: w after_finish_def flush_finish_sel MarkBatch_live [OF MarkBatch_up assms(2)] r3 r1)
qed

lemma redelivery_sheds:
  assumes "snd (flush R K h inp batch w)" "0 < dd_ttl (ah_dedup h)" "fi_regs inp' = fi_regs inp"
  shows "pl_fresh (snd (flush_plan R h inp' batch (fst (flush R K h inp batch w)))) = []"
  unfolding flush_plan_sel SeenBatch_up
proof (rule pick_fresh_all_seen)
  fix j
  assume "j < length (plan_uniq inp' batch)"
  moreover from this have "marked R (w_r (fst (flush R K h inp batch w))) (ve_id (plan_uniq inp' batch ! j))"
    using plan_uniq_id_set [OF assms(3), of batch] by (intro flush_marks [OF assms(1,2)]) auto
  ultimately show "map (marked R (w_r (fst (flush R K h inp batch w)))) (map ve_id (plan_uniq inp' batch)) ! (0 + j)"
    by simp
qed

end

sublocale analytics_live \<subseteq> analytics_env R K
  by unfold_locales

subsection \<open>The clean topic holds validated rows only\<close>

definition clean_row :: "flush_in \<Rightarrow> kmessage list \<Rightarrow> bytes \<times> bytes \<Rightarrow> bool" where
  "clean_row inp batch kd \<longleftrightarrow> (\<exists>i e ts. i < length batch \<and> judge (fi_regs inp i) (km_Value (batch ! i)) = Inr (e, ts)
     \<and> kd = (StationID e, clean_bytes ((Flatten e (fi_clk inp 0))\<lparr>ce_ProducedAt := format_ms (km_Time (batch ! i))\<rparr>)))"

lemma fresh_clean_row:
  assumes "ce \<in> set (pl_fresh (snd (flush_plan R h inp batch w)))"
  shows "clean_row inp batch (ce_StationID ce, clean_bytes ce)"
proof -
  obtain v where v: "v \<in> set (fst (flush_decode (fi_sprintf inp) (fi_clk inp 0) (fi_regs inp) 0 batch))" "ce = ve_clean v"
    using assms plan_fresh_sub by blast
  from flush_decode_origin [OF v(1)] obtain i e where "i < length batch"
    "judge (fi_regs inp (0 + i)) (km_Value (batch ! i)) = Inr (e, ve_ts v)"
    "ce = (Flatten e (fi_clk inp 0))\<lparr>ce_ProducedAt := format_ms (km_Time (batch ! i))\<rparr>"
    using v(2) by blast
  then show ?thesis unfolding clean_row_def by (intro exI [of _ i] exI [of _ e] exI [of _ "ve_ts v"]) simp
qed

context analytics_env
begin

lemma flush_keeps_has: "k_has K (w_k w) t kd \<Longrightarrow> k_has K (w_k (fst (flush R K h inp batch w))) t kd"
proof -
  assume "k_has K (w_k w) t kd"
  then have c: "k_has K (w_k (fst (after_clean R K h inp batch w))) t kd"
    by (simp add: after_clean_def flush_clean_k [OF plan_fresh_ok] flush_plan_sel(5) write_keeps)
  then have "k_has K (w_k (fst (after_dlq R K h inp batch w))) t kd"
    by (simp add: after_dlq_def flush_dlq_k write_keeps)
  with c show ?thesis by (simp add: flush_stages after_finish_def flush_finish_sel)
qed

lemma after_dlq_clean_topic:
  assumes "kw_Topic (w_dlq (ah_writers h)) \<noteq> kw_Topic (w_clean (ah_writers h))"
    and "k_has K (w_k (fst (after_dlq R K h inp batch w))) (kw_Topic (w_clean (ah_writers h))) kd"
  shows "k_has K (w_k (fst (after_clean R K h inp batch w))) (kw_Topic (w_clean (ah_writers h))) kd"
  using assms write_only [of "w_k (fst (after_clean R K h inp batch w))" "kw_Topic (w_dlq (ah_writers h))" _
      "kw_Topic (w_clean (ah_writers h))" kd]
  by (auto simp: after_dlq_def flush_dlq_k split: if_splits)

lemma flush_nothing_fresh:
  assumes "kw_Topic (w_dlq (ah_writers h)) \<noteq> kw_Topic (w_clean (ah_writers h))"
    and "pl_fresh (snd (flush_plan R h inp batch w)) = []"
    and "k_has K (w_k (fst (flush R K h inp batch w))) (kw_Topic (w_clean (ah_writers h))) kd"
  shows "k_has K (w_k w) (kw_Topic (w_clean (ah_writers h))) kd"
proof -
  have "w_k (fst (after_clean R K h inp batch w)) = w_k w"
    using assms(2) by (simp add: after_clean_def flush_clean_k [OF plan_fresh_ok] flush_plan_sel(5))
  then show ?thesis
    using assms(3) after_dlq_clean_topic [OF assms(1), of inp batch w kd]
    by (auto simp: flush_stages after_finish_def flush_finish_sel split: if_splits)
qed

lemma flush_clean_only:
  assumes "kw_Topic (w_dlq (ah_writers h)) \<noteq> kw_Topic (w_clean (ah_writers h))"
    and "k_has K (w_k (fst (flush R K h inp batch w))) (kw_Topic (w_clean (ah_writers h))) kd"
  shows "k_has K (w_k w) (kw_Topic (w_clean (ah_writers h))) kd \<or> clean_row inp batch kd"
proof -
  let ?p = "snd (flush_plan R h inp batch w)" and ?T = "kw_Topic (w_clean (ah_writers h))"
  have c: "k_has K (w_k w) ?T kd \<or> clean_row inp batch kd" if "k_has K (w_k (fst (after_clean R K h inp batch w))) ?T kd"
  proof (cases "pl_fresh ?p = []")
    case True
    then show ?thesis using that by (simp add: after_clean_def flush_clean_k [OF plan_fresh_ok] flush_plan_sel(5))
  next
    case False
    then have "k_has K (fst (k_write K (w_k w) ?T (map (\<lambda>ce. (ce_StationID ce, clean_bytes ce)) (pl_fresh ?p)))) ?T kd"
      using that by (simp add: after_clean_def flush_clean_k [OF plan_fresh_ok] flush_plan_sel(5))
    from write_only [OF this]
    have "k_has K (w_k w) ?T kd \<or> kd \<in> set (map (\<lambda>ce. (ce_StationID ce, clean_bytes ce)) (pl_fresh ?p))"
      by blast
    then show ?thesis using fresh_clean_row [of _ R h inp batch w] by auto
  qed
  show ?thesis
    using assms(2) c after_dlq_clean_topic [OF assms(1), of inp batch w kd] by (auto simp: flush_stages after_finish_def flush_finish_sel split: if_splits)
qed

end

subsection \<open>An example environment\<close>

definition steady_kafka :: "('v broker, 'v) kafka" where
  "steady_kafka = \<lparr>k_write = (\<lambda>b t msgs. (b\<lparr>b_log := b_log b @ map (Pair t) msgs\<rparr>, True)),
     k_has = (\<lambda>b t m. List.member (b_log b) (t, m))\<rparr>"

definition steady_keys :: "mem redis" where
  "steady_keys = (mem_redis False)\<lparr>r_trip := \<lambda>m n. (None, m)\<rparr>"

interpretation steady_env: analytics_live steady_keys steady_kafka
  by unfold_locales (auto simp: steady_keys_def steady_kafka_def mem_set_def)

interpretation mem_env: analytics_env "mem_redis d" mem_kafka
  by unfold_locales

definition demo_handler :: analyticsHandler where
  "demo_handler = \<lparr>ah_dedup = NewDeduper (120 * second), ah_writers = NewWriters demo_config\<rparr>"

definition demo_world :: "(mem, bytes broker) world" where
  "demo_world = \<lparr>w_r = mem_empty, w_k = broker_empty, w_m = NewMetrics\<rparr>"

definition demo_in :: flush_in where
  "demo_in = \<lparr>fi_clk = (\<lambda>i. 1767323046000000000 + int i), fi_regs = (\<lambda>_. (demo_reg, demo_reg)), fi_sprintf = (\<lambda>_. [])\<rparr>"

definition demo_msg :: "bytes \<Rightarrow> kmessage" where
  "demo_msg v = \<lparr>km_Key = ''ST-1'', km_Value = v, km_Time = 1767323045700000000\<rparr>"

definition demo_batch :: "kmessage list" where
  "demo_batch = [demo_msg demo_payload, demo_msg ''{'', demo_msg demo_payload]"

lemma demo_window: "window_ok (mem_redis d) K h demo_world" "window_ok steady_keys K h demo_world"
  by (simp_all add: window_ok_def marked_def demo_world_def mem_empty_def steady_keys_def)

subsection \<open>Properties\<close>

lemma steady_write: "snd (k_write steady_kafka k t msgs)"
  by (simp add: steady_kafka_def)

lemma demo_flush: "snd (flush steady_keys steady_kafka demo_handler demo_in demo_batch demo_world)"
  by (rule flush_succeeds) (rule steady_write)

text \<open>
  C5: No message is lost by a flush that reports success. While every marked id has been
  produced, each message of the batch ends as a dead letter that carries its key and raw payload,
  or as an event whose id is in the clean topic, produced by this flush or by an earlier one.
\<close>

theorem flush_accounts_for_every_message:
  assumes "redis_keys R" "kafka_log K" "window_ok R K h w" "snd (flush R K h inp batch w)"
  shows "list_all (accounted K (ah_writers h) (w_k (fst (flush R K h inp batch w)))) batch"
  unfolding list_all_iff using analytics_env.flush_accounts [OF analytics_env.intro [OF assms(1,2)] assms(3,4)] by blast

theorem flush_accounts_for_every_message_witness:
  "list_all (accounted steady_kafka (ah_writers demo_handler)
     (w_k (fst (flush steady_keys steady_kafka demo_handler demo_in demo_batch demo_world)))) demo_batch"
  by (rule flush_accounts_for_every_message [OF steady_env.redis_keys_axioms steady_env.kafka_log_axioms
        demo_window(2) demo_flush])

text \<open>
  C6: Marking never runs ahead of producing. A flush, whether it succeeds or fails, and a crash
  after any of its effects keep the invariant that an id marked in the dedup window has its row in
  the clean topic; so a crash can cause a duplicate but never drop an event.
\<close>

theorem mark_only_after_produce:
  assumes "redis_keys R" "kafka_log K" "window_ok R K h w"
  shows "window_ok R K h (fst (flush R K h inp batch w)) \<and> window_ok R K h (flush_crash R K h n inp batch w)"
  using analytics_env.flush_window_ok [OF analytics_env.intro [OF assms(1,2)] assms(3)]
    analytics_env.flush_crash_window_ok [OF analytics_env.intro [OF assms(1,2)] assms(3)] by blast

theorem mark_only_after_produce_witness:
  "window_ok (mem_redis True) mem_kafka demo_handler (fst (flush (mem_redis True) mem_kafka demo_handler demo_in demo_batch demo_world))
   \<and> window_ok (mem_redis True) mem_kafka demo_handler (flush_crash (mem_redis True) mem_kafka demo_handler 2 demo_in demo_batch demo_world)"
  by (rule mark_only_after_produce [OF mem_keys.redis_keys_axioms mem_broker.kafka_log_axioms demo_window(1)])



text \<open>
  \<^verbatim>\<open>kafka.Writer\<close> refuses a message above its limit (\<^verbatim>\<open>BatchBytes\<close>, one megabyte unless set, and it is
  not set here), while the encoding of a dead letter can be six times its payload: a flush of a batch
  with such a rejected message fails.
\<close>

lemma oversized_flush_fails:
  assumes "\<And>k t msgs kv. kv \<in> set msgs \<Longrightarrow> limit < length (snd kv) \<Longrightarrow> \<not> snd (k_write K k t msgs)"
    and "i < length batch" "judge (fi_regs inp i) (km_Value (batch ! i)) = Inl err"
    and "limit < length (appendString (km_Value (batch ! i)))"
  shows "\<not> snd (flush R K h inp batch w)"
proof
  assume "snd (flush R K h inp batch w)"
  then have ok: "snd (after_dlq R K h inp batch w)" by (auto simp: flush_stages split: if_splits)
  obtain it where it: "it \<in> set (pl_dlq (snd (flush_plan R h inp batch w)))" "di_Raw it = km_Value (batch ! i)"
    using flush_decode_dlq [of i batch "fi_regs inp" 0 err "fi_sprintf inp" "fi_clk inp 0"] assms(2,3) by (auto simp: flush_plan_sel)
  have "limit < length (dlq_bytes it (fi_clk inp 0))"
    using dlq_bytes_length [of it "fi_clk inp 0"] it(2) assms(4) by simp
  then have "\<not> snd (k_write K k t (map (\<lambda>it. (di_Key it, dlq_bytes it (fi_clk inp 0))) (pl_dlq (snd (flush_plan R h inp batch w)))))" for k t
    using it(1) by (intro assms(1) [of "(di_Key it, dlq_bytes it (fi_clk inp 0))"]) auto
  with ok it(1) show False
    by (auto simp: after_dlq_def flush_dlq_def WriteDLQBatch_eq case_prod_beta split: if_splits)
qed

definition small_kafka :: "(bytes broker, bytes) kafka" where
  "small_kafka = mem_kafka\<lparr>k_write := \<lambda>b t msgs. if list_all (\<lambda>kv. length (snd kv) \<le> 1048576) msgs then broker_write b t msgs else (b, False)\<rparr>"

definition angles :: bytes where
  "angles = replicate 200000 (CHR ''<'')"

lemma angles_invalid: "judge regs angles = Inl (verr ''invalid_json'' ''invalid json: %v'' [])"
proof -
  have "\<not> is_digit (CHR ''<'')" "\<not> is_space (CHR ''<'')" by code_simp+
  then have "lex (CHR ''<'' # r) = None" for r
    by (simp add: lex.simps [of "CHR ''<'' # r"] lex_number_def lex_int_def)
  moreover have "angles = CHR ''<'' # replicate 199999 (CHR ''<'')"
    unfolding angles_def by (simp flip: replicate_Suc)
  ultimately have "lex angles = None" by metis
  then show ?thesis by (simp add: judge_def Decode_def Unmarshal_Event_def json_parse_def)
qed

text \<open>A message that no registry makes valid and whose dead letter is above the limit.\<close>

definition oversized :: "nat \<Rightarrow> kmessage \<Rightarrow> bool" where
  "oversized limit msg \<longleftrightarrow> (\<forall>regs. \<exists>err. judge regs (km_Value msg) = Inl err) \<and> limit < length (appendString (km_Value msg))"

lemma angles_oversized: "oversized 1048576 (demo_msg angles)" "length (km_Value (demo_msg angles)) < 1048576"
  by (simp_all add: oversized_def demo_msg_def angles_invalid) (simp_all add: angles_def appendString_angles)

text \<open>
  C12: The counters account for every message once. A successful flush raises the sum of produced
  rows, dropped duplicates and dead letters by the size of the batch; a failed one leaves every
  per-message counter as it was, so that the redelivered batch is counted once.
\<close>

theorem flush_counts_once:
  "if snd (flush R K h inp batch w)
   then settled (w_m (fst (flush R K h inp batch w))) = settled (w_m w) + length batch
   else batch_counters (w_m (fst (flush R K h inp batch w))) = batch_counters (w_m w)"
proof (cases "snd (flush R K h inp batch w)")
  case True
  then have w: "fst (flush R K h inp batch w) = after_finish R K h inp batch w"
    by (auto simp: flush_stages split: if_splits)
  have "settled (w_m (after_finish R K h inp batch w)) = settled (w_m (fst (after_dlq R K h inp batch w))) + length batch"
    using plan_lengths [of R h inp batch w] by (simp add: after_finish_def flush_finish_settled flush_metrics_settled)
  with True w show ?thesis using settled_counters [OF stage_counters'(2)] by simp
next
  case False
  then show ?thesis by (auto simp: flush_stages stage_counters' split: if_splits)
qed

text \<open>
  C11: Only validated events reach the clean topic. Every message a flush adds to it comes from a
  message of the batch that decodes and validates; it is keyed by the station and its value is the
  flattened row stamped with the flush's clock and the message's produce time.
\<close>

theorem clean_topic_only_validated:
  assumes "redis_keys R" "kafka_log K" "kw_Topic (w_dlq (ah_writers h)) \<noteq> kw_Topic (w_clean (ah_writers h))"
    and "k_has K (w_k (fst (flush R K h inp batch w))) (kw_Topic (w_clean (ah_writers h))) kd"
  shows "k_has K (w_k w) (kw_Topic (w_clean (ah_writers h))) kd \<or> clean_row inp batch kd"
  using analytics_env.flush_clean_only [OF analytics_env.intro [OF assms(1,2)] assms(3,4)] .

lemma demo_topics: "kw_Topic (w_dlq (ah_writers demo_handler)) \<noteq> kw_Topic (w_clean (ah_writers demo_handler))"
  by (simp add: demo_handler_def NewWriters_def mk_writer_def demo_config_def Let_def)

lemma demo_in_topic:
  "k_has steady_kafka (w_k (fst (flush steady_keys steady_kafka demo_handler demo_in demo_batch
     (demo_world\<lparr>w_k := \<lparr>b_log = [(kw_Topic (w_clean (ah_writers demo_handler)), ''k'', [])], b_faults = []\<rparr>\<rparr>))))
     (kw_Topic (w_clean (ah_writers demo_handler))) (''k'', [])"
  by (simp add: flush_stages after_finish_def after_dlq_def after_clean_def flush_finish_sel steady_env.flush_dlq_k
      steady_env.flush_clean_k [OF plan_fresh_ok] flush_plan_sel(5)) (simp add: steady_kafka_def demo_world_def)

theorem clean_topic_only_validated_witness:
  "\<exists>w kd. k_has steady_kafka (w_k (fst (flush steady_keys steady_kafka demo_handler demo_in demo_batch w)))
      (kw_Topic (w_clean (ah_writers demo_handler))) kd
    \<and> (k_has steady_kafka (w_k w) (kw_Topic (w_clean (ah_writers demo_handler))) kd \<or> clean_row demo_in demo_batch kd)"
  using demo_in_topic clean_topic_only_validated [OF steady_env.redis_keys_axioms steady_env.kafka_log_axioms demo_topics demo_in_topic]
  by blast



end
