(* ===== verification/RedisState.thy ===== *)
theory RedisState
  imports Redis Transform
begin

text \<open>
  \<^verbatim>\<open>processor/redis_state.go\<close>: the current state of a connector, one hash per connector,
  written by an atomic compare-and-set script. The script is translated statement by statement;
  \<^verbatim>\<open>tonumber\<close>, the hash commands and the argument rendering are those of the Redis
  interface. A script error is \<^const>\<open>None\<close>.
  The abstract specification is a last-writer-wins cell: the newest event time and the fields
  written so far. Shown: a pipelined batch, failed or not, refines the application of a prefix of
  its events to the cells of their keys, replaying a batch changes nothing, event time never goes
  back, and the status of a connector comes from \<^verbatim>\<open>STATUS_CHANGE\<close> only.
\<close>

record StateStore =
  ss_ttl :: duration

definition NewStateStore :: "duration \<Rightarrow> StateStore" where
  "NewStateStore ttl = \<lparr>ss_ttl = ttl\<rparr>"

definition stateKey :: "string \<Rightarrow> int \<Rightarrow> string" where
  "stateKey stationID connectorID = ''station:'' @ stationID @ '':'' @ strconv_Itoa connectorID"

definition stateKeyForEvent :: "Event \<Rightarrow> string" where
  "stateKeyForEvent e =
     (if EventType e = ''HEARTBEAT'' then ''station_liveness:'' @ StationID e
      else stateKey (StationID e) (ConnectorID e))"

definition deriveStatus :: "Event \<Rightarrow> string" where
  "deriveStatus e = (if EventType e = ''STATUS_CHANGE'' then Status e else [])"

record stateEvent =
  se_e :: Event
  se_ts :: instant
  se_produced :: instant

text \<open>\<^verbatim>\<open>Duration.Milliseconds\<close> truncates toward zero.\<close>

definition Milliseconds :: "duration \<Rightarrow> int" where
  "Milliseconds d = (if 0 \<le> d then d div millisecond else - (- d div millisecond))"

definition stateArgs :: "Event \<Rightarrow> instant \<Rightarrow> duration \<Rightarrow> redis_arg list" where
  "stateArgs e ts ttl =
     (let args = [ArgInt (UnixMilli ts), ArgInt (Milliseconds ttl)];
          st = deriveStatus e;
          args = (if st \<noteq> [] then args @ [ArgStr ''status'', ArgStr st] else args);
          args = (case Meter e of None \<Rightarrow> args
                  | Some m \<Rightarrow> args @ [ArgStr ''power'', ArgFloat (PowerKW m),
                                     ArgStr ''soc'', ArgInt (SocPercent m)])
      in if EventType e = ''SESSION_START'' \<or> EventType e = ''METER_UPDATE''
         then (if SessionID e \<noteq> [] then args @ [ArgStr ''session'', ArgStr (SessionID e)] else args)
         else if EventType e = ''SESSION_STOP''
         then args @ [ArgStr ''session'', ArgStr [], ArgStr ''power'', ArgInt 0]
         else args)"

text \<open>The field-value pairs of a variadic \<^verbatim>\<open>HSET\<close>; an odd number of arguments is an error.\<close>

fun hset_pairs :: "'a list \<Rightarrow> ('a \<times> 'a) list option" where
  "hset_pairs [] = Some []"
| "hset_pairs [_] = None"
| "hset_pairs (f # v # rest) = map_option (Cons (f, v)) (hset_pairs rest)"

definition casScript :: "'r redis \<Rightarrow> string \<Rightarrow> bytes list \<Rightarrow> 'r \<Rightarrow> 'r \<times> int option" where
  "casScript R key argv r =
     (case argv of
        arg1 # arg2 # rest \<Rightarrow>
          (let write = (case hset_pairs rest of
                 None \<Rightarrow> (r, None)
               | Some fvs \<Rightarrow> (r_pexpire R (r_hset R r key ((''last_seen'', arg1) # fvs)) key arg2, Some 1))
           in case r_hget R r key ''last_seen'' of
                None \<Rightarrow> write
              | Some stored \<Rightarrow>
                  (case (lua_tonumber R arg1, lua_tonumber R stored) of
                     (Some t, Some s) \<Rightarrow> if t < s then (r, Some 0) else write
                   | _ \<Rightarrow> (r, None)))
      | _ \<Rightarrow> (r, None))"

definition cas_event :: "'r redis \<Rightarrow> StateStore \<Rightarrow> stateEvent \<Rightarrow> 'r \<Rightarrow> 'r \<times> int option" where
  "cas_event R s ev = casScript R (stateKeyForEvent (se_e ev))
     (map (append_arg R) (stateArgs (se_e ev) (se_ts ev) (ss_ttl s)))"

text \<open>
  \<^verbatim>\<open>Script.Run\<close> (an \<^verbatim>\<open>EVALSHA\<close> that falls back to \<^verbatim>\<open>EVAL\<close> when the script is not
  cached) is one command. The error result is \<^const>\<open>None\<close>.
\<close>

definition Apply :: "'r redis \<Rightarrow> StateStore \<Rightarrow> Event \<Rightarrow> instant \<Rightarrow> 'r \<Rightarrow> 'r \<times> bool option" where
  "Apply R s e ts r =
     (case pipe_exec R [cas_event R s \<lparr>se_e = e, se_ts = ts, se_produced = 0\<rparr>] r of
        (r', Some [Some res]) \<Rightarrow> (r', Some (res = 1))
      | (r', _) \<Rightarrow> (r', None))"

text \<open>
  \<^verbatim>\<open>Exec\<close> also reports the first error among the replies, so one failed script makes the
  whole call fail.
\<close>

definition ApplyBatch :: "'r redis \<Rightarrow> StateStore \<Rightarrow> stateEvent list \<Rightarrow> 'r \<Rightarrow> 'r \<times> bool list option" where
  "ApplyBatch R s events r =
     (if events = [] then (r, Some [])
      else case pipe_exec R (map (cas_event R s) events) r of
        (r', None) \<Rightarrow> (r', None)
      | (r', Some replies) \<Rightarrow>
          if list_all (\<lambda>x. x \<noteq> None) replies then (r', Some (map (\<lambda>x. x = Some 1) replies)) else (r', None))"

subsection \<open>Keys\<close>

lemma stateKey_inj: "stateKey s c = stateKey s' c' \<Longrightarrow> s = s' \<and> c = c'"
proof -
  assume "stateKey s c = stateKey s' c'"
  then have "s @ CHR '':'' # strconv_Itoa c = s' @ CHR '':'' # strconv_Itoa c'"
    by (simp add: stateKey_def)
  then have "s = s' \<and> strconv_Itoa c = strconv_Itoa c'"
    by (rule split_at_last_sep) (simp_all add: strconv_Itoa_no_colon)
  then show ?thesis by (auto dest: strconv_Itoa_inj)
qed

lemma liveness_key_disjoint: "''station_liveness:'' @ s \<noteq> stateKey s' c"
  by (simp add: stateKey_def)

subsection \<open>Last-writer-wins cells\<close>

text \<open>
  The specification of one key: the time of the newest accepted event and the fields written, or
  nothing. An event carries its time and the fields it writes.
\<close>

type_synonym 'v cell = "(int \<times> (string \<rightharpoonup> 'v)) option"

fun apply_cell :: "int \<times> (string \<rightharpoonup> 'v) \<Rightarrow> 'v cell \<Rightarrow> 'v cell" where
  "apply_cell (t, w) None = Some (t, w)"
| "apply_cell (t, w) (Some (s, m)) = (if t < s then Some (s, m) else Some (t, m ++ w))"

definition apply_cells :: "(int \<times> (string \<rightharpoonup> 'v)) list \<Rightarrow> 'v cell \<Rightarrow> 'v cell" where
  "apply_cells ws c = foldl (\<lambda>c w. apply_cell w c) c ws"

lemma apply_cells_simps [simp]:
  "apply_cells [] c = c" "apply_cells (w # ws) c = apply_cells ws (apply_cell w c)"
  "apply_cells (ws @ vs) c = apply_cells vs (apply_cells ws c)"
  by (simp_all add: apply_cells_def)

lemma apply_cell_not_None [simp]: "apply_cell w c \<noteq> None"
  by (cases "(w, c)" rule: apply_cell.cases) simp_all

lemma apply_cells_None [simp]: "apply_cells ws c = None \<longleftrightarrow> ws = [] \<and> c = None"
  by (cases ws rule: rev_cases) simp_all

text \<open>The fields written by the events of time \<open>L\<close>, in order.\<close>

definition top_writes :: "int \<Rightarrow> (int \<times> (string \<rightharpoonup> 'v)) list \<Rightarrow> string \<rightharpoonup> 'v" where
  "top_writes L ws = foldl (++) Map.empty (map snd (filter (\<lambda>w. fst w = L) ws))"

lemma top_writes_simps [simp]:
  "top_writes L [] = Map.empty"
  "top_writes L [(t, w)] = (if t = L then w else Map.empty)"
  "top_writes L (ws @ [(t, w)]) = (if t = L then top_writes L ws ++ w else top_writes L ws)"
  by (simp_all add: top_writes_def)

lemma top_writes_none: "(\<And>t w. (t, w) \<in> set ws \<Longrightarrow> t < L) \<Longrightarrow> top_writes L ws = Map.empty"
  by (induction ws rule: rev_induct) fastforce+

text \<open>The result of a run is the newest time, and the writes of that time come last in it.\<close>

lemma apply_cells_top:
  assumes "apply_cells ws c = Some (L, m)"
  shows "(\<forall>(t, w) \<in> set ws. t \<le> L) \<and> (\<exists>m0. m = m0 ++ top_writes L ws)"
  using assms
proof (induction ws arbitrary: L m rule: rev_induct)
  case (snoc tw ws)
  obtain t w where tw: "tw = (t, w)" by (cases tw)
  show ?case
  proof (cases "apply_cells ws c")
    case None
    then have "L = t" "ws = []" "m = Map.empty ++ w" using snoc.prems by (simp_all add: tw)
    then show ?thesis unfolding tw by (intro conjI exI [of _ Map.empty]) simp_all
  next
    case (Some sm)
    obtain s m1 where sm: "sm = (s, m1)" by (cases sm)
    note IH = snoc.IH [OF Some [unfolded sm]]
    show ?thesis
    proof (cases "t < s")
      case True
      then show ?thesis using IH Some snoc.prems by (auto simp: tw sm)
    next
      case False
      then have L: "L = t" "m = m1 ++ w" using Some snoc.prems by (auto simp: tw sm)
      have "\<exists>m0. m1 = m0 ++ top_writes t ws"
      proof (cases "s = t")
        case False
        then have "top_writes t ws = Map.empty"
          using IH \<open>\<not> t < s\<close> by (intro top_writes_none) fastforce
        then show ?thesis by auto
      qed (use IH in simp)
      then obtain m0 where "m1 = m0 ++ top_writes t ws" by blast
      then have "m = m0 ++ top_writes L (ws @ [tw])" by (simp add: L tw)
      moreover have "\<forall>(t', w) \<in> set (ws @ [tw]). t' \<le> L" using IH False by (auto simp: tw L)
      ultimately show ?thesis by blast
    qed
  qed
qed simp

lemma apply_cells_old:
  "(\<forall>(t, w) \<in> set ws. t \<le> L) \<Longrightarrow> apply_cells ws (Some (L, m)) = Some (L, m ++ top_writes L ws)"
  by (induction ws rule: rev_induct) auto

text \<open>Replaying a run on its own result changes nothing.\<close>

lemma apply_cells_idem: "apply_cells ws (apply_cells ws c) = apply_cells ws c"
proof (cases "apply_cells ws c")
  case None
  then show ?thesis by simp
next
  case (Some Lm)
  obtain L m where Lm: "Lm = (L, m)" by (cases Lm)
  from Some Lm apply_cells_top obtain m0 where le: "\<forall>(t, w) \<in> set ws. t \<le> L" and m: "m = m0 ++ top_writes L ws"
    by blast
  have "apply_cells ws (Some (L, m)) = Some (L, m ++ top_writes L ws)" using le by (rule apply_cells_old)
  also have "m ++ top_writes L ws = m" by (simp add: m fun_eq_iff map_add_def split: option.split)
  finally show ?thesis by (simp add: Some Lm)
qed

subsection \<open>The script refines the cell\<close>

definition cell_of :: "(string \<rightharpoonup> bytes) \<Rightarrow> bytes cell" where
  "cell_of h = (case h ''last_seen'' of None \<Rightarrow> None
     | Some b \<Rightarrow> (case dec_int b of None \<Rightarrow> None | Some ms \<Rightarrow> Some (ms, h(''last_seen'' := None))))"

definition hash_wf :: "(string \<rightharpoonup> bytes) \<Rightarrow> bool" where
  "hash_wf h \<longleftrightarrow> (case h ''last_seen'' of None \<Rightarrow> h = Map.empty
     | Some b \<Rightarrow> \<exists>ms. \<bar>ms\<bar> \<le> 2 ^ 53 \<and> b = strconv_Itoa ms)"

definition state_wf :: "'r redis \<Rightarrow> 'r \<Rightarrow> bool" where
  "state_wf R r \<longleftrightarrow> (\<forall>k. hash_wf (r_hget R r k))"

text \<open>The fields an event writes, and its write on the cell of its key.\<close>

definition state_fields :: "'r redis \<Rightarrow> Event \<Rightarrow> (string \<times> bytes) list" where
  "state_fields R e =
     (if EventType e = ''STATUS_CHANGE'' \<and> Status e \<noteq> [] then [(''status'', Status e)] else [])
     @ (case Meter e of None \<Rightarrow> []
        | Some m \<Rightarrow> [(''power'', fmt_float R (PowerKW m)), (''soc'', strconv_Itoa (SocPercent m))])
     @ (if EventType e \<in> {''SESSION_START'', ''METER_UPDATE''} \<and> SessionID e \<noteq> []
        then [(''session'', SessionID e)]
        else if EventType e = ''SESSION_STOP'' then [(''session'', []), (''power'', ''0'')] else [])"

definition event_write :: "'r redis \<Rightarrow> stateEvent \<Rightarrow> int \<times> (string \<rightharpoonup> bytes)" where
  "event_write R ev = (UnixMilli (se_ts ev), map_of (rev (state_fields R (se_e ev))))"

lemma Itoa_0: "strconv_Itoa 0 = ''0''"
  by (simp add: strconv_Itoa_def dec_digits.simps [of 0] digit_char_0)

lemma stateArgs_fields:
  "\<exists>rest. map (append_arg R) (stateArgs e ts ttl) = strconv_Itoa (UnixMilli ts) # strconv_Itoa (Milliseconds ttl) # rest
     \<and> hset_pairs rest = Some (state_fields R e)"
  by (cases "Meter e") (auto simp: stateArgs_def Let_def deriveStatus_def state_fields_def Itoa_0)

lemma last_seen_reserved [simp]: "map_of (rev (state_fields R e)) ''last_seen'' = None"
  by (cases "Meter e") (auto simp: state_fields_def)

lemma cell_of_empty [simp]: "cell_of Map.empty = None"
  by (simp add: cell_of_def)

lemma hash_wf_empty [simp]: "hash_wf Map.empty"
  by (simp add: hash_wf_def)

lemma hash_wf_cases:
  assumes "hash_wf h"
  obtains "h = Map.empty" | ms m where "\<bar>ms\<bar> \<le> 2 ^ 53" "h ''last_seen'' = Some (strconv_Itoa ms)"
    "cell_of h = Some (ms, h(''last_seen'' := None))"
  using assms by (auto simp: hash_wf_def cell_of_def split: option.splits)

lemma cell_of_write:
  assumes "w ''last_seen'' = None"
  shows "cell_of (h(''last_seen'' \<mapsto> strconv_Itoa t) ++ w) = Some (t, (h(''last_seen'' := None)) ++ w)"
proof -
  have "(h(''last_seen'' \<mapsto> strconv_Itoa t) ++ w)(''last_seen'' := None) = (h(''last_seen'' := None)) ++ w"
    using assms by (auto simp: fun_eq_iff map_add_def split: option.split)
  then show ?thesis using assms by (simp add: cell_of_def map_add_def)
qed

text \<open>The writes a run of events makes on one key, and which of the events the cells accept.\<close>

definition accepts :: "int \<Rightarrow> 'v cell \<Rightarrow> bool" where
  "accepts t c = (case c of None \<Rightarrow> True | Some (s, _) \<Rightarrow> s \<le> t)"

definition writes_for :: "'r redis \<Rightarrow> string \<Rightarrow> stateEvent list \<Rightarrow> (int \<times> (string \<rightharpoonup> bytes)) list" where
  "writes_for R k evs = map (event_write R) (filter (\<lambda>ev. stateKeyForEvent (se_e ev) = k) evs)"

fun accept_flags :: "'r redis \<Rightarrow> stateEvent list \<Rightarrow> (string \<Rightarrow> bytes cell) \<Rightarrow> bool list" where
  "accept_flags R [] c = []"
| "accept_flags R (ev # evs) c =
     (let k = stateKeyForEvent (se_e ev)
      in accepts (UnixMilli (se_ts ev)) (c k) # accept_flags R evs (c(k := apply_cell (event_write R ev) (c k))))"

context redis_hash
begin

lemma hget_write:
  assumes "0 < ms"
  shows "r_hget R (r_pexpire R (r_hset R r key ((f, v) # fvs)) key (strconv_Itoa ms)) k =
    (if k = key then r_hget R r key ++ ([f \<mapsto> v] ++ map_of (rev fvs)) else r_hget R r k)"
  using assms by (simp add: hget_pexpire hget_hset)

lemma cas_event_cases:
  assumes "hash_wf (r_hget R r (stateKeyForEvent (se_e ev)))" "\<bar>UnixMilli (se_ts ev)\<bar> \<le> 2 ^ 53"
  shows "cas_event R s ev r =
    (case cell_of (r_hget R r (stateKeyForEvent (se_e ev))) of
       Some (ms, _) \<Rightarrow> if UnixMilli (se_ts ev) < ms then (r, Some 0) else
         (r_pexpire R (r_hset R r (stateKeyForEvent (se_e ev))
            ((''last_seen'', strconv_Itoa (UnixMilli (se_ts ev))) # state_fields R (se_e ev)))
            (stateKeyForEvent (se_e ev)) (strconv_Itoa (Milliseconds (ss_ttl s))), Some 1)
     | None \<Rightarrow>
         (r_pexpire R (r_hset R r (stateKeyForEvent (se_e ev))
            ((''last_seen'', strconv_Itoa (UnixMilli (se_ts ev))) # state_fields R (se_e ev)))
            (stateKeyForEvent (se_e ev)) (strconv_Itoa (Milliseconds (ss_ttl s))), Some 1))"
proof -
  obtain rest where "map (append_arg R) (stateArgs (se_e ev) (se_ts ev) (ss_ttl s)) =
      strconv_Itoa (UnixMilli (se_ts ev)) # strconv_Itoa (Milliseconds (ss_ttl s)) # rest"
    "hset_pairs rest = Some (state_fields R (se_e ev))"
    using stateArgs_fields [of R "se_e ev" "se_ts ev" "ss_ttl s"] by (elim exE conjE) (rule that)
  then show ?thesis
    using assms by (auto elim!: hash_wf_cases simp: cas_event_def casScript_def tonumber_Itoa f64_of_int_exact)
qed

lemma cas_event_cell:
  assumes wf: "state_wf R r" and ms: "\<bar>UnixMilli (se_ts ev)\<bar> \<le> 2 ^ 53" and ttl: "0 < Milliseconds (ss_ttl s)"
  shows "cell_of (r_hget R (fst (cas_event R s ev r)) k) =
      (if k = stateKeyForEvent (se_e ev) then apply_cell (event_write R ev) (cell_of (r_hget R r k))
       else cell_of (r_hget R r k))" (is ?cell)
    and "hash_wf (r_hget R (fst (cas_event R s ev r)) k)" (is ?wf)
    and "snd (cas_event R s ev r) =
      Some (if accepts (UnixMilli (se_ts ev)) (cell_of (r_hget R r (stateKeyForEvent (se_e ev)))) then 1 else 0)" (is ?res)
proof -
  let ?key = "stateKeyForEvent (se_e ev)"
  have hw: "hash_wf (r_hget R r k')" for k' using wf by (simp add: state_wf_def)
  have write_wf: "hash_wf (h ++ ([''last_seen'' \<mapsto> strconv_Itoa (UnixMilli (se_ts ev))] ++ map_of (rev (state_fields R (se_e ev)))))" for h
    using ms by (auto simp: hash_wf_def map_add_def)
  note c = cas_event_cases [OF hw ms, where s = s]
  show ?cell
    using hw [of ?key] by (cases rule: hash_wf_cases)
      (auto simp: c hget_write [OF ttl] cell_of_write event_write_def)
  show ?wf
    using hw [of ?key] by (cases rule: hash_wf_cases) (use hw write_wf in \<open>auto simp: c hget_write [OF ttl]\<close>)
  show ?res
    using hw [of ?key] by (cases rule: hash_wf_cases) (auto simp: c accepts_def)
qed

lemma run_cas_cells:
  assumes "state_wf R r" "\<forall>ev \<in> set evs. \<bar>UnixMilli (se_ts ev)\<bar> \<le> 2 ^ 53" "0 < Milliseconds (ss_ttl s)"
  shows "state_wf R (fst (run_cmds (map (cas_event R s) evs) r))
    \<and> (\<forall>k. cell_of (r_hget R (fst (run_cmds (map (cas_event R s) evs) r)) k) =
         apply_cells (writes_for R k evs) (cell_of (r_hget R r k)))
    \<and> snd (run_cmds (map (cas_event R s) evs) r) =
         map (\<lambda>b. Some (if b then 1 else 0)) (accept_flags R evs (\<lambda>k. cell_of (r_hget R r k)))"
  using assms
proof (induction evs arbitrary: r)
  case (Cons ev evs)
  let ?r = "fst (cas_event R s ev r)"
  have step: "state_wf R ?r" "\<And>k. cell_of (r_hget R ?r k) =
      (if k = stateKeyForEvent (se_e ev) then apply_cell (event_write R ev) (cell_of (r_hget R r k))
       else cell_of (r_hget R r k))"
    using cas_event_cell [OF Cons.prems(1) _ Cons.prems(3)] Cons.prems(2) by (auto simp: state_wf_def)
  have "(\<lambda>k. cell_of (r_hget R ?r k)) = (\<lambda>k. cell_of (r_hget R r k))
      (stateKeyForEvent (se_e ev) := apply_cell (event_write R ev) (cell_of (r_hget R r (stateKeyForEvent (se_e ev)))))"
    using step(2) by (simp add: fun_eq_iff)
  then show ?case
    using Cons.IH [OF step(1)] Cons.prems step(2) cas_event_cell(3) [OF Cons.prems(1) _ Cons.prems(3), of ev]
    by (simp add: writes_for_def Let_def)
qed (simp add: writes_for_def)

lemma state_wf_trip: "state_wf R r \<Longrightarrow> state_wf R (snd (r_trip R r n))"
  unfolding state_wf_def using hget_trip by (metis hash_wf_empty)

lemma ApplyBatch_cells:
  assumes "state_wf R r" "\<forall>ev \<in> set evs. \<bar>UnixMilli (se_ts ev)\<bar> \<le> 2 ^ 53" "0 < Milliseconds (ss_ttl s)"
  obtains n r1 where "r1 = r \<or> r1 = snd (r_trip R r (length evs))"
    "state_wf R (fst (ApplyBatch R s evs r))"
    "\<And>k. cell_of (r_hget R (fst (ApplyBatch R s evs r)) k) = apply_cells (writes_for R k (take n evs)) (cell_of (r_hget R r1 k))"
    "\<And>flags. snd (ApplyBatch R s evs r) = Some flags \<Longrightarrow>
       n = length evs \<and> flags = accept_flags R evs (\<lambda>k. cell_of (r_hget R r1 k))"
proof (cases "evs = []")
  case True
  then show thesis using assms(1) by (intro that [of r 0]) (simp_all add: ApplyBatch_def writes_for_def)
next
  case False
  let ?r1 = "snd (r_trip R r (length evs))" and ?cs = "map (cas_event R s) evs"
  obtain n where n: "fst (pipe_exec R ?cs r) = fst (run_cmds (take n ?cs) ?r1)"
    "snd (pipe_exec R ?cs r) \<noteq> None \<Longrightarrow> n = length evs"
    using pipe_exec_prefix [of R ?cs r] by auto
  have res: "xs = snd (run_cmds ?cs ?r1)" if "snd (pipe_exec R ?cs r) = Some xs" for xs
    using that by (simp add: pipe_exec_simps split: option.splits)
  have fst_eq: "fst (ApplyBatch R s evs r) = fst (pipe_exec R ?cs r)"
    using False by (simp add: ApplyBatch_def split: prod.split option.split)
  have snd_eq: "\<exists>xs. snd (pipe_exec R ?cs r) = Some xs \<and> flags = map (\<lambda>x. x = Some 1) xs"
    if "snd (ApplyBatch R s evs r) = Some flags" for flags
    using False that by (auto simp: ApplyBatch_def split: prod.splits option.splits if_splits)
  have wf1: "state_wf R ?r1" using assms(1) by (rule state_wf_trip)
  have "\<forall>ev \<in> set (take m evs). \<bar>UnixMilli (se_ts ev)\<bar> \<le> 2 ^ 53" for m
    using assms(2) by (auto dest: in_set_takeD)
  note run = run_cas_cells [OF wf1 this assms(3)] and run_all = run_cas_cells [OF wf1 assms(2,3)]
  show thesis
  proof (rule that [of ?r1 n])
    show "state_wf R (fst (ApplyBatch R s evs r))"
      using run [of n] by (simp add: fst_eq n(1) take_map)
    show "cell_of (r_hget R (fst (ApplyBatch R s evs r)) k) = apply_cells (writes_for R k (take n evs)) (cell_of (r_hget R ?r1 k))" for k
      using run [of n] by (simp add: fst_eq n(1) take_map)
    show "n = length evs \<and> flags = accept_flags R evs (\<lambda>k. cell_of (r_hget R ?r1 k))"
      if "snd (ApplyBatch R s evs r) = Some flags" for flags
      using snd_eq [OF that] n(2) res run_all by (auto simp: comp_def)
  qed simp
qed

text \<open>The script itself never fails, so a batch fails only with its round trip.\<close>

lemma ApplyBatch_succeeds:
  assumes "state_wf R r" "\<forall>ev \<in> set evs. \<bar>UnixMilli (se_ts ev)\<bar> \<le> 2 ^ 53" "0 < Milliseconds (ss_ttl s)"
    and "fst (r_trip R r (length evs)) = None"
  shows "\<exists>flags. snd (ApplyBatch R s evs r) = Some flags"
proof -
  have "snd (run_cmds (map (cas_event R s) evs) (snd (r_trip R r (length evs)))) =
      map (\<lambda>b. Some (if b then 1 else 0)) (accept_flags R evs (\<lambda>k. cell_of (r_hget R (snd (r_trip R r (length evs))) k)))"
    using run_cas_cells [OF state_wf_trip [OF assms(1)] assms(2,3)] by blast
  then have "snd (pipe_exec R (map (cas_event R s) evs) r) =
      Some (map (\<lambda>b. Some (if b then 1 else 0)) (accept_flags R evs (\<lambda>k. cell_of (r_hget R (snd (r_trip R r (length evs))) k))))"
    using assms(4) by (simp add: pipe_exec_simps)
  then show ?thesis by (auto simp: ApplyBatch_def list_all_iff split: prod.split)
qed

end

context redis_hash_live
begin

text \<open>Without expiry the starting cells are those of the state the batch found.\<close>

lemma ApplyBatch_live:
  assumes "state_wf R r" "\<forall>ev \<in> set evs. \<bar>UnixMilli (se_ts ev)\<bar> \<le> 2 ^ 53" "0 < Milliseconds (ss_ttl s)"
  obtains n where "state_wf R (fst (ApplyBatch R s evs r))"
    "\<And>k. cell_of (r_hget R (fst (ApplyBatch R s evs r)) k) = apply_cells (writes_for R k (take n evs)) (cell_of (r_hget R r k))"
    "\<And>flags. snd (ApplyBatch R s evs r) = Some flags \<Longrightarrow>
       n = length evs \<and> flags = accept_flags R evs (\<lambda>k. cell_of (r_hget R r k))"
proof (rule ApplyBatch_cells [OF assms])
  fix n r1
  assume r1: "r1 = r \<or> r1 = snd (r_trip R r (length evs))" and a: "state_wf R (fst (ApplyBatch R s evs r))"
    "\<And>k. cell_of (r_hget R (fst (ApplyBatch R s evs r)) k) = apply_cells (writes_for R k (take n evs)) (cell_of (r_hget R r1 k))"
    "\<And>flags. snd (ApplyBatch R s evs r) = Some flags \<Longrightarrow>
       n = length evs \<and> flags = accept_flags R evs (\<lambda>k. cell_of (r_hget R r1 k))"
  have "r_hget R r1 = r_hget R r" using r1 hget_trip_live by auto
  then show thesis using that [of n] a by simp
qed

lemma ApplyBatch_twice:
  assumes "state_wf R r" "\<forall>ev \<in> set evs. \<bar>UnixMilli (se_ts ev)\<bar> \<le> 2 ^ 53" "0 < Milliseconds (ss_ttl s)"
    and "snd (ApplyBatch R s evs (fst (ApplyBatch R s evs r))) = Some flags"
  shows "cell_of (r_hget R (fst (ApplyBatch R s evs (fst (ApplyBatch R s evs r)))) k) =
    apply_cells (writes_for R k evs) (cell_of (r_hget R r k))"
proof -
  let ?r1 = "fst (ApplyBatch R s evs r)"
  obtain n where n: "state_wf R ?r1"
    "cell_of (r_hget R ?r1 k) = apply_cells (writes_for R k (take n evs)) (cell_of (r_hget R r k))"
    using ApplyBatch_live [OF assms(1-3)] by metis
  have "cell_of (r_hget R (fst (ApplyBatch R s evs ?r1)) k) = apply_cells (writes_for R k evs) (cell_of (r_hget R ?r1 k))"
    using ApplyBatch_live [OF n(1) assms(2,3)] assms(4) by (metis take_all order_refl)
  moreover have "writes_for R k evs = writes_for R k (take n evs) @ writes_for R k (drop n evs)"
    by (simp add: writes_for_def flip: map_append filter_append)
  ultimately show ?thesis by (simp add: n(2) apply_cells_idem)
qed

end

subsection \<open>Consequences for the cells\<close>

lemma apply_cells_time:
  "map_option fst (apply_cells ws c) =
     (let ts = set_option (map_option fst c) \<union> fst ` set ws in if ts = {} then None else Some (Max ts))"
proof (induction ws rule: rev_induct)
  case Nil
  then show ?case by (cases c) (simp_all add: Let_def)
next
  case (snoc tw ws)
  obtain t w where tw: "tw = (t, w)" by (cases tw)
  let ?ts = "set_option (map_option fst c) \<union> fst ` set ws"
  have fin: "finite ?ts" by (cases c) simp_all
  show ?case
  proof (cases "apply_cells ws c")
    case None
    then show ?thesis by (simp add: tw Let_def)
  next
    case (Some sm)
    then have ne: "?ts \<noteq> {}" and s: "fst sm = Max ?ts"
      using snoc.IH by (auto simp: Let_def split: if_splits)
    have "map_option fst (apply_cells (ws @ [tw]) c) = Some (max t (Max ?ts))"
      using s by (cases sm) (auto simp: Some tw)
    also have "max t (Max ?ts) = Max (insert t ?ts)" using fin ne by simp
    finally show ?thesis by (simp add: tw Let_def Un_commute)
  qed
qed

definition cell_field :: "'v cell \<Rightarrow> string \<Rightarrow> 'v option" where
  "cell_field c f = (case c of None \<Rightarrow> None | Some (_, m) \<Rightarrow> m f)"

lemma apply_cells_field:
  "(\<And>t w. (t, w) \<in> set ws \<Longrightarrow> w f = None) \<Longrightarrow> cell_field (apply_cells ws c) f = cell_field c f"
proof (induction ws rule: rev_induct)
  case (snoc tw ws)
  obtain t w where tw: "tw = (t, w)" by (cases tw)
  have "w f = None" using snoc.prems [of t w] by (simp add: tw)
  then have "cell_field (apply_cell (t, w) c') f = cell_field c' f" for c'
    by (cases "((t, w), c')" rule: apply_cell.cases) (auto simp: cell_field_def map_add_def)
  moreover have "cell_field (apply_cells ws c) f = cell_field c f"
    using snoc.IH snoc.prems by (metis UnCI set_append)
  ultimately show ?case by (simp add: tw)
qed simp

lemma hash_field: "hash_wf h \<Longrightarrow> f \<noteq> ''last_seen'' \<Longrightarrow> h f = cell_field (cell_of h) f"
  by (cases rule: hash_wf_cases) (auto simp: cell_field_def cell_of_def split: option.split)

text \<open>The events a caller hands over carry the instant their timestamp denotes.\<close>

definition stamped :: "stateEvent \<Rightarrow> bool" where
  "stamped ev \<longleftrightarrow> time_Parse (Timestamp (se_e ev)) = Some (se_ts ev)"

lemma stamped_bound: "list_all stamped evs \<Longrightarrow> \<forall>ev \<in> set evs. \<bar>UnixMilli (se_ts ev)\<bar> \<le> 2 ^ 53"
  unfolding list_all_iff stamped_def using time_Parse_bound by blast

lemma status_writes:
  assumes "\<forall>ev \<in> set evs. EventType (se_e ev) \<noteq> ''STATUS_CHANGE''" "(t, w) \<in> set (writes_for R k evs)"
  shows "w ''status'' = None"
proof -
  obtain ev where "ev \<in> set evs" "w = map_of (rev (state_fields R (se_e ev)))"
    using assms(2) by (auto simp: writes_for_def event_write_def)
  then show ?thesis using assms(1) by (cases "Meter (se_e ev)") (auto simp: state_fields_def)
qed

lemma Apply_ApplyBatch:
  "Apply R s e ts r =
     (case ApplyBatch R s [\<lparr>se_e = e, se_ts = ts, se_produced = p\<rparr>] r of
        (r', Some [b]) \<Rightarrow> (r', Some b) | (r', _) \<Rightarrow> (r', None))"
proof -
  have "cas_event R s \<lparr>se_e = e, se_ts = ts, se_produced = p\<rparr> = cas_event R s \<lparr>se_e = e, se_ts = ts, se_produced = 0\<rparr>"
    by (simp add: cas_event_def)
  moreover have "length xs = 1" if "snd (pipe_exec R [c] r) = Some xs" for c :: "'a \<Rightarrow> 'a \<times> int option" and xs
    using that by (auto simp: pipe_exec_simps split: option.splits)
  ultimately show ?thesis
    by (auto simp: Apply_def ApplyBatch_def length_Suc_conv split: prod.split option.split list.split)
qed

text \<open>An example: a connector reports a status, a stale meter reading, a new one and a stop.\<close>

definition demo_store :: StateStore where
  "demo_store = NewStateStore (300 * second)"

definition demo_state_event :: "string \<Rightarrow> string \<Rightarrow> instant \<Rightarrow> stateEvent" where
  "demo_state_event ty stamp ts = \<lparr>se_e = zero_Event\<lparr>EventType := ty, StationID := ''ST-1'', ConnectorID := 2,
     Timestamp := stamp, SessionID := ''S'', Status := ''Charging'',
     Meter := if ty = ''METER_UPDATE'' then Some (zero_Meter\<lparr>SocPercent := 40\<rparr>) else None\<rparr>, se_ts = ts, se_produced = 0\<rparr>"

definition demo_events :: "stateEvent list" where
  "demo_events = [demo_state_event ''STATUS_CHANGE'' ''1970-01-01T00:00:05Z'' 5000000000,
     demo_state_event ''METER_UPDATE'' ''1970-01-01T00:00:04Z'' 4000000000,
     demo_state_event ''METER_UPDATE'' ''1970-01-01T00:00:06Z'' 6000000000]"

lemma demo_stamped: "list_all stamped demo_events"
  by code_simp

lemma demo_ttl: "0 < Milliseconds (ss_ttl demo_store)"
  by (simp add: Milliseconds_def demo_store_def NewStateStore_def)

lemma state_wf_empty: "m_hash m = [] \<Longrightarrow> state_wf (mem_redis d) m"
  by (simp add: state_wf_def mem_hget_def)

lemma empty_wf: "state_wf (mem_redis d) mem_empty"
  by (rule state_wf_empty) (simp add: mem_empty_def)

text \<open>
  C7: A pipelined batch refines the last-writer-wins specification, whatever fails. The store
  stays well formed; for some prefix of the events (all of them when the call reports success)
  every key's cell is the one the prefix's events of that key give, starting from what the key
  held or, if it expired, from nothing; and on success the reply says of each event whether its
  cell accepted it.
\<close>

theorem ApplyBatch_refines:
  assumes "redis_hash R" "state_wf R r" "list_all stamped evs" "0 < Milliseconds (ss_ttl s)"
  shows "state_wf R (fst (ApplyBatch R s evs r)) \<and>
    (\<exists>n c. (\<forall>k. c k = cell_of (r_hget R r k) \<or> c k = None)
      \<and> (\<forall>k. cell_of (r_hget R (fst (ApplyBatch R s evs r)) k) = apply_cells (writes_for R k (take n evs)) (c k))
      \<and> (\<forall>flags. snd (ApplyBatch R s evs r) = Some flags \<longrightarrow> n = length evs \<and> flags = accept_flags R evs c))"
  using assms(1)
proof (rule redis_hash.ApplyBatch_cells [OF _ assms(2) stamped_bound [OF assms(3)] assms(4)])
  fix n r1
  assume r1: "r1 = r \<or> r1 = snd (r_trip R r (length evs))" and wf: "state_wf R (fst (ApplyBatch R s evs r))"
    and c: "\<And>k. cell_of (r_hget R (fst (ApplyBatch R s evs r)) k) = apply_cells (writes_for R k (take n evs)) (cell_of (r_hget R r1 k))"
    and f: "\<And>flags. snd (ApplyBatch R s evs r) = Some flags \<Longrightarrow>
       n = length evs \<and> flags = accept_flags R evs (\<lambda>k. cell_of (r_hget R r1 k))"
  have "cell_of (r_hget R r1 k) = cell_of (r_hget R r k) \<or> cell_of (r_hget R r1 k) = None" for k
    using r1 redis_hash.hget_trip [OF assms(1), of r "length evs" k] by auto
  then show ?thesis using wf c f by (intro conjI exI [of _ n] exI [of _ "\<lambda>k. cell_of (r_hget R r1 k)"]) blast+
qed

theorem ApplyBatch_refines_witness:
  "state_wf (mem_redis True) (fst (ApplyBatch (mem_redis True) demo_store demo_events (mem_empty\<lparr>m_faults := [Some 2]\<rparr>)))
   \<and> (\<exists>n c. (\<forall>k. c k = cell_of (r_hget (mem_redis True) (mem_empty\<lparr>m_faults := [Some 2]\<rparr>) k) \<or> c k = None)
      \<and> (\<forall>k. cell_of (r_hget (mem_redis True) (fst (ApplyBatch (mem_redis True) demo_store demo_events (mem_empty\<lparr>m_faults := [Some 2]\<rparr>))) k)
           = apply_cells (writes_for (mem_redis True) k (take n demo_events)) (c k))
      \<and> (\<forall>flags. snd (ApplyBatch (mem_redis True) demo_store demo_events (mem_empty\<lparr>m_faults := [Some 2]\<rparr>)) = Some flags
           \<longrightarrow> n = length demo_events \<and> flags = accept_flags (mem_redis True) demo_events c))"
  by (rule ApplyBatch_refines) (simp_all add: mem.redis_hash_axioms state_wf_empty mem_empty_def demo_stamped demo_ttl)

definition demo_mem :: mem where
  "demo_mem = mem_empty\<lparr>m_faults := [Some 2]\<rparr>"

lemma demo_mem_wf: "state_wf (mem_redis d) demo_mem"
  by (rule state_wf_empty) (simp add: demo_mem_def mem_empty_def)

lemma mem_cas_faults: "m_faults (fst (cas_event (mem_redis d) s ev m)) = m_faults m"
  by (auto simp: cas_event_def casScript_def Let_def mem_hset_def mem_pexpire_def mem_drop_def
      split: list.split option.split)

lemma mem_ApplyBatch_faults:
  assumes "evs \<noteq> []"
  shows "m_faults (fst (ApplyBatch (mem_redis d) s evs m)) = tl (m_faults m)"
proof -
  have "m_faults (fst (pipe_exec (mem_redis d) (map (cas_event (mem_redis d) s) evs) m)) = tl (m_faults m)"
    by (rule pipe_exec_keeps) (auto simp: mem_cas_faults, simp add: mem_trip_def Let_def)
  then show ?thesis using assms by (auto simp: ApplyBatch_def split: prod.splits option.splits)
qed

lemma mem_trip_ok: "m_faults m = [] \<Longrightarrow> fst (r_trip (mem_redis d) m n) = None"
  by (simp add: mem_trip_def Let_def)

lemma demo_retry:
  "\<exists>flags. snd (ApplyBatch (mem_redis False) demo_store demo_events
     (fst (ApplyBatch (mem_redis False) demo_store demo_events demo_mem))) = Some flags"
proof (rule mem.ApplyBatch_succeeds [OF _ stamped_bound [OF demo_stamped] demo_ttl mem_trip_ok])
  show "state_wf (mem_redis False) (fst (ApplyBatch (mem_redis False) demo_store demo_events demo_mem))"
    using mem.ApplyBatch_cells [OF demo_mem_wf stamped_bound [OF demo_stamped] demo_ttl] by metis
  show "m_faults (fst (ApplyBatch (mem_redis False) demo_store demo_events demo_mem)) = []"
    by (subst mem_ApplyBatch_faults) (simp_all add: demo_events_def demo_mem_def)
qed

lemma demo_failed: "snd (ApplyBatch (mem_redis d) demo_store demo_events demo_mem) = None"
  by (simp add: ApplyBatch_def pipe_exec_def demo_events_def demo_mem_def mem_trip_def Let_def)

text \<open>
  C8: The retry of a failed pipeline cannot corrupt the state. Whatever prefix of the batch the
  failed attempt left behind, once the second attempt succeeds every key holds exactly what one
  undisturbed application of the batch would have left, if no key expired meanwhile.
\<close>

theorem ApplyBatch_retry_idempotent:
  assumes "redis_hash_live R" "state_wf R r" "list_all stamped evs" "0 < Milliseconds (ss_ttl s)"
    and "snd (ApplyBatch R s evs (fst (ApplyBatch R s evs r))) = Some flags"
  shows "cell_of (r_hget R (fst (ApplyBatch R s evs (fst (ApplyBatch R s evs r)))) k) =
    apply_cells (writes_for R k evs) (cell_of (r_hget R r k))"
  using redis_hash_live.ApplyBatch_twice [OF assms(1,2) stamped_bound [OF assms(3)] assms(4,5)] .

theorem ApplyBatch_retry_idempotent_witness:
  "snd (ApplyBatch (mem_redis False) demo_store demo_events demo_mem) = None \<and>
   cell_of (r_hget (mem_redis False) (fst (ApplyBatch (mem_redis False) demo_store demo_events
      (fst (ApplyBatch (mem_redis False) demo_store demo_events demo_mem)))) ''station:ST-1:2'') =
    apply_cells (writes_for (mem_redis False) ''station:ST-1:2'' demo_events) (cell_of (r_hget (mem_redis False) demo_mem ''station:ST-1:2''))"
  using demo_retry demo_failed
    ApplyBatch_retry_idempotent [OF mem_live.redis_hash_live_axioms demo_mem_wf demo_stamped demo_ttl] by blast

text \<open>
  The newest event wins. After a batch that succeeded, and without expiry, the stored event
  time of every key is the maximum of what was stored and the times of the batch's events for
  that key: it never goes back, and no event is newer than what is stored.
\<close>

theorem ApplyBatch_newest_wins:
  assumes "redis_hash_live R" "state_wf R r" "list_all stamped evs" "0 < Milliseconds (ss_ttl s)"
    and "snd (ApplyBatch R s evs r) = Some flags"
  shows "map_option fst (cell_of (r_hget R (fst (ApplyBatch R s evs r)) k)) =
    (let ts = set_option (map_option fst (cell_of (r_hget R r k)))
            \<union> {UnixMilli (se_ts ev) |ev. ev \<in> set evs \<and> stateKeyForEvent (se_e ev) = k}
     in if ts = {} then None else Some (Max ts))"
proof -
  have "cell_of (r_hget R (fst (ApplyBatch R s evs r)) k) = apply_cells (writes_for R k evs) (cell_of (r_hget R r k))"
    using assms(1)
    by (rule redis_hash_live.ApplyBatch_live [OF _ assms(2) stamped_bound [OF assms(3)] assms(4)])
      (use assms(5) in fastforce)
  moreover have "fst ` set (writes_for R k evs) =
      {UnixMilli (se_ts ev) |ev. ev \<in> set evs \<and> stateKeyForEvent (se_e ev) = k}"
    by (auto simp: writes_for_def event_write_def image_iff)
  ultimately show ?thesis by (simp add: apply_cells_time)
qed

lemma demo_apply: "\<exists>flags. snd (ApplyBatch (mem_redis False) demo_store demo_events mem_empty) = Some flags"
  by (rule mem.ApplyBatch_succeeds [OF state_wf_empty stamped_bound [OF demo_stamped] demo_ttl mem_trip_ok])
    (simp_all add: mem_empty_def)

theorem ApplyBatch_newest_wins_witness:
  "map_option fst (cell_of (r_hget (mem_redis False) (fst (ApplyBatch (mem_redis False) demo_store demo_events mem_empty)) ''station:ST-1:2'')) =
    (let ts = set_option (map_option fst (cell_of (r_hget (mem_redis False) mem_empty ''station:ST-1:2'')))
            \<union> {UnixMilli (se_ts ev) |ev. ev \<in> set demo_events \<and> stateKeyForEvent (se_e ev) = ''station:ST-1:2''}
     in if ts = {} then None else Some (Max ts))"
  using demo_apply ApplyBatch_newest_wins [OF mem_live.redis_hash_live_axioms empty_wf demo_stamped demo_ttl]
  by blast

text \<open>
  C15: Only \<^verbatim>\<open>STATUS_CHANGE\<close> events move the status. A batch without one leaves the
  status of every connector as it is, applied, stale or failed. So a status lost to a failed
  pipeline is not refreshed by the events that follow until the next \<^verbatim>\<open>STATUS_CHANGE\<close>.
\<close>

theorem status_only_from_STATUS_CHANGE:
  assumes "redis_hash_live R" "state_wf R r" "list_all stamped evs" "0 < Milliseconds (ss_ttl s)"
    and "\<forall>ev \<in> set evs. EventType (se_e ev) \<noteq> ''STATUS_CHANGE''"
  shows "r_hget R (fst (ApplyBatch R s evs r)) k ''status'' = r_hget R r k ''status''"
  using assms(1)
proof (rule redis_hash_live.ApplyBatch_live [OF _ assms(2) stamped_bound [OF assms(3)] assms(4)])
  fix n
  assume wf: "state_wf R (fst (ApplyBatch R s evs r))"
    and c: "\<And>k. cell_of (r_hget R (fst (ApplyBatch R s evs r)) k) = apply_cells (writes_for R k (take n evs)) (cell_of (r_hget R r k))"
  have "\<forall>ev \<in> set (take n evs). EventType (se_e ev) \<noteq> ''STATUS_CHANGE''"
    using assms(5) by (auto dest: in_set_takeD)
  then have "cell_field (apply_cells (writes_for R k (take n evs)) (cell_of (r_hget R r k))) ''status'' =
      cell_field (cell_of (r_hget R r k)) ''status''"
    by (intro apply_cells_field) (rule status_writes)
  moreover have "hash_wf (r_hget R r k)" "hash_wf (r_hget R (fst (ApplyBatch R s evs r)) k)"
    using wf assms(2) by (simp_all add: state_wf_def)
  ultimately show ?thesis using c [of k] by (simp add: hash_field)
qed

theorem status_only_from_STATUS_CHANGE_witness:
  "r_hget (mem_redis False) (fst (ApplyBatch (mem_redis False) demo_store (tl demo_events) mem_empty)) ''station:ST-1:2'' ''status''
     = r_hget (mem_redis False) mem_empty ''station:ST-1:2'' ''status''"
proof (rule status_only_from_STATUS_CHANGE [OF mem_live.redis_hash_live_axioms state_wf_empty _ demo_ttl])
  show "list_all stamped (tl demo_events)" using demo_stamped by (simp add: demo_events_def)
qed (simp_all add: mem_empty_def demo_events_def demo_state_event_def zero_Event_def)

text \<open>
  State keys do not collide: two events write the same hash only if they are heartbeats of one
  station or events of one connector of one station. In particular a heartbeat never touches a
  connector, whatever characters the station id contains.
\<close>

theorem stateKeyForEvent_identifies:
  "stateKeyForEvent e = stateKeyForEvent e' \<longleftrightarrow>
     StationID e = StationID e' \<and>
     (if EventType e = ''HEARTBEAT'' then EventType e' = ''HEARTBEAT''
      else EventType e' \<noteq> ''HEARTBEAT'' \<and> ConnectorID e = ConnectorID e')"
  using liveness_key_disjoint by (auto simp: stateKeyForEvent_def dest: stateKey_inj) (metis liveness_key_disjoint)+

text \<open>The per-event path: one \<^verbatim>\<open>Apply\<close> after another.\<close>

fun apply_each :: "'r redis \<Rightarrow> StateStore \<Rightarrow> stateEvent list \<Rightarrow> 'r \<Rightarrow> 'r \<times> bool option list" where
  "apply_each R s [] r = (r, [])"
| "apply_each R s (ev # evs) r =
     (let (r1, b) = Apply R s (se_e ev) (se_ts ev) r; (r2, bs) = apply_each R s evs r1 in (r2, b # bs))"

lemma Apply_event:
  "Apply R s (se_e ev) (se_ts ev) r =
     (case ApplyBatch R s [ev] r of (r', Some [b]) \<Rightarrow> (r', Some b) | (r', _) \<Rightarrow> (r', None))"
  using Apply_ApplyBatch [of R s "se_e ev" "se_ts ev" r "se_produced ev"] by (cases ev) simp

lemma Apply_fst: "fst (Apply R s (se_e ev) (se_ts ev) r) = fst (ApplyBatch R s [ev] r)"
  by (auto simp: Apply_event split: prod.split option.split list.split)

lemma Apply_snd: "snd (ApplyBatch R s [ev] r) = Some [b] \<Longrightarrow> snd (Apply R s (se_e ev) (se_ts ev) r) = Some b"
  by (auto simp: Apply_event split: prod.split)

context redis_hash_live
begin

lemma apply_each_cells:
  assumes "state_wf R r" "\<forall>ev \<in> set evs. \<bar>UnixMilli (se_ts ev)\<bar> \<le> 2 ^ 53" "0 < Milliseconds (ss_ttl s)"
    and up: "\<And>r n. fst (r_trip R r n) = None"
  shows "(\<forall>k. cell_of (r_hget R (fst (apply_each R s evs r)) k) = apply_cells (writes_for R k evs) (cell_of (r_hget R r k)))
    \<and> snd (apply_each R s evs r) = map Some (accept_flags R evs (\<lambda>k. cell_of (r_hget R r k)))"
  using assms(1,2)
proof (induction evs arbitrary: r)
  case (Cons ev evs)
  let ?r = "fst (ApplyBatch R s [ev] r)"
  have b: "\<forall>ev \<in> set [ev]. \<bar>UnixMilli (se_ts ev)\<bar> \<le> 2 ^ 53" using Cons.prems(2) by simp
  obtain flags where fl: "snd (ApplyBatch R s [ev] r) = Some flags"
    using ApplyBatch_succeeds [OF Cons.prems(1) b assms(3) up] by blast
  have step: "state_wf R ?r" "\<And>k. cell_of (r_hget R ?r k) = apply_cells (writes_for R k [ev]) (cell_of (r_hget R r k))"
      "flags = accept_flags R [ev] (\<lambda>k. cell_of (r_hget R r k))"
    by (rule ApplyBatch_live [OF Cons.prems(1) b assms(3)]; use fl in fastforce)+
  then have "snd (Apply R s (se_e ev) (se_ts ev) r) =
      Some (accepts (UnixMilli (se_ts ev)) (cell_of (r_hget R r (stateKeyForEvent (se_e ev)))))"
    using fl by (intro Apply_snd) (simp add: Let_def)
  moreover have "(\<lambda>k. cell_of (r_hget R ?r k)) = (\<lambda>k. cell_of (r_hget R r k))
      (stateKeyForEvent (se_e ev) := apply_cell (event_write R ev) (cell_of (r_hget R r (stateKeyForEvent (se_e ev)))))"
    using step(2) by (auto simp: fun_eq_iff writes_for_def)
  moreover have "writes_for R k (ev # evs) = writes_for R k [ev] @ writes_for R k evs" for k
    by (simp add: writes_for_def)
  ultimately show ?case
    using Cons.IH [OF step(1)] Cons.prems(2) step(2)
    by (simp add: Apply_fst case_prod_beta Let_def)
qed (simp add: writes_for_def)

lemma ApplyBatch_apply_each:
  assumes "state_wf R r" "\<forall>ev \<in> set evs. \<bar>UnixMilli (se_ts ev)\<bar> \<le> 2 ^ 53" "0 < Milliseconds (ss_ttl s)"
    and up: "\<And>r n. fst (r_trip R r n) = None"
  shows "(\<forall>k. cell_of (r_hget R (fst (ApplyBatch R s evs r)) k) = cell_of (r_hget R (fst (apply_each R s evs r)) k))
    \<and> map_option (map Some) (snd (ApplyBatch R s evs r)) = Some (snd (apply_each R s evs r))"
proof -
  obtain flags where fl: "snd (ApplyBatch R s evs r) = Some flags"
    using ApplyBatch_succeeds [OF assms(1-3) up] by blast
  have "\<And>k. cell_of (r_hget R (fst (ApplyBatch R s evs r)) k) = apply_cells (writes_for R k evs) (cell_of (r_hget R r k))"
      "flags = accept_flags R evs (\<lambda>k. cell_of (r_hget R r k))"
    by (rule ApplyBatch_live [OF assms(1-3)]; use fl in fastforce)+
  then show ?thesis using apply_each_cells [OF assms] fl by simp
qed

end

text \<open>
  C14: Batching changes nothing: on a server that answers, a pipelined batch leaves the same cells
  and reports the same verdicts as applying its events one at a time.
\<close>

theorem ApplyBatch_is_sequential:
  assumes "redis_hash_live R" "\<And>r n. fst (r_trip R r n) = None"
    and "state_wf R r" "list_all stamped evs" "0 < Milliseconds (ss_ttl s)"
  shows "(\<forall>k. cell_of (r_hget R (fst (ApplyBatch R s evs r)) k) = cell_of (r_hget R (fst (apply_each R s evs r)) k))
    \<and> map_option (map Some) (snd (ApplyBatch R s evs r)) = Some (snd (apply_each R s evs r))"
  using redis_hash_live.ApplyBatch_apply_each [OF assms(1,3) stamped_bound [OF assms(4)] assms(5,2)] .

definition steady_redis :: "mem redis" where
  "steady_redis = (mem_redis False)\<lparr>r_trip := \<lambda>m n. (None, m)\<rparr>"

interpretation steady: redis_hash_live steady_redis
  by unfold_locales
    (simp_all add: steady_redis_def mem_hget_hset mem_hget_pexpire mem_pttl_pexpire mem_tonumber_def)

theorem ApplyBatch_is_sequential_witness:
  "(\<forall>k. cell_of (r_hget steady_redis (fst (ApplyBatch steady_redis demo_store demo_events mem_empty)) k) =
        cell_of (r_hget steady_redis (fst (apply_each steady_redis demo_store demo_events mem_empty)) k))
    \<and> map_option (map Some) (snd (ApplyBatch steady_redis demo_store demo_events mem_empty)) =
        Some (snd (apply_each steady_redis demo_store demo_events mem_empty))"
proof (rule ApplyBatch_is_sequential [OF steady.redis_hash_live_axioms _ _ demo_stamped demo_ttl])
  show "state_wf steady_redis mem_empty"
    using empty_wf [of False] by (simp add: state_wf_def steady_redis_def)
qed (simp add: steady_redis_def)

text \<open>
  What one accepted event does. The hash of its key holds the event's time, every field the
  event carries and a full time to live; a \<^verbatim>\<open>SESSION_STOP\<close> in particular clears the
  session and the power.
\<close>

theorem Apply_effect:
  assumes "redis_hash R" "state_wf R r" "time_Parse (Timestamp e) = Some ts" "0 < Milliseconds (ss_ttl s)"
    and "Apply R s e ts r = (r', Some True)"
  shows "r_hget R r' (stateKeyForEvent e) ''last_seen'' = Some (strconv_Itoa (UnixMilli ts))
    \<and> r_pttl R r' (stateKeyForEvent e) = Some (Milliseconds (ss_ttl s))
    \<and> map_of (rev (state_fields R e)) \<subseteq>\<^sub>m r_hget R r' (stateKeyForEvent e)
    \<and> (EventType e = ''SESSION_STOP'' \<longrightarrow> r_hget R r' (stateKeyForEvent e) ''session'' = Some []
         \<and> r_hget R r' (stateKeyForEvent e) ''power'' = Some ''0'')"
proof -
  let ?ev = "\<lparr>se_e = e, se_ts = ts, se_produced = 0\<rparr>" and ?r1 = "snd (r_trip R r 1)"
  have ms: "\<bar>UnixMilli (se_ts ?ev)\<bar> \<le> 2 ^ 53" using assms(3) by (simp only: stateEvent.simps) (rule time_Parse_bound)
  have wf: "hash_wf (r_hget R ?r1 (stateKeyForEvent (se_e ?ev)))"
    using redis_hash.state_wf_trip [OF assms(1,2)] by (simp add: state_wf_def)
  have run: "cas_event R s ?ev ?r1 = (r', Some 1)"
    using assms(5) by (auto simp: Apply_def pipe_exec_def run_cmds.simps Let_def split: prod.splits option.splits list.splits if_splits)
  have r': "r' = r_pexpire R (r_hset R ?r1 (stateKeyForEvent e)
      ((''last_seen'', strconv_Itoa (UnixMilli ts)) # state_fields R e)) (stateKeyForEvent e) (strconv_Itoa (Milliseconds (ss_ttl s)))"
    using run redis_hash.cas_event_cases [OF assms(1) wf ms, of s] by (auto split: option.splits if_splits)
  have h: "r_hget R r' (stateKeyForEvent e) =
      r_hget R ?r1 (stateKeyForEvent e) ++ ([''last_seen'' \<mapsto> strconv_Itoa (UnixMilli ts)] ++ map_of (rev (state_fields R e)))"
    using redis_hash.hget_write [OF assms(1,4)] by (simp add: r')
  moreover have "map_of (rev (state_fields R e)) ''session'' = Some []" "map_of (rev (state_fields R e)) ''power'' = Some ''0''"
    if "EventType e = ''SESSION_STOP''"
    using that by (simp_all add: state_fields_def split: option.split)
  ultimately show ?thesis
    using redis_hash.pttl_pexpire [OF assms(1,4)] by (auto simp: r' [symmetric] map_add_def map_le_def) (simp add: r')
qed

definition demo_stop :: Event where
  "demo_stop = se_e (demo_state_event ''SESSION_STOP'' ''1970-01-01T00:00:05Z'' 5000000000)"

lemma demo_stop_applied: "snd (Apply (mem_redis False) demo_store demo_stop 5000000000 mem_empty) = Some True"
  by (simp add: Apply_def pipe_exec_def run_cmds.simps cas_event_def casScript_def stateArgs_def deriveStatus_def
      demo_stop_def demo_state_event_def zero_Event_def mem_trip_def mem_hget_def mem_empty_def Let_def)

lemma demo_stop_time: "time_Parse (Timestamp demo_stop) = Some 5000000000"
  by code_simp

theorem Apply_effect_witness:
  "\<exists>r'. Apply (mem_redis False) demo_store demo_stop 5000000000 mem_empty = (r', Some True)
    \<and> r_hget (mem_redis False) r' (stateKeyForEvent demo_stop) ''session'' = Some []
    \<and> r_hget (mem_redis False) r' (stateKeyForEvent demo_stop) ''power'' = Some ''0''"
proof (intro exI conjI)
  let ?r' = "fst (Apply (mem_redis False) demo_store demo_stop 5000000000 mem_empty)"
  show ap: "Apply (mem_redis False) demo_store demo_stop 5000000000 mem_empty = (?r', Some True)"
    using demo_stop_applied by (metis prod.collapse)
  have "EventType demo_stop = ''SESSION_STOP''" by (simp add: demo_stop_def demo_state_event_def zero_Event_def)
  then show "r_hget (mem_redis False) ?r' (stateKeyForEvent demo_stop) ''session'' = Some []"
    "r_hget (mem_redis False) ?r' (stateKeyForEvent demo_stop) ''power'' = Some ''0''"
    using Apply_effect [OF mem.redis_hash_axioms empty_wf demo_stop_time demo_ttl ap] by blast+
qed

end
