(* ===== verification/Realtime.thy ===== *)
theory Realtime
  imports RedisState Validate Kafka Metrics
begin

text \<open>
  \<^verbatim>\<open>processor/realtime.go\<close>: the best-effort projection of the current state.
  \<open>ri_clk i\<close> is the \<open>i\<close>-th reading of the clock in the order of the code and \<open>ri_regs i\<close> the
  registry as the validation of the \<open>i\<close>-th message sees it. The pause before the retry only moves
  the clock.
  Shown: with at most one failed attempt the batch leaves exactly the state of its valid events
  applied once in offset order, the store stays well formed whatever fails, and every message is
  counted as skipped, applied or stale unless both attempts failed.
\<close>

record realtimeHandler =
  rh_state :: StateStore

record rt_in =
  ri_clk :: "nat \<Rightarrow> instant"
  ri_regs :: "nat \<Rightarrow> Registry \<times> Registry"

record 'r rt_world =
  rw_r :: 'r
  rw_m :: Metrics

text \<open>The decode loop from message \<open>i\<close>: the accepted events in offset order, and the counters.\<close>

fun rt_decode :: "(nat \<Rightarrow> Registry \<times> Registry) \<Rightarrow> nat \<Rightarrow> kmessage list \<Rightarrow> Metrics \<Rightarrow> stateEvent list \<times> Metrics" where
  "rt_decode regs i [] m = ([], m)"
| "rt_decode regs i (msg # batch) m =
     (case Decode (km_Value msg) of
        Inl err \<Rightarrow> rt_decode regs (Suc i) batch (m\<lparr>RealtimeInvalidSkipped := RealtimeInvalidSkipped m + 1\<rparr>)
      | Inr e \<Rightarrow>
          (let m = m\<lparr>Consumed := inc (''realtime'', EventType e) (Consumed m)\<rparr>
           in case Validate e (fst (regs i)) (snd (regs i)) of
                Inl err \<Rightarrow> rt_decode regs (Suc i) batch (m\<lparr>RealtimeInvalidSkipped := RealtimeInvalidSkipped m + 1\<rparr>)
              | Inr ts \<Rightarrow> (case rt_decode regs (Suc i) batch m of (events, m) \<Rightarrow>
                  (\<lparr>se_e = e, se_ts = ts, se_produced = km_Time msg\<rparr> # events, m))))"

text \<open>The closing loop over the replies: a lag for each event that landed, a count of the stale ones.\<close>

fun rt_observe :: "instant \<Rightarrow> stateEvent list \<Rightarrow> bool list \<Rightarrow> Metrics \<Rightarrow> Metrics \<times> nat" where
  "rt_observe applyNow (ev # events) (ok # applied) m =
     (if ok then rt_observe applyNow events applied (m\<lparr>StateApplyLag := StateApplyLag m @ [applyNow - se_produced ev]\<rparr>)
      else (case rt_observe applyNow events applied m of (m, stale) \<Rightarrow> (m, Suc stale)))"
| "rt_observe applyNow _ _ m = (m, 0)"

definition rt_finish :: "rt_in \<Rightarrow> stateEvent list \<Rightarrow> bool list \<Rightarrow> Metrics \<Rightarrow> Metrics" where
  "rt_finish inp events applied m =
     (case rt_observe (ri_clk inp 4) events applied m of (m, stale) \<Rightarrow>
        if 0 < stale then m\<lparr>StaleSkipped := StaleSkipped m + stale\<rparr> else m)"

definition applyBatch :: "'r redis \<Rightarrow> realtimeHandler \<Rightarrow> rt_in \<Rightarrow> kmessage list \<Rightarrow> 'r rt_world \<Rightarrow> 'r rt_world" where
  "applyBatch R h inp batch w =
     (let (events, m) = rt_decode (ri_regs inp) 0 batch (rw_m w)
      in if events = [] then w\<lparr>rw_m := m\<rparr>
         else
           let (r, applied) = ApplyBatch R (rh_state h) events (rw_r w);
               m = observe_redis ''state'' (ri_clk inp 1 - ri_clk inp 0) m
           in case applied of
                Some flags \<Rightarrow> w\<lparr>rw_r := r, rw_m := rt_finish inp events flags m\<rparr>
              | None \<Rightarrow>
                  let m = redis_error ''state'' m;
                      (r, applied) = ApplyBatch R (rh_state h) events r;
                      m = observe_redis ''state'' (ri_clk inp 3 - ri_clk inp 2) m
                  in case applied of
                       Some flags \<Rightarrow> w\<lparr>rw_r := r, rw_m := rt_finish inp events flags m\<rparr>
                     | None \<Rightarrow> w\<lparr>rw_r := r, rw_m := redis_error ''state'' m\<rparr>)"

subsection \<open>The accepted events\<close>

definition rt_events :: "rt_in \<Rightarrow> kmessage list \<Rightarrow> stateEvent list" where
  "rt_events inp batch = fst (rt_decode (ri_regs inp) 0 batch NewMetrics)"

lemma rt_decode_events: "fst (rt_decode regs i batch m) = fst (rt_decode regs i batch m')"
  by (induction batch arbitrary: i m m') (auto simp: Let_def case_prod_beta split: sum.split)

lemma rt_decode_rt_events: "fst (rt_decode (ri_regs inp) 0 batch m) = rt_events inp batch"
  unfolding rt_events_def by (rule rt_decode_events)

lemma rt_decode_stamped: "list_all stamped (fst (rt_decode regs i batch m))"
  by (induction regs i batch m rule: rt_decode.induct)
    (auto simp: Let_def case_prod_beta stamped_def Validate_identity(3) split: sum.splits)

lemma rt_decode_metrics:
  "RealtimeInvalidSkipped (snd (rt_decode regs i batch m)) + length (fst (rt_decode regs i batch m)) =
     RealtimeInvalidSkipped m + length batch"
  "RedisErrors (snd (rt_decode regs i batch m)) = RedisErrors m"
  "StaleSkipped (snd (rt_decode regs i batch m)) = StaleSkipped m"
  "StateApplyLag (snd (rt_decode regs i batch m)) = StateApplyLag m"
  by (induction regs i batch m rule: rt_decode.induct) (auto simp: Let_def case_prod_beta split: sum.splits)

lemma rt_observe_counts:
  "length events = length applied \<Longrightarrow>
     length (StateApplyLag (fst (rt_observe t events applied m))) + snd (rt_observe t events applied m)
       = length (StateApplyLag m) + length events
     \<and> StaleSkipped (fst (rt_observe t events applied m)) = StaleSkipped m
     \<and> RedisErrors (fst (rt_observe t events applied m)) = RedisErrors m
     \<and> RealtimeInvalidSkipped (fst (rt_observe t events applied m)) = RealtimeInvalidSkipped m"
  by (induction t events applied m rule: rt_observe.induct) (auto simp: case_prod_beta)

lemma rt_finish_counts:
  assumes "length events = length applied"
  shows "length (StateApplyLag (rt_finish inp events applied m)) + StaleSkipped (rt_finish inp events applied m)
      = length (StateApplyLag m) + StaleSkipped m + length events"
    "RedisErrors (rt_finish inp events applied m) = RedisErrors m"
    "RealtimeInvalidSkipped (rt_finish inp events applied m) = RealtimeInvalidSkipped m"
  using rt_observe_counts [OF assms, of "ri_clk inp 4" m] by (auto simp: rt_finish_def case_prod_beta)

lemma ApplyBatch_flags_length: "snd (ApplyBatch R s events r) = Some flags \<Longrightarrow> length flags = length events"
  by (auto simp: ApplyBatch_def pipe_exec_def split: if_splits option.splits prod.splits)
    (metis run_cmds_length length_map snd_conv)

subsection \<open>The three outcomes\<close>

lemma applyBatch_cases:
  obtains (none) "(rt_events inp batch) = []" "rw_r (applyBatch R h inp batch w) = rw_r w"
      "rw_m (applyBatch R h inp batch w) = snd (rt_decode (ri_regs inp) 0 batch (rw_m w))"
  | (first) flags where "(rt_events inp batch) \<noteq> []" "snd (ApplyBatch R (rh_state h) (rt_events inp batch) (rw_r w)) = Some flags"
      "rw_r (applyBatch R h inp batch w) = fst (ApplyBatch R (rh_state h) (rt_events inp batch) (rw_r w))"
      "rw_m (applyBatch R h inp batch w) = rt_finish inp (rt_events inp batch) flags
         (observe_redis ''state'' (ri_clk inp 1 - ri_clk inp 0) (snd (rt_decode (ri_regs inp) 0 batch (rw_m w))))"
  | (retried) flags where "(rt_events inp batch) \<noteq> []"
      "snd (ApplyBatch R (rh_state h) (rt_events inp batch) (fst (ApplyBatch R (rh_state h) (rt_events inp batch) (rw_r w)))) = Some flags"
      "rw_r (applyBatch R h inp batch w) = fst (ApplyBatch R (rh_state h) (rt_events inp batch) (fst (ApplyBatch R (rh_state h) (rt_events inp batch) (rw_r w))))"
      "rw_m (applyBatch R h inp batch w) = rt_finish inp (rt_events inp batch) flags
         (observe_redis ''state'' (ri_clk inp 3 - ri_clk inp 2) (redis_error ''state''
           (observe_redis ''state'' (ri_clk inp 1 - ri_clk inp 0) (snd (rt_decode (ri_regs inp) 0 batch (rw_m w))))))"
  | (given_up) "(rt_events inp batch) \<noteq> []"
      "rw_r (applyBatch R h inp batch w) = fst (ApplyBatch R (rh_state h) (rt_events inp batch) (fst (ApplyBatch R (rh_state h) (rt_events inp batch) (rw_r w))))"
      "rw_m (applyBatch R h inp batch w) = redis_error ''state''
         (observe_redis ''state'' (ri_clk inp 3 - ri_clk inp 2) (redis_error ''state''
           (observe_redis ''state'' (ri_clk inp 1 - ri_clk inp 0) (snd (rt_decode (ri_regs inp) 0 batch (rw_m w))))))"
proof -
  let ?events = "rt_events inp batch"
  have ev: "fst (rt_decode (ri_regs inp) 0 batch (rw_m w)) = ?events" by (rule rt_decode_rt_events)
  let ?a1 = "ApplyBatch R (rh_state h) ?events (rw_r w)"
  let ?a2 = "ApplyBatch R (rh_state h) ?events (fst ?a1)"
  note unf = applyBatch_def Let_def case_prod_beta ev
  show thesis
  proof (cases "?events = []")
    case True
    then show thesis by (intro none) (simp_all add: unf)
  next
    case ne: False
    show thesis
    proof (cases "snd ?a1")
      case (Some flags)
      then show thesis by (intro first [OF ne Some]) (simp_all add: unf ne)
    next
      case n1: None
      show thesis
      proof (cases "snd ?a2")
        case (Some flags)
        then show thesis by (intro retried [OF ne Some]) (simp_all add: unf ne n1)
      next
        case None
        then show thesis
          by (intro given_up [OF ne]) (simp_all add: unf ne n1)
      qed
    qed
  qed
qed

subsection \<open>Properties\<close>

lemma rt_events_stamped: "list_all stamped (rt_events inp batch)"
  unfolding rt_events_def by (rule rt_decode_stamped)

context redis_hash
begin

lemma ApplyBatch_state_wf:
  assumes "state_wf R r" "list_all stamped evs" "0 < Milliseconds (ss_ttl s)"
  shows "state_wf R (fst (ApplyBatch R s evs r))"
  by (rule ApplyBatch_cells [OF assms(1) stamped_bound [OF assms(2)] assms(3)])

lemma applyBatch_state_wf:
  assumes "state_wf R (rw_r w)" "0 < Milliseconds (ss_ttl (rh_state h))"
  shows "state_wf R (rw_r (applyBatch R h inp batch w))"
  using assms rt_events_stamped [of inp batch]
  by (cases rule: applyBatch_cases [where inp = inp and batch = batch and R = R and h = h and w = w]) (simp_all add: ApplyBatch_state_wf)

end

context redis_hash_live
begin

lemma applyBatch_cells:
  assumes "state_wf R (rw_r w)" "0 < Milliseconds (ss_ttl (rh_state h))"
    and "RedisErrors (rw_m (applyBatch R h inp batch w)) ''state'' \<le> RedisErrors (rw_m w) ''state'' + 1"
  shows "cell_of (r_hget R (rw_r (applyBatch R h inp batch w)) k) =
    apply_cells (writes_for R k (rt_events inp batch)) (cell_of (r_hget R (rw_r w) k))"
proof -
  note b = stamped_bound [OF rt_events_stamped [of inp batch]]
  show ?thesis
  proof (cases rule: applyBatch_cases [where inp = inp and batch = batch and R = R and h = h and w = w])
    case none
    then show ?thesis by (simp add: writes_for_def)
  next
    case (first flags)
    then show ?thesis
      using ApplyBatch_live [OF assms(1) b assms(2)] by (metis take_all order_refl)
  next
    case (retried flags)
    then show ?thesis using ApplyBatch_twice [OF assms(1) b assms(2)] by simp
  next
    case given_up
    then show ?thesis using assms(3) by (simp add: redis_error_def observe_redis_def inc_apply rt_decode_metrics)
  qed
qed

end

definition demo_rt_handler :: realtimeHandler where
  "demo_rt_handler = \<lparr>rh_state = demo_store\<rparr>"

definition demo_rt_world :: "mem rt_world" where
  "demo_rt_world = \<lparr>rw_r = mem_empty, rw_m = NewMetrics\<rparr>"

definition demo_rt_in :: rt_in where
  "demo_rt_in = \<lparr>ri_clk = int, ri_regs = (\<lambda>_. (demo_reg, demo_reg))\<rparr>"

definition demo_rt_batch :: "kmessage list" where
  "demo_rt_batch = [\<lparr>km_Key = ''ST-1'', km_Value = demo_payload, km_Time = 0\<rparr>, \<lparr>km_Key = ''ST-1'', km_Value = ''{'', km_Time = 0\<rparr>]"

lemma demo_rt_ttl: "0 < Milliseconds (ss_ttl (rh_state demo_rt_handler))"
  using demo_ttl by (simp add: demo_rt_handler_def)

text \<open>
  Every message of a realtime batch is counted once: as skipped, or, unless both attempts
  failed, as an observed application or a stale event. A batch that is given up adds two Redis
  errors and neither lags nor stale counts.
\<close>

theorem applyBatch_counts:
  "let m = rw_m w; m' = rw_m (applyBatch R h inp batch w); n = length (rt_events inp batch)
   in RealtimeInvalidSkipped m' + n = RealtimeInvalidSkipped m + length batch
    \<and> (if RedisErrors m' ''state'' = RedisErrors m ''state'' + 2
       then length (StateApplyLag m') + StaleSkipped m' = length (StateApplyLag m) + StaleSkipped m
       else length (StateApplyLag m') + StaleSkipped m' = length (StateApplyLag m) + StaleSkipped m + n)"
proof (cases rule: applyBatch_cases [where inp = inp and batch = batch and R = R and h = h and w = w])
  case none
  then show ?thesis using rt_decode_metrics [of "ri_regs inp" 0 batch "rw_m w"] by (simp add: Let_def rt_decode_rt_events)
next
  case (first flags)
  note len = ApplyBatch_flags_length [OF first(2), symmetric]
  show ?thesis
    using rt_decode_metrics [of "ri_regs inp" 0 batch "rw_m w"]
    by (simp add: Let_def first(4) rt_finish_counts [OF len] rt_decode_rt_events observe_redis_def)
next
  case (retried flags)
  note len = ApplyBatch_flags_length [OF retried(2), symmetric]
  show ?thesis
    using rt_decode_metrics [of "ri_regs inp" 0 batch "rw_m w"]
    by (simp add: Let_def retried(4) rt_finish_counts [OF len] rt_decode_rt_events observe_redis_def redis_error_def inc_apply)
next
  case given_up
  then show ?thesis
    using rt_decode_metrics [of "ri_regs inp" 0 batch "rw_m w"]
    by (simp add: Let_def rt_decode_rt_events observe_redis_def redis_error_def inc_apply)
qed

end
