(* ===== verification/Consumer.thy ===== *)
theory Consumer
  imports Analytics Realtime
begin

text \<open>
  \<^verbatim>\<open>processor/consumer.go\<close>: the two consumer groups. \<^verbatim>\<open>fillBatch\<close> is a function of the
  results of the successive \<^verbatim>\<open>FetchMessage\<close> calls. The workers of a group run concurrently, so
  a group is a transition system: partitions with their logs and committed offsets, and per worker
  the fetch positions, the batch in hand and whether it has been flushed. Kafka's part (appends,
  assignment and revocation of partitions at any time, also of partitions another worker still
  holds messages of, lost commits, commits of some partitions only) is nondeterministic. A worker
  can crash at any point, also between the effects of a flush. One flush is one step here; the theory
  \<open>Interleave\<close> interleaves the effects of several.
  Shown, once for every sink that keeps its contract: a message below the committed offset is done. Where
  the dead-letter writer has a limit, the contract holds with \<open>is not oversized\<close> for \<open>is done\<close>.
\<close>

subsection \<open>Readers and batches\<close>

record readerConfig =
  rcf_Brokers :: "string list"
  rcf_GroupID :: string
  rcf_Topic :: string
  rcf_MinBytes :: int
  rcf_MaxBytes :: int
  rcf_MaxWait :: duration
  rcf_CommitInterval :: duration

definition newReader :: "Config \<Rightarrow> string \<Rightarrow> readerTuning \<Rightarrow> readerConfig" where
  "newReader cfg groupID tune = \<lparr>rcf_Brokers = kc_Brokers (cf_Kafka cfg), rcf_GroupID = groupID,
     rcf_Topic = kc_TopicRaw (cf_Kafka cfg), rcf_MinBytes = tn_MinBytes tune, rcf_MaxBytes = 10000000,
     rcf_MaxWait = wrap64 (tn_MaxWaitMs tune * millisecond), rcf_CommitInterval = 0\<rparr>"

text \<open>
  The two group specs, and what starting a group launches: per worker its reader, whether it polls
  the lag, the bounds of its batches and the function that handles them.
\<close>

record 'f batchGroupSpec =
  gs_name :: string
  gs_groupID :: string
  gs_workers :: int
  gs_handle :: 'f

record 'f groupWorker =
  wk_reader :: readerConfig
  wk_pollLag :: bool
  wk_size :: int
  wk_window :: duration
  wk_handle :: 'f

definition runAnalyticsBatchGroup :: "Config \<Rightarrow> 'f batchGroupSpec \<Rightarrow> 'f groupWorker list" where
  "runAnalyticsBatchGroup cfg spec = map (\<lambda>i. \<lparr>wk_reader = newReader cfg (gs_groupID spec) (rd_Analytics (cf_Readers cfg)),
     wk_pollLag = (i = 0), wk_size = ac_BatchSize (cf_Analytics cfg),
     wk_window = wrap64 (ac_FlushMs (cf_Analytics cfg) * millisecond), wk_handle = gs_handle spec\<rparr>) [0..<nat (gs_workers spec)]"

definition runRealtimeBatchGroup :: "Config \<Rightarrow> 'f batchGroupSpec \<Rightarrow> 'f groupWorker list" where
  "runRealtimeBatchGroup cfg spec = map (\<lambda>i. \<lparr>wk_reader = newReader cfg (gs_groupID spec) (rd_Realtime (cf_Readers cfg)),
     wk_pollLag = (i = 0), wk_size = rt_BatchMaxMessages (cf_Realtime cfg),
     wk_window = wrap64 (rt_BatchMaxWaitMs (cf_Realtime cfg) * millisecond), wk_handle = gs_handle spec\<rparr>) [0..<nat (gs_workers spec)]"

datatype flushReason = flushBySize | flushByTimer

fun flushReason_String :: "flushReason \<Rightarrow> string" where
  "flushReason_String r = (if r = flushByTimer then ''timer'' else ''size'')"

text \<open>The \<open>i\<close>-th call of \<^verbatim>\<open>FetchMessage\<close> in one \<^verbatim>\<open>fillBatch\<close> delivers or fails.\<close>

datatype 'm fetch = Fetched 'm | FetchErr

function fill_loop :: "int \<Rightarrow> (nat \<Rightarrow> 'm fetch) \<Rightarrow> nat \<Rightarrow> 'm list \<Rightarrow> 'm list \<times> flushReason" where
  "fill_loop sz r i batch =
     (if int (length batch) < sz
      then (case r i of
              FetchErr \<Rightarrow> (batch, flushByTimer)
            | Fetched msg \<Rightarrow> fill_loop sz r (Suc i) (batch @ [msg]))
      else (batch, flushBySize))"
  by pat_completeness auto
termination by (relation "measure (\<lambda>(sz, r, i, batch). nat (sz - int (length batch)))") auto

declare fill_loop.simps [simp del]

text \<open>\<^const>\<open>Inl\<close> is the error of the first fetch, returned with an empty batch.\<close>

definition fillBatch :: "int \<Rightarrow> (nat \<Rightarrow> 'm fetch) \<Rightarrow> unit + ('m list \<times> flushReason)" where
  "fillBatch sz r = (case r 0 of FetchErr \<Rightarrow> Inl () | Fetched first \<Rightarrow> Inr (fill_loop sz r 1 [first]))"

text \<open>\<^verbatim>\<open>pollLag\<close> over the lags read at its ticks.\<close>

definition pollLag :: "string \<Rightarrow> int list \<Rightarrow> Metrics \<Rightarrow> Metrics" where
  "pollLag grp lags m = foldl (\<lambda>m l. if 0 \<le> l then m\<lparr>ConsumerLag := (ConsumerLag m)(grp \<mapsto> l)\<rparr> else m) m lags"

subsection \<open>A consumer group\<close>

record 'w group =
  g_log :: "nat \<Rightarrow> kmessage list"
  g_committed :: "nat \<Rightarrow> nat"
  g_pos :: "nat \<Rightarrow> nat \<Rightarrow> nat option"
  g_batch :: "nat \<Rightarrow> (nat \<times> nat) list"
  g_flushed :: "nat \<Rightarrow> bool"
  g_world :: 'w

definition g_init :: "'w \<Rightarrow> 'w group" where
  "g_init w = \<lparr>g_log = (\<lambda>_. []), g_committed = (\<lambda>_. 0), g_pos = (\<lambda>_ _. None), g_batch = (\<lambda>_. []),
     g_flushed = (\<lambda>_. False), g_world = w\<rparr>"

definition batch_msgs :: "'w group \<Rightarrow> nat \<Rightarrow> kmessage list" where
  "batch_msgs g i = map (\<lambda>(p, off). g_log g p ! off) (g_batch g i)"

text \<open>\<^verbatim>\<open>CommitMessages\<close> commits, per partition, the offset after the highest one in the batch.\<close>

definition commit_mark :: "(nat \<times> nat) list \<Rightarrow> nat \<Rightarrow> nat" where
  "commit_mark batch p = foldr (\<lambda>(q, off) acc. if q = p then max (Suc off) acc else acc) batch 0"

text \<open>A worker whose reader is closed: no position, nothing in hand.\<close>

definition reset_worker :: "nat \<Rightarrow> 'w group \<Rightarrow> 'w group" where
  "reset_worker i g = g\<lparr>g_pos := (g_pos g)(i := \<lambda>_. None), g_batch := (g_batch g)(i := []),
     g_flushed := (g_flushed g)(i := False)\<rparr>"

inductive group_step :: "int \<Rightarrow> ('i \<Rightarrow> kmessage list \<Rightarrow> 'w \<Rightarrow> 'w \<times> bool) \<Rightarrow> (nat \<Rightarrow> 'i \<Rightarrow> kmessage list \<Rightarrow> 'w \<Rightarrow> 'w)
    \<Rightarrow> 'w group \<Rightarrow> 'w group \<Rightarrow> bool"
  for sz sink torn where
  append: "group_step sz sink torn g (g\<lparr>g_log := (g_log g)(p := g_log g p @ [msg])\<rparr>)"
| assign: "group_step sz sink torn g (g\<lparr>g_pos := (g_pos g)(i := (g_pos g i)(p := Some (g_committed g p)))\<rparr>)"
| revoke: "group_step sz sink torn g (g\<lparr>g_pos := (g_pos g)(i := (g_pos g i)(p := None))\<rparr>)"
| fetch: "\<not> g_flushed g i \<Longrightarrow> g_batch g i = [] \<or> int (length (g_batch g i)) < sz \<Longrightarrow>
    g_pos g i p = Some off \<Longrightarrow> off < length (g_log g p) \<Longrightarrow>
    group_step sz sink torn g (g\<lparr>g_pos := (g_pos g)(i := (g_pos g i)(p := Some (Suc off))),
      g_batch := (g_batch g)(i := g_batch g i @ [(p, off)])\<rparr>)"
| flush_ok: "\<not> g_flushed g i \<Longrightarrow> g_batch g i \<noteq> [] \<Longrightarrow> sink inp (batch_msgs g i) (g_world g) = (w', True) \<Longrightarrow>
    group_step sz sink torn g (g\<lparr>g_world := w', g_flushed := (g_flushed g)(i := True)\<rparr>)"
| flush_err: "\<not> g_flushed g i \<Longrightarrow> g_batch g i \<noteq> [] \<Longrightarrow> sink inp (batch_msgs g i) (g_world g) = (w', False) \<Longrightarrow>
    group_step sz sink torn g (reset_worker i (g\<lparr>g_world := w'\<rparr>))"
| commit: "g_flushed g i \<Longrightarrow>
    group_step sz sink torn g (g\<lparr>g_committed := (\<lambda>p. if p \<in> P \<and> 0 < commit_mark (g_batch g i) p
        then commit_mark (g_batch g i) p else g_committed g p),
      g_batch := (g_batch g)(i := []), g_flushed := (g_flushed g)(i := False)\<rparr>)"
| crash: "group_step sz sink torn g (reset_worker i g)"
| crash_in_flush: "\<not> g_flushed g i \<Longrightarrow> g_batch g i \<noteq> [] \<Longrightarrow>
    group_step sz sink torn g (reset_worker i (g\<lparr>g_world := torn n inp (batch_msgs g i) (g_world g)\<rparr>))"

inductive group_reach :: "int \<Rightarrow> ('i \<Rightarrow> kmessage list \<Rightarrow> 'w \<Rightarrow> 'w \<times> bool) \<Rightarrow> (nat \<Rightarrow> 'i \<Rightarrow> kmessage list \<Rightarrow> 'w \<Rightarrow> 'w)
    \<Rightarrow> 'w \<Rightarrow> 'w group \<Rightarrow> bool"
  for sz sink torn w0 where
  start: "group_reach sz sink torn w0 (g_init w0)"
| step: "group_reach sz sink torn w0 g \<Longrightarrow> group_step sz sink torn g g' \<Longrightarrow> group_reach sz sink torn w0 g'"

subsection \<open>Batches are bounded prefixes of what was fetched\<close>

lemma fill_loop_result:
  assumes "fill_loop sz r i batch = (batch', reason)"
  shows "\<exists>n. batch' = batch @ map (\<lambda>j. case r (i + j) of Fetched m \<Rightarrow> m) [0..<n]
      \<and> (\<forall>j<n. r (i + j) \<noteq> FetchErr)
      \<and> (if reason = flushBySize then sz \<le> int (length batch') else int (length batch') < sz \<and> r (i + n) = FetchErr)
      \<and> int (length batch') \<le> max sz (int (length batch))"
  using assms
proof (induction sz r i batch rule: fill_loop.induct)
  case (1 sz r i batch)
  show ?case
  proof (cases "int (length batch) < sz")
    case False
    then show ?thesis using "1.prems" by (intro exI [of _ 0]) (auto simp: fill_loop.simps [of sz])
  next
    case lt: True
    show ?thesis
    proof (cases "r i")
      case FetchErr
      then show ?thesis using "1.prems" lt by (intro exI [of _ 0]) (auto simp: fill_loop.simps [of sz])
    next
      case (Fetched msg)
      then have "fill_loop sz r (Suc i) (batch @ [msg]) = (batch', reason)"
        using "1.prems" lt by (simp add: fill_loop.simps [of sz r i])
      from "1.IH" [OF lt Fetched this] obtain n where n:
        "batch' = (batch @ [msg]) @ map (\<lambda>j. case r (Suc i + j) of Fetched m \<Rightarrow> m) [0..<n]"
        "\<forall>j<n. r (Suc i + j) \<noteq> FetchErr"
        "if reason = flushBySize then sz \<le> int (length batch') else int (length batch') < sz \<and> r (Suc i + n) = FetchErr"
        "int (length batch') \<le> max sz (int (length (batch @ [msg])))" by blast
      have "map (\<lambda>j. case r (i + j) of Fetched m \<Rightarrow> m) [0..<Suc n] = msg # map (\<lambda>j. case r (Suc i + j) of Fetched m \<Rightarrow> m) [0..<n]"
        by (simp add: upt_conv_Cons Fetched map_Suc_upt [symmetric] del: upt_Suc)
      then show ?thesis
        using n lt Fetched by (intro exI [of _ "Suc n"]) (auto simp: All_less_Suc2 simp del: upt_Suc)
    qed
  qed
qed

subsection \<open>The contract of a sink\<close>

text \<open>
  What the group relies on: a flush and a crash inside one keep the sink's invariant and whatever
  was done, and a flush that reports success has done its whole batch.
\<close>

locale batch_sink =
  fixes sink :: "'i \<Rightarrow> kmessage list \<Rightarrow> 'w \<Rightarrow> 'w \<times> bool" and torn :: "nat \<Rightarrow> 'i \<Rightarrow> kmessage list \<Rightarrow> 'w \<Rightarrow> 'w"
    and inv :: "'w \<Rightarrow> bool" and settled_msg :: "'w \<Rightarrow> kmessage \<Rightarrow> bool"
  assumes sink_inv: "inv w \<Longrightarrow> inv (fst (sink inp msgs w))"
    and torn_inv: "inv w \<Longrightarrow> inv (torn n inp msgs w)"
    and sink_settles: "inv w \<Longrightarrow> snd (sink inp msgs w) \<Longrightarrow> msg \<in> set msgs \<Longrightarrow> settled_msg (fst (sink inp msgs w)) msg"
    and sink_keeps: "settled_msg w msg \<Longrightarrow> settled_msg (fst (sink inp msgs w)) msg"
    and torn_keeps: "settled_msg w msg \<Longrightarrow> settled_msg (torn n inp msgs w) msg"
begin

definition done_at :: "'w group \<Rightarrow> nat \<Rightarrow> nat \<Rightarrow> bool" where
  "done_at g p off \<longleftrightarrow> off < length (g_log g p) \<and> settled_msg (g_world g) (g_log g p ! off)"

text \<open>The messages a worker has passed on a partition are done or in its hands.\<close>

definition held :: "'w group \<Rightarrow> nat \<Rightarrow> nat \<Rightarrow> nat \<Rightarrow> bool" where
  "held g i p off \<longleftrightarrow> done_at g p off \<or> off < length (g_log g p) \<and> (p, off) \<in> set (g_batch g i)"

definition group_inv :: "'w group \<Rightarrow> bool" where
  "group_inv g \<longleftrightarrow> inv (g_world g)
     \<and> (\<forall>p off. off < g_committed g p \<longrightarrow> done_at g p off)
     \<and> (\<forall>i p n off. g_pos g i p = Some n \<longrightarrow> off < n \<longrightarrow> held g i p off)
     \<and> (\<forall>i p n off. (p, n) \<in> set (g_batch g i) \<longrightarrow> off \<le> n \<longrightarrow> held g i p off)
     \<and> (\<forall>i p off. g_flushed g i \<longrightarrow> (p, off) \<in> set (g_batch g i) \<longrightarrow> done_at g p off)"

lemma group_invD:
  assumes "group_inv g"
  shows "inv (g_world g)" "off < g_committed g p \<Longrightarrow> done_at g p off"
    "g_pos g i p = Some n \<Longrightarrow> off < n \<Longrightarrow> held g i p off"
    "(p, n) \<in> set (g_batch g i) \<Longrightarrow> off \<le> n \<Longrightarrow> held g i p off"
    "g_flushed g i \<Longrightarrow> (p, off) \<in> set (g_batch g i) \<Longrightarrow> done_at g p off"
  using assms by (auto simp: group_inv_def)

lemma commit_mark_batch:
  assumes "off < commit_mark batch p"
  shows "\<exists>n. (p, n) \<in> set batch \<and> off \<le> n"
  using assms by (induction batch) (auto simp: commit_mark_def less_Suc_eq_le max_def split: if_splits)

text \<open>Worlds in which no less is done, and a worker that lets go of its batch.\<close>

lemma group_inv_world:
  assumes "group_inv g" "inv w'" "\<And>msg. settled_msg (g_world g) msg \<Longrightarrow> settled_msg w' msg"
  shows "group_inv (g\<lparr>g_world := w'\<rparr>)"
proof -
  have "done_at (g\<lparr>g_world := w'\<rparr>) p off" if "done_at g p off" for p off
    using that assms(3) by (simp add: done_at_def)
  moreover from this have "held (g\<lparr>g_world := w'\<rparr>) i p off" if "held g i p off" for i p off
    using that by (auto simp: held_def)
  ultimately show ?thesis
    using assms(1,2) group_invD [OF assms(1)] by (auto simp: group_inv_def)
qed

lemma group_inv_reset:
  assumes "group_inv g"
  shows "group_inv (reset_worker i g)"
proof -
  have d: "done_at (reset_worker i g) p off = done_at g p off" for p off
    by (simp add: done_at_def reset_worker_def)
  have h: "held (reset_worker i g) j p off = held g j p off" if "j \<noteq> i" for j p off
    using that by (simp add: held_def d) (simp add: reset_worker_def)
  show ?thesis
    unfolding group_inv_def
  proof (intro conjI allI impI)
    show "inv (g_world (reset_worker i g))" using assms by (simp add: group_inv_def reset_worker_def)
    show "done_at (reset_worker i g) p off" if "off < g_committed (reset_worker i g) p" for p off
      using that group_invD(2) [OF assms] by (simp add: d) (simp add: reset_worker_def)
    show "held (reset_worker i g) j p off" if "g_pos (reset_worker i g) j p = Some n" "off < n" for j p n off
      using that group_invD(3) [OF assms] by (cases "j = i") (simp_all add: h, simp_all add: reset_worker_def)
    show "held (reset_worker i g) j p off" if "(p, n) \<in> set (g_batch (reset_worker i g) j)" "off \<le> n" for j p n off
      using that group_invD(4) [OF assms] by (cases "j = i") (simp_all add: h, simp_all add: reset_worker_def)
    show "done_at (reset_worker i g) p off"
      if "g_flushed (reset_worker i g) j" "(p, off) \<in> set (g_batch (reset_worker i g) j)" for j p off
      using that group_invD(5) [OF assms] by (cases "j = i") (simp_all add: d, simp_all add: reset_worker_def)
  qed
qed

lemma group_inv_commit:
  assumes "group_inv g" "g_flushed g i"
  shows "group_inv (g\<lparr>g_committed := (\<lambda>p. if p \<in> P \<and> 0 < commit_mark (g_batch g i) p
        then commit_mark (g_batch g i) p else g_committed g p),
      g_batch := (g_batch g)(i := []), g_flushed := (g_flushed g)(i := False)\<rparr>)" (is "group_inv ?g")
proof -
  have d: "done_at ?g p off = done_at g p off" for p off by (simp add: done_at_def)
  have free: "done_at g p off" if "held g i p off" for p off
    using that group_invD(5) [OF assms] by (auto simp: held_def)
  have h: "held ?g j p off" if "held g j p off" for j p off
    using that free by (cases "j = i") (auto simp: held_def d)
  have mark: "done_at g p off" if "off < commit_mark (g_batch g i) p" for p off
    using commit_mark_batch [OF that] group_invD(4) [OF assms(1)] free by blast
  show ?thesis
    unfolding group_inv_def d
    using group_invD [OF assms(1)] mark h by (auto split: if_splits)
qed

lemma group_inv_append:
  assumes "group_inv g"
  shows "group_inv (g\<lparr>g_log := (g_log g)(p := g_log g p @ [msg])\<rparr>)" (is "group_inv ?g")
proof -
  have d: "done_at ?g q off" if "done_at g q off" for q off
    using that by (auto simp: done_at_def nth_append)
  then have "held ?g i q off" if "held g i q off" for i q off
    using that by (auto simp: held_def)
  with d show ?thesis using group_invD [OF assms] by (auto simp: group_inv_def)
qed

lemma group_inv_pos:
  assumes "group_inv g" "\<And>n off. x = Some n \<Longrightarrow> off < n \<Longrightarrow> held g i p off"
  shows "group_inv (g\<lparr>g_pos := (g_pos g)(i := (g_pos g i)(p := x))\<rparr>)" (is "group_inv ?g")
proof -
  have "held ?g j q off = held g j q off" "done_at ?g q off = done_at g q off" for j q off
    by (simp_all add: held_def done_at_def)
  then show ?thesis using group_invD [OF assms(1)] assms(2) by (auto simp: group_inv_def split: if_splits)
qed

lemma group_inv_fetch:
  assumes "group_inv g" "\<not> g_flushed g i" "g_pos g i p = Some off" "off < length (g_log g p)"
  shows "group_inv (g\<lparr>g_pos := (g_pos g)(i := (g_pos g i)(p := Some (Suc off))),
      g_batch := (g_batch g)(i := g_batch g i @ [(p, off)])\<rparr>)" (is "group_inv ?g")
proof -
  have d: "done_at ?g q o' = done_at g q o'" for q o' by (simp add: done_at_def)
  have h: "held ?g j q o'" if "held g j q o'" for j q o' using that by (auto simp: held_def d)
  have new: "held ?g i p o'" if "o' \<le> off" for o'
  proof (cases "o' = off")
    case True
    then show ?thesis using assms(4) by (simp add: held_def)
  next
    case False
    then show ?thesis using that group_invD(3) [OF assms(1,3)] h by simp
  qed
  show ?thesis
    unfolding group_inv_def d
  proof (intro conjI allI impI)
    show "held ?g j q o'" if "g_pos ?g j q = Some n" "o' < n" for j q n o'
      using that new h group_invD(3) [OF assms(1)] by (cases "j = i \<and> q = p") (auto split: if_splits)
    show "held ?g j q o'" if "(q, n) \<in> set (g_batch ?g j)" "o' \<le> n" for j q n o'
      using that new h group_invD(4) [OF assms(1)] by (cases "j = i") auto
    show "done_at g q o'" if "g_flushed ?g j" "(q, o') \<in> set (g_batch ?g j)" for j q o'
      using that assms(2) group_invD(5) [OF assms(1)] by (cases "j = i") auto
  qed (use group_invD [OF assms(1)] in auto)
qed

text \<open>A worker whose whole batch is done.\<close>

lemma group_inv_done:
  assumes "group_inv g" "inv w'" "\<And>msg. settled_msg (g_world g) msg \<Longrightarrow> settled_msg w' msg"
    and "\<And>msg. msg \<in> set (batch_msgs g i) \<Longrightarrow> settled_msg w' msg"
  shows "group_inv (g\<lparr>g_world := w', g_flushed := (g_flushed g)(i := True)\<rparr>)" (is "group_inv ?g")
proof -
  have g1: "group_inv (g\<lparr>g_world := w'\<rparr>)" using assms(1-3) by (rule group_inv_world)
  have fresh: "done_at ?g p off" if "(p, off) \<in> set (g_batch g i)" for p off
  proof -
    have "off < length (g_log g p)"
      using group_invD(4) [OF assms(1) that order_refl] by (auto simp: held_def done_at_def)
    moreover have "g_log g p ! off \<in> set (batch_msgs g i)" using that by (force simp: batch_msgs_def)
    ultimately show ?thesis using assms(4) by (simp add: done_at_def)
  qed
  have "held ?g j p off = held (g\<lparr>g_world := w'\<rparr>) j p off" "done_at ?g p off = done_at (g\<lparr>g_world := w'\<rparr>) p off" for j p off
    by (simp_all add: held_def done_at_def)
  then show ?thesis
    using group_invD [OF g1] fresh by (auto simp: group_inv_def split: if_splits)
qed

lemma group_inv_flush_ok:
  assumes "group_inv g" "sink inp (batch_msgs g i) (g_world g) = (w', True)"
  shows "group_inv (g\<lparr>g_world := w', g_flushed := (g_flushed g)(i := True)\<rparr>)"
proof -
  have w': "w' = fst (sink inp (batch_msgs g i) (g_world g))" "snd (sink inp (batch_msgs g i) (g_world g))"
    using assms(2) by simp_all
  note inv = group_invD(1) [OF assms(1)]
  show ?thesis
    by (rule group_inv_done [OF assms(1)]) (simp_all add: w'(1) sink_inv [OF inv] sink_keeps sink_settles [OF inv w'(2)])
qed

theorem group_inv_step: "group_step sz sink torn g g' \<Longrightarrow> group_inv g \<Longrightarrow> group_inv g'"
proof (induction rule: group_step.induct)
  case (assign g i p)
  then show ?case using group_invD(2) by (intro group_inv_pos) (auto simp: held_def)
next
  case (revoke g i p)
  then show ?case by (intro group_inv_pos) simp_all
next
  case (flush_err g i inp w')
  then have "group_inv (g\<lparr>g_world := w'\<rparr>)"
    using sink_inv [OF group_invD(1)] sink_keeps by (intro group_inv_world) (metis fst_conv)+
  then show ?case by (rule group_inv_reset)
next
  case (crash_in_flush g i n inp)
  then show ?case
    by (intro group_inv_reset group_inv_world) (simp_all add: torn_inv group_invD(1) torn_keeps)
qed (simp_all add: group_inv_append group_inv_pos group_inv_fetch group_inv_flush_ok group_inv_commit group_inv_reset)

lemma group_inv_init: "inv w0 \<Longrightarrow> group_inv (g_init w0)"
  by (simp add: group_inv_def g_init_def)

lemma reach_inv: "group_reach sz sink torn w0 g \<Longrightarrow> inv w0 \<Longrightarrow> group_inv g"
  by (induction rule: group_reach.induct) (simp_all add: group_inv_init group_inv_step)

lemma committed_settled:
  assumes "group_reach sz sink torn w0 g" "inv w0" "off < g_committed g p"
  shows "off < length (g_log g p) \<and> settled_msg (g_world g) (g_log g p ! off)"
  using group_invD(2) [OF reach_inv [OF assms(1,2)] assms(3)] by (simp add: done_at_def)

end

subsection \<open>The two sinks\<close>

sublocale analytics_env \<subseteq> sink: batch_sink "flush R K h" "flush_crash R K h" "window_ok R K h"
    "\<lambda>w msg. accounted K (ah_writers h) (w_k w) msg" for h
  by unfold_locales
    (simp_all add: flush_window_ok flush_crash_window_ok flush_accounts flush_keeps_accounted flush_crash_keeps_accounted)

context analytics_env
begin

lemma analytics_committed:
  assumes "group_reach sz (flush R K h) (flush_crash R K h) w0 g" "window_ok R K h w0" "off < g_committed g p"
  shows "off < length (g_log g p) \<and> accounted K (ah_writers h) (w_k (g_world g)) (g_log g p ! off)"
  using assms by (rule sink.committed_settled)

end

text \<open>
  The body of a realtime worker after \<^verbatim>\<open>fillBatch\<close>: apply, and count the batch. It never
  reports an error, so the group always goes on to commit.
\<close>

definition rt_sink :: "'r redis \<Rightarrow> realtimeHandler \<Rightarrow> rt_in \<times> flushReason \<Rightarrow> kmessage list \<Rightarrow> 'r rt_world \<Rightarrow> 'r rt_world \<times> bool" where
  "rt_sink R h inp batch w =
     (let w' = applyBatch R h (fst inp) batch w; m = rw_m w'
      in (w'\<lparr>rw_m := m\<lparr>RealtimeBatch := RealtimeBatch m @ [length batch],
            RealtimeFlush := inc (flushReason_String (snd inp)) (RealtimeFlush m)\<rparr>\<rparr>, True))"

text \<open>A crash inside it: before the pipeline, after the first attempt, or before the commit.\<close>

definition rt_torn :: "'r redis \<Rightarrow> realtimeHandler \<Rightarrow> nat \<Rightarrow> rt_in \<times> flushReason \<Rightarrow> kmessage list \<Rightarrow> 'r rt_world \<Rightarrow> 'r rt_world" where
  "rt_torn R h n inp batch w =
     (if n = 0 then w
      else if n = 1 then w\<lparr>rw_r := fst (ApplyBatch R (rh_state h) (rt_events (fst inp) batch) (rw_r w))\<rparr>
      else applyBatch R h (fst inp) batch w)"

locale realtime_env = redis_hash R for R :: "'r redis" +
  fixes h :: realtimeHandler
  assumes ttl_pos: "0 < Milliseconds (ss_ttl (rh_state h))"

sublocale realtime_env \<subseteq> sink: batch_sink "rt_sink R h" "rt_torn R h" "\<lambda>w. state_wf R (rw_r w)" "\<lambda>_ _. True"
  by unfold_locales
    (simp_all add: rt_sink_def rt_torn_def Let_def applyBatch_state_wf ttl_pos ApplyBatch_state_wf rt_events_stamped)

context realtime_env
begin

lemma realtime_reach_wf:
  assumes "group_reach sz (rt_sink R h) (rt_torn R h) w0 g" "state_wf R (rw_r w0)"
  shows "state_wf R (rw_r (g_world g))"
  using sink.reach_inv [OF assms] by (rule sink.group_invD(1))

end

interpretation mem_rt: realtime_env "mem_redis d" demo_rt_handler
  by unfold_locales (rule demo_rt_ttl)

subsection \<open>A dead letter above the limit of the writer\<close>

locale capped_analytics =
  fixes R :: "'r redis" and K :: "('k, bytes) kafka" and h :: analyticsHandler and limit :: nat
  assumes refuses: "kv \<in> set msgs \<Longrightarrow> limit < length (snd kv) \<Longrightarrow> \<not> snd (k_write K k t msgs)"
begin

lemma flush_refuses: "snd (flush R K h inp batch w) \<Longrightarrow> msg \<in> set batch \<Longrightarrow> \<not> oversized limit msg"
  using oversized_flush_fails [of limit K _ batch inp _ R h w] refuses by (metis in_set_conv_nth oversized_def)

end

sublocale capped_analytics \<subseteq> capped: batch_sink "flush R K h" "flush_crash R K h" "\<lambda>_. True" "\<lambda>_ msg. \<not> oversized limit msg"
  by unfold_locales (simp_all add: flush_refuses)

context capped_analytics
begin

lemma blocked:
  assumes "group_reach sz (flush R K h) (flush_crash R K h) w0 g" "oversized limit (g_log g p ! off)"
  shows "g_committed g p \<le> off"
  using capped.committed_settled [OF assms(1) TrueI] assms(2) by (meson not_le_imp_less)

end

interpretation small: capped_analytics steady_keys small_kafka demo_handler 1048576
  by unfold_locales (auto simp: small_kafka_def list_all_iff)

subsection \<open>Properties\<close>

text \<open>A run of one worker: a message is appended, fetched, flushed and committed.\<close>

lemma demo_group:
  assumes "0 < sz"
  shows "\<exists>g. group_reach sz (flush steady_keys steady_kafka h) (flush_crash steady_keys steady_kafka h) demo_world g
     \<and> 0 < g_committed g 0"
proof -
  let ?F = "flush steady_keys steady_kafka h" and ?T = "flush_crash steady_keys steady_kafka h"
  define g0 where "g0 = g_init demo_world"
  define g1 where "g1 = g0\<lparr>g_log := (g_log g0)(0 := g_log g0 0 @ [demo_msg ''{''])\<rparr>"
  define g2 where "g2 = g1\<lparr>g_pos := (g_pos g1)(0 := (g_pos g1 0)(0 := Some (g_committed g1 0)))\<rparr>"
  define g3 where "g3 = g2\<lparr>g_pos := (g_pos g2)(0 := (g_pos g2 0)(0 := Some (Suc 0))), g_batch := (g_batch g2)(0 := g_batch g2 0 @ [(0, 0)])\<rparr>"
  note defs = g3_def g2_def g1_def g0_def g_init_def
  obtain w' where w': "?F demo_in (batch_msgs g3 0) (g_world g3) = (w', True)"
    using flush_succeeds [OF steady_write] by (metis prod.collapse)
  have "group_reach sz ?F ?T demo_world g1"
    unfolding g1_def g0_def by (rule group_reach.step [OF group_reach.start group_step.append])
  then have "group_reach sz ?F ?T demo_world g2"
    unfolding g2_def by (rule group_reach.step) (rule group_step.assign)
  moreover have "group_step sz ?F ?T g2 g3"
    unfolding g3_def by (rule group_step.fetch) (use assms in \<open>simp_all add: g2_def g1_def g0_def g_init_def\<close>)
  ultimately have "group_reach sz ?F ?T demo_world g3" by (rule group_reach.step)
  moreover have "group_step sz ?F ?T g3 (g3\<lparr>g_world := w', g_flushed := (g_flushed g3)(0 := True)\<rparr>)"
    using w' by (intro group_step.flush_ok) (simp_all add: defs)
  ultimately have "group_reach sz ?F ?T demo_world (g3\<lparr>g_world := w', g_flushed := (g_flushed g3)(0 := True)\<rparr>)"
    by (rule group_reach.step)
  from group_reach.step [OF this group_step.commit [where i = 0 and P = UNIV]]
  show ?thesis by (auto simp: defs commit_mark_def)
qed

text \<open>
  C10: A rejected message can block its partition for good. \<^verbatim>\<open>kafka.Writer\<close> refuses a message above its
  limit (\<^verbatim>\<open>BatchBytes\<close>, one megabyte unless set, and it is not set here), and the JSON encoding of a dead
  letter can be six times its payload. So a raw message well below the limit can have a dead letter above
  it; then every flush of a batch that holds the message fails, and in no reachable state of the group is
  the message committed, nor any message after it in its partition.
\<close>

theorem oversized_dead_letter_blocks:
  assumes "\<And>k t msgs kv. kv \<in> set msgs \<Longrightarrow> limit < length (snd kv) \<Longrightarrow> \<not> snd (k_write K k t msgs)"
    and "group_reach sz (flush R K h) (flush_crash R K h) w0 g"
    and "oversized limit (g_log g p ! off)"
  shows "g_committed g p \<le> off"
  by (rule capped_analytics.blocked [OF _ assms(2,3)]) (unfold_locales, rule assms(1))

theorem oversized_dead_letter_blocks_witness:
  "\<exists>g msg. group_reach 500 (flush steady_keys small_kafka demo_handler) (flush_crash steady_keys small_kafka demo_handler) demo_world g
     \<and> g_log g 0 = [msg] \<and> length (km_Value msg) < 1048576 \<and> g_batch g 7 = [(0, 0)] \<and> g_committed g 0 = 0"
proof -
  let ?F = "flush steady_keys small_kafka demo_handler" and ?T = "flush_crash steady_keys small_kafka demo_handler"
  note r0 = group_reach.start [of 500 ?F ?T demo_world]
  note r1 = group_reach.step [OF r0 group_step.append [where p = 0 and msg = "demo_msg angles"]]
  note r2 = group_reach.step [OF r1 group_step.assign [where i = 7 and p = 0]]
  note r3 = group_reach.step [OF r2 group_step.fetch [where i = 7 and p = 0 and off = 0]]
  obtain g where g: "group_reach 500 ?F ?T demo_world g" "g_log g 0 = [demo_msg angles]" "g_batch g 7 = [(0, 0)]"
    using r3 by (auto simp: g_init_def)
  have "g_committed g 0 \<le> 0"
    by (rule oversized_dead_letter_blocks [of 1048576, OF _ g(1)])
      (simp_all add: small.refuses g(2) angles_oversized(1))
  then show ?thesis using g angles_oversized(2) by blast
qed



text \<open>
  C24: A batch is a bounded prefix of what was fetched. \<^verbatim>\<open>fillBatch\<close> fails only with its first
  fetch; otherwise the batch holds the fetched messages in order, at least one and at most
  \<open>max sz 1\<close>; it is reported as flushed by size iff it is full, and by timer iff a later fetch
  failed before that.
\<close>

theorem fillBatch_spec:
  "case fillBatch sz r of
     Inl _ \<Rightarrow> r 0 = FetchErr
   | Inr (batch, reason) \<Rightarrow>
       batch \<noteq> [] \<and> int (length batch) \<le> max sz 1
       \<and> map Fetched batch = map r [0..<length batch]
       \<and> (if reason = flushBySize then sz \<le> int (length batch) else int (length batch) < sz \<and> r (length batch) = FetchErr)"
proof (cases "r 0")
  case (Fetched first)
  obtain batch reason where loop: "fill_loop sz r 1 [first] = (batch, reason)" by fastforce
  from fill_loop_result [OF this] obtain n where n:
    "batch = [first] @ map (\<lambda>j. case r (1 + j) of Fetched m \<Rightarrow> m) [0..<n]" "\<forall>j<n. r (1 + j) \<noteq> FetchErr"
    "if reason = flushBySize then sz \<le> int (length batch) else int (length batch) < sz \<and> r (1 + n) = FetchErr"
    "int (length batch) \<le> max sz (int (length [first]))" by blast
  have len: "length batch = Suc n" using n(1) by simp
  have "map Fetched batch ! k = map r [0..<Suc n] ! k" if "k < Suc n" for k
  proof (cases k)
    case (Suc j)
    then have "r (Suc j) \<noteq> FetchErr" using n(2) that by simp
    then show ?thesis using Suc that by (cases "r (Suc j)") (simp_all add: n(1) nth_append del: upt_Suc)
  qed (simp add: n(1) Fetched del: upt_Suc)
  then have "map Fetched batch = map r [0..<length batch]"
    unfolding len by (intro nth_equalityI) (simp_all add: len del: upt_Suc)
  then show ?thesis using n loop len Fetched by (auto simp: fillBatch_def)
qed (simp add: fillBatch_def)

text \<open>
  The lag gauge of a group never shows a negative number.
\<close>

theorem pollLag_nonneg:
  assumes "case ConsumerLag m grp of None \<Rightarrow> True | Some l \<Rightarrow> 0 \<le> l"
  shows "case ConsumerLag (pollLag grp lags m) grp of None \<Rightarrow> True | Some l \<Rightarrow> 0 \<le> l"
  using assms by (induction lags arbitrary: m) (simp_all add: pollLag_def)

theorem pollLag_nonneg_witness:
  "case ConsumerLag (pollLag ''rt'' [-1, 7, -1] NewMetrics) ''rt'' of None \<Rightarrow> True | Some l \<Rightarrow> 0 \<le> l"
  by (rule pollLag_nonneg) (simp add: NewMetrics_def)

end
