(* ===== verification/Interleave.thy ===== *)
theory Interleave
  imports Consumer
begin

text \<open>
  The analytics group at the grain of single effects. Between the pipelined \<^verbatim>\<open>EXISTS\<close>, the two
  produces and the mark of one worker's \<^verbatim>\<open>flush\<close>, the other workers and Kafka take any steps of
  theirs, and a crash or a failed produce ends the flush where it stands. So two workers that hold the
  same messages after a rebalance race for the marks.
  Shown: every run with whole flushes is one of these runs, and in each of them a committed message
  is accounted for and a mark implies a produced row.
\<close>

datatype flush_pos = Planned | CleanOut | DlqOut

record flight =
  fl_in :: flush_in
  fl_batch :: "kmessage list"
  fl_plan :: plan
  fl_pos :: flush_pos

text \<open>The group moves on its own without a flush: a sink that refuses is a crash without an effect.\<close>

definition idle_sink :: "unit \<Rightarrow> kmessage list \<Rightarrow> 'w \<Rightarrow> 'w \<times> bool" where
  "idle_sink inp batch w = (w, False)"

definition idle_torn :: "nat \<Rightarrow> unit \<Rightarrow> kmessage list \<Rightarrow> 'w \<Rightarrow> 'w" where
  "idle_torn n inp batch w = w"

type_synonym ('r, 'k) flights = "('r, 'k) world group \<times> (nat \<Rightarrow> flight option)"

inductive effect_step :: "'r redis \<Rightarrow> ('k, bytes) kafka \<Rightarrow> analyticsHandler \<Rightarrow> int \<Rightarrow> ('r, 'k) flights \<Rightarrow> ('r, 'k) flights \<Rightarrow> bool"
  for R K h sz where
  move: "group_step sz idle_sink idle_torn g g' \<Longrightarrow>
    (\<And>i. fl i \<noteq> None \<Longrightarrow> g_batch g' i = g_batch g i \<and> g_flushed g' i = g_flushed g i) \<Longrightarrow>
    effect_step R K h sz (g, fl) (g', fl)"
| lose: "effect_step R K h sz (g, fl) (reset_worker i g, fl(i := None))"
| plan: "\<not> g_flushed g i \<Longrightarrow> g_batch g i \<noteq> [] \<Longrightarrow> fl i = None \<Longrightarrow>
    flush_plan R h inp (batch_msgs g i) (g_world g) = (w, p) \<Longrightarrow>
    effect_step R K h sz (g, fl) (g\<lparr>g_world := w\<rparr>,
      fl(i \<mapsto> \<lparr>fl_in = inp, fl_batch = batch_msgs g i, fl_plan = p, fl_pos = Planned\<rparr>))"
| clean_ok: "fl i = Some f \<Longrightarrow> fl_pos f = Planned \<Longrightarrow> flush_clean K h (fl_in f) (fl_plan f) (g_world g) = (w, True) \<Longrightarrow>
    effect_step R K h sz (g, fl) (g\<lparr>g_world := w\<rparr>, fl(i \<mapsto> f\<lparr>fl_pos := CleanOut\<rparr>))"
| clean_err: "fl i = Some f \<Longrightarrow> fl_pos f = Planned \<Longrightarrow> flush_clean K h (fl_in f) (fl_plan f) (g_world g) = (w, False) \<Longrightarrow>
    effect_step R K h sz (g, fl) (reset_worker i (g\<lparr>g_world := w\<rparr>), fl(i := None))"
| dlq_ok: "fl i = Some f \<Longrightarrow> fl_pos f = CleanOut \<Longrightarrow> flush_dlq K h (fl_in f) (fl_plan f) (g_world g) = (w, True) \<Longrightarrow>
    effect_step R K h sz (g, fl) (g\<lparr>g_world := w\<rparr>, fl(i \<mapsto> f\<lparr>fl_pos := DlqOut\<rparr>))"
| dlq_err: "fl i = Some f \<Longrightarrow> fl_pos f = CleanOut \<Longrightarrow> flush_dlq K h (fl_in f) (fl_plan f) (g_world g) = (w, False) \<Longrightarrow>
    effect_step R K h sz (g, fl) (reset_worker i (g\<lparr>g_world := w\<rparr>), fl(i := None))"
| finish: "fl i = Some f \<Longrightarrow> fl_pos f = DlqOut \<Longrightarrow>
    effect_step R K h sz (g, fl)
      (g\<lparr>g_world := flush_finish R h (fl_in f) (fl_batch f) (fl_plan f) (g_world g), g_flushed := (g_flushed g)(i := True)\<rparr>,
       fl(i := None))"

inductive effect_reach :: "'r redis \<Rightarrow> ('k, bytes) kafka \<Rightarrow> analyticsHandler \<Rightarrow> int \<Rightarrow> ('r, 'k) world \<Rightarrow> ('r, 'k) flights \<Rightarrow> bool"
  for R K h sz w0 where
  eff_start: "effect_reach R K h sz w0 (g_init w0, \<lambda>_. None)"
| eff_step: "effect_reach R K h sz w0 s \<Longrightarrow> effect_step R K h sz s s' \<Longrightarrow> effect_reach R K h sz w0 s'"

subsection \<open>Whole flushes are runs of effects\<close>

lemma idle_move:
  assumes "effect_reach R K h sz w0 (g, \<lambda>_. None)" "group_step sz idle_sink idle_torn g g'"
  shows "effect_reach R K h sz w0 (g', \<lambda>_. None)"
  using assms by (blast intro: eff_step effect_step.move)

lemma effects_clean:
  assumes "effect_reach R K h sz w0 (g, fl)" "fl i = Some f" "fl_pos f = Planned"
  defines "r \<equiv> flush_clean K h (fl_in f) (fl_plan f) (g_world g)"
  shows "effect_reach R K h sz w0 (if snd r then (g\<lparr>g_world := fst r\<rparr>, fl(i \<mapsto> f\<lparr>fl_pos := CleanOut\<rparr>))
    else (reset_worker i (g\<lparr>g_world := fst r\<rparr>), fl(i := None)))"
proof (cases r)
  case (Pair w ok)
  then show ?thesis
    using eff_step [OF assms(1) effect_step.clean_ok [where fl = fl and i = i and f = f, OF assms(2,3)]] eff_step [OF assms(1) effect_step.clean_err [where fl = fl and i = i and f = f, OF assms(2,3)]]
    by (cases ok) (simp_all add: r_def)
qed

lemma effects_dlq:
  assumes "effect_reach R K h sz w0 (g, fl)" "fl i = Some f" "fl_pos f = CleanOut"
  defines "r \<equiv> flush_dlq K h (fl_in f) (fl_plan f) (g_world g)"
  shows "effect_reach R K h sz w0 (if snd r then (g\<lparr>g_world := fst r\<rparr>, fl(i \<mapsto> f\<lparr>fl_pos := DlqOut\<rparr>))
    else (reset_worker i (g\<lparr>g_world := fst r\<rparr>), fl(i := None)))"
proof (cases r)
  case (Pair w ok)
  then show ?thesis
    using eff_step [OF assms(1) effect_step.dlq_ok [where fl = fl and i = i and f = f, OF assms(2,3)]] eff_step [OF assms(1) effect_step.dlq_err [where fl = fl and i = i and f = f, OF assms(2,3)]]
    by (cases ok) (simp_all add: r_def)
qed

text \<open>The states of an uninterrupted flush of worker \<open>i\<close>.\<close>

definition in_flush :: "'r redis \<Rightarrow> analyticsHandler \<Rightarrow> nat \<Rightarrow> flush_in \<Rightarrow> ('r, 'k) world group \<Rightarrow> flush_pos \<Rightarrow> nat \<Rightarrow> flight option" where
  "in_flush R h i inp g ps = (\<lambda>_. None)(i \<mapsto> \<lparr>fl_in = inp, fl_batch = batch_msgs g i,
     fl_plan = snd (flush_plan R h inp (batch_msgs g i) (g_world g)), fl_pos = ps\<rparr>)"

lemma in_flush_upd [simp]:
  "(in_flush R h i inp g ps)(i := None) = (\<lambda>_. None)" "j \<noteq> i \<Longrightarrow> in_flush R h i inp g ps j = None"
  "in_flush R h i inp g ps i = Some \<lparr>fl_in = inp, fl_batch = batch_msgs g i,
     fl_plan = snd (flush_plan R h inp (batch_msgs g i) (g_world g)), fl_pos = ps\<rparr>"
  "(in_flush R h i inp g ps)(i \<mapsto> \<lparr>fl_in = inp, fl_batch = batch_msgs g i,
     fl_plan = snd (flush_plan R h inp (batch_msgs g i) (g_world g)), fl_pos = ps'\<rparr>) = in_flush R h i inp g ps'"
  by (auto simp: in_flush_def)

lemma flush_effects:
  fixes inp :: flush_in
  assumes "effect_reach R K h sz w0 (g, \<lambda>_. None)" "\<not> g_flushed g i" "g_batch g i \<noteq> []"
  defines "b \<equiv> batch_msgs g i" and "w \<equiv> g_world g"
  shows "effect_reach R K h sz w0 (g\<lparr>g_world := fst (flush_plan R h inp b w)\<rparr>, in_flush R h i inp g Planned)" (is ?planned)
    and "effect_reach R K h sz w0 (if snd (after_clean R K h inp b w)
      then (g\<lparr>g_world := fst (after_clean R K h inp b w)\<rparr>, in_flush R h i inp g CleanOut)
      else (reset_worker i (g\<lparr>g_world := fst (after_clean R K h inp b w)\<rparr>), \<lambda>_. None))" (is ?clean)
    and "snd (after_clean R K h inp b w) \<Longrightarrow> effect_reach R K h sz w0 (if snd (after_dlq R K h inp b w)
      then (g\<lparr>g_world := fst (after_dlq R K h inp b w)\<rparr>, in_flush R h i inp g DlqOut)
      else (reset_worker i (g\<lparr>g_world := fst (after_dlq R K h inp b w)\<rparr>), \<lambda>_. None))" (is "_ \<Longrightarrow> ?dlq")
    and "snd (after_clean R K h inp b w) \<Longrightarrow> snd (after_dlq R K h inp b w) \<Longrightarrow>
      effect_reach R K h sz w0 (g\<lparr>g_world := after_finish R K h inp b w, g_flushed := (g_flushed g)(i := True)\<rparr>, \<lambda>_. None)"
proof -
  show p: ?planned
    unfolding in_flush_def b_def w_def
    by (rule eff_step [OF assms(1)], rule effect_step.plan) (use assms(2,3) in simp_all)
  show c: ?clean
    using effects_clean [OF p in_flush_upd(3)] by (simp add: after_clean_def b_def w_def split: if_splits)
  show d: ?dlq if ok: "snd (after_clean R K h inp b w)"
  proof -
    have "effect_reach R K h sz w0 (g\<lparr>g_world := fst (after_clean R K h inp b w)\<rparr>, in_flush R h i inp g CleanOut)" using c ok by simp
    from effects_dlq [OF this in_flush_upd(3)] show ?thesis by (simp add: after_dlq_def b_def w_def split: if_splits)
  qed
  show "effect_reach R K h sz w0 (g\<lparr>g_world := after_finish R K h inp b w, g_flushed := (g_flushed g)(i := True)\<rparr>, \<lambda>_. None)"
    if ok: "snd (after_clean R K h inp b w)" "snd (after_dlq R K h inp b w)"
  proof -
    have "effect_reach R K h sz w0 (g\<lparr>g_world := fst (after_dlq R K h inp b w)\<rparr>, in_flush R h i inp g DlqOut)" using d ok by simp
    from eff_step [OF this effect_step.finish [OF in_flush_upd(3)]] show ?thesis
      by (simp add: after_finish_def b_def w_def)
  qed
qed

lemma crash_effects:
  assumes "effect_reach R K h sz w0 (g, fl)" "\<And>j. j \<noteq> i \<Longrightarrow> fl j = None"
  shows "effect_reach R K h sz w0 (reset_worker i g, \<lambda>_. None)"
proof -
  have "fl(i := None) = (\<lambda>_. None)" using assms(2) by auto
  with eff_step [OF assms(1) effect_step.lose [of R K h sz g fl i]] show ?thesis by simp
qed

theorem whole_flushes:
  "group_reach sz (flush R K h) (flush_crash R K h) w0 g \<Longrightarrow> effect_reach R K h sz w0 (g, \<lambda>_. None)"
proof (induction rule: group_reach.induct)
  case start
  show ?case by (rule eff_start)
next
  case (step g g')
  note reach = step.IH
  show ?case
    using step.hyps(2)
  proof cases
    case (append p msg)
    then show ?thesis using idle_move [OF reach] group_step.append by metis
  next
    case (assign i p)
    then show ?thesis using idle_move [OF reach] group_step.assign by metis
  next
    case (revoke i p)
    then show ?thesis using idle_move [OF reach] group_step.revoke by metis
  next
    case (fetch i p off)
    then show ?thesis using idle_move [OF reach group_step.fetch] by simp
  next
    case (flush_ok i inp w')
    let ?b = "batch_msgs g i" and ?w = "g_world g"
    have "snd (after_clean R K h inp ?b ?w)" "snd (after_dlq R K h inp ?b ?w)" "w' = after_finish R K h inp ?b ?w"
      using flush_ok(4) by (auto simp: flush_stages split: if_splits)
    then show ?thesis using flush_effects(4) [OF reach flush_ok(2,3), where inp = inp] flush_ok(1) by simp
  next
    case (flush_err i inp w')
    then show ?thesis
      using flush_effects(2,3) [OF reach flush_err(2,3), where inp = inp] by (auto simp: flush_stages split: if_splits)
  next
    case (commit i P)
    then show ?thesis using idle_move [OF reach group_step.commit] by simp
  next
    case (crash i)
    then show ?thesis using crash_effects [OF reach, of i] by simp
  next
    case (crash_in_flush i n inp)
    note eff = flush_effects [OF reach crash_in_flush(2,3), where inp = inp]
    let ?b = "batch_msgs g i" and ?w = "g_world g"
    have finished: "reset_worker i (g\<lparr>g_world := w, g_flushed := (g_flushed g)(i := True)\<rparr>) = reset_worker i (g\<lparr>g_world := w\<rparr>)" for w
      by (simp add: reset_worker_def)
    have "flush_crash R K h n inp ?b ?w = (if n = 0 then ?w else if n = 1 then fst (flush_plan R h inp ?b ?w)
        else if n = 2 \<or> \<not> snd (after_clean R K h inp ?b ?w) then fst (after_clean R K h inp ?b ?w)
        else if n = 3 \<or> \<not> snd (after_dlq R K h inp ?b ?w) then fst (after_dlq R K h inp ?b ?w) else after_finish R K h inp ?b ?w)"
      by (simp add: flush_crash_def after_clean_def after_dlq_def after_finish_def case_prod_beta Let_def)
    then show ?thesis
      using crash_effects [OF reach, of i] crash_effects [OF eff(1), of i] eff(2,3)
        crash_effects [of R K h sz w0 "g\<lparr>g_world := fst (after_clean R K h inp ?b ?w)\<rparr>" _ i]
        crash_effects [of R K h sz w0 "g\<lparr>g_world := fst (after_dlq R K h inp ?b ?w)\<rparr>" _ i]
        crash_effects [OF eff(4), of i] crash_in_flush(1)
      by (auto simp: finished split: if_splits)
  qed
qed

subsection \<open>The invariant\<close>

text \<open>What a worker in the middle of a flush knows.\<close>

definition plan_ok :: "('k, bytes) kafka \<Rightarrow> analyticsHandler \<Rightarrow> ('r, 'k) world \<Rightarrow> flight \<Rightarrow> bool" where
  "plan_ok K h w f \<longleftrightarrow> list_all row_ok (pl_fresh (fl_plan f))
     \<and> pl_dlq (fl_plan f) = snd (flush_decode (fi_sprintf (fl_in f)) (fi_clk (fl_in f) 0) (fi_regs (fl_in f)) 0 (fl_batch f))
     \<and> (\<forall>v\<in>set (fst (flush_decode (fi_sprintf (fl_in f)) (fi_clk (fl_in f) 0) (fi_regs (fl_in f)) 0 (fl_batch f))).
          (\<exists>ce\<in>set (pl_fresh (fl_plan f)). ce_EventID ce = ve_id v) \<or> produced K (ah_writers h) (w_k w) (ve_id v))
     \<and> (fl_pos f \<noteq> Planned \<longrightarrow> (\<forall>ce\<in>set (pl_fresh (fl_plan f)). produced K (ah_writers h) (w_k w) (ce_EventID ce)))
     \<and> (fl_pos f = DlqOut \<longrightarrow> (\<forall>msg\<in>set (fl_batch f). accounted K (ah_writers h) (w_k w) msg))"

definition flights_ok :: "('k, bytes) kafka \<Rightarrow> analyticsHandler \<Rightarrow> ('r, 'k) flights \<Rightarrow> bool" where
  "flights_ok K h s \<longleftrightarrow> (\<forall>i f. snd s i = Some f \<longrightarrow> fl_batch f = batch_msgs (fst s) i \<and> g_batch (fst s) i \<noteq> []
     \<and> \<not> g_flushed (fst s) i \<and> plan_ok K h (g_world (fst s)) f)"

text \<open>A world in which no less is produced and accounted for.\<close>

definition grows :: "('k, bytes) kafka \<Rightarrow> analyticsHandler \<Rightarrow> ('r, 'k) world \<Rightarrow> ('r, 'k) world \<Rightarrow> bool" where
  "grows K h w w' \<longleftrightarrow> (\<forall>eid. produced K (ah_writers h) (w_k w) eid \<longrightarrow> produced K (ah_writers h) (w_k w') eid)
     \<and> (\<forall>msg. accounted K (ah_writers h) (w_k w) msg \<longrightarrow> accounted K (ah_writers h) (w_k w') msg)"

lemma plan_ok_grows: "grows K h w w' \<Longrightarrow> plan_ok K h w f \<Longrightarrow> plan_ok K h w' f"
  unfolding plan_ok_def grows_def by blast

lemma flights_ok_world:
  assumes "flights_ok K h (g, fl)" "grows K h (g_world g) w"
  shows "flights_ok K h (g\<lparr>g_world := w\<rparr>, fl)"
  using assms plan_ok_grows by (fastforce simp: flights_ok_def batch_msgs_def)

lemma flights_ok_upd:
  assumes "flights_ok K h (g, fl)" "fl i = Some f" "fl_batch f' = fl_batch f" "plan_ok K h (g_world g) f'"
  shows "flights_ok K h (g, fl(i \<mapsto> f'))"
  using assms by (simp add: flights_ok_def)

lemma flights_ok_reset:
  assumes "flights_ok K h (g, fl)"
  shows "flights_ok K h (reset_worker i g, fl(i := None))"
  using assms by (auto simp: flights_ok_def reset_worker_def batch_msgs_def)

lemma flights_ok_flushed:
  "flights_ok K h (g, fl) \<Longrightarrow> flights_ok K h (g\<lparr>g_flushed := (g_flushed g)(i := True)\<rparr>, fl(i := None))"
  by (auto simp: flights_ok_def batch_msgs_def)

lemma group_step_log: "group_step sz sink torn g g' \<Longrightarrow> \<exists>ys. g_log g' p = g_log g p @ ys"
  by (induction rule: group_step.induct) (auto simp: reset_worker_def)

lemma idle_world: "group_step sz idle_sink idle_torn g g' \<Longrightarrow> g_world g' = g_world g"
  by (induction rule: group_step.induct) (auto simp: reset_worker_def idle_sink_def idle_torn_def)

text \<open>The group with its flights: the invariant of the sink's contract and that of the flights.\<close>

definition effects_ok :: "'r redis \<Rightarrow> ('k, bytes) kafka \<Rightarrow> analyticsHandler \<Rightarrow> ('r, 'k) flights \<Rightarrow> bool" where
  "effects_ok R K h s \<longleftrightarrow> batch_sink.group_inv (window_ok R K h) (\<lambda>w. accounted K (ah_writers h) (w_k w)) (fst s) \<and> flights_ok K h s"

context analytics_env
begin

lemma idle_batch_sink:
  "batch_sink idle_sink idle_torn (window_ok R K h) (\<lambda>w. accounted K (ah_writers h) (w_k w))"
  by unfold_locales (simp_all add: idle_sink_def idle_torn_def)

lemma grows_k: "w_k w' = w_k w \<Longrightarrow> grows K h w w'"
  by (simp add: grows_def)

lemma clean_grows: "list_all row_ok (pl_fresh p) \<Longrightarrow> grows K h w (fst (flush_clean K h inp p w))"
  by (simp add: grows_def flush_clean_k produced_write accounted_write)

lemma dlq_grows: "grows K h w (fst (flush_dlq K h inp p w))"
  by (simp add: grows_def flush_dlq_k produced_write accounted_write)

lemma window_ok_grows: "window_ok R K h w \<Longrightarrow> grows K h w w' \<Longrightarrow> w_r w' = w_r w \<Longrightarrow> window_ok R K h w'"
  by (auto simp: window_ok_def grows_def)

lemma effects_ok_world:
  assumes "effects_ok R K h (g, fl)" "grows K h (g_world g) w" "window_ok R K h w"
  shows "effects_ok R K h (g\<lparr>g_world := w\<rparr>, fl)"
  unfolding effects_ok_def fst_conv
proof
  show "batch_sink.group_inv (window_ok R K h) (\<lambda>w. accounted K (ah_writers h) (w_k w)) (g\<lparr>g_world := w\<rparr>)"
    by (rule batch_sink.group_inv_world [OF idle_batch_sink]) (use assms in \<open>auto simp: effects_ok_def grows_def\<close>)
  show "flights_ok K h (g\<lparr>g_world := w\<rparr>, fl)" using assms by (auto simp: effects_ok_def intro: flights_ok_world)
qed

lemma effects_ok_reset: "effects_ok R K h (g, fl) \<Longrightarrow> effects_ok R K h (reset_worker i g, fl(i := None))"
  using batch_sink.group_inv_reset [OF idle_batch_sink] flights_ok_reset by (auto simp: effects_ok_def)

lemma effects_ok_window: "effects_ok R K h (g, fl) \<Longrightarrow> window_ok R K h (g_world g)"
  using batch_sink.group_invD(1) [OF idle_batch_sink] by (auto simp: effects_ok_def)

lemma effects_ok_move:
  assumes "effects_ok R K h (g, fl)" "group_step sz idle_sink idle_torn g g'"
    and "\<And>i. fl i \<noteq> None \<Longrightarrow> g_batch g' i = g_batch g i \<and> g_flushed g' i = g_flushed g i"
  shows "effects_ok R K h (g', fl)"
proof -
  let ?inv = "batch_sink.group_inv (window_ok R K h) (\<lambda>w. accounted K (ah_writers h) (w_k w))"
  have inv: "?inv g" and fl: "flights_ok K h (g, fl)" using assms(1) by (simp_all add: effects_ok_def)
  have "batch_msgs g' i = batch_msgs g i" if "g_batch g' i = g_batch g i" for i
  proof -
    have "g_log g' p ! off = g_log g p ! off" if "(p, off) \<in> set (g_batch g i)" for p off
    proof -
      have "off < length (g_log g p)"
        using batch_sink.group_invD(4) [OF idle_batch_sink inv that order_refl]
        by (auto simp: batch_sink.held_def [OF idle_batch_sink] batch_sink.done_at_def [OF idle_batch_sink])
      then show ?thesis using group_step_log [OF assms(2), of p] by (auto simp: nth_append)
    qed
    then show ?thesis using that by (auto simp: batch_msgs_def)
  qed
  then have "flights_ok K h (g', fl)"
    using fl assms(3) idle_world [OF assms(2)] by (fastforce simp: flights_ok_def)
  then show ?thesis using batch_sink.group_inv_step [OF idle_batch_sink assms(2) inv] by (simp add: effects_ok_def)
qed

lemma flight_okD:
  assumes "effects_ok R K h (g, fl)" "fl i = Some f"
  shows "plan_ok K h (g_world g) f" "fl_batch f = batch_msgs g i" "g_batch g i \<noteq> []" "\<not> g_flushed g i"
  using assms by (auto simp: effects_ok_def flights_ok_def)

lemma effects_ok_plan:
  assumes "effects_ok R K h (g, fl)" "\<not> g_flushed g i" "g_batch g i \<noteq> []"
  shows "effects_ok R K h (g\<lparr>g_world := fst (flush_plan R h inp (batch_msgs g i) (g_world g))\<rparr>,
    fl(i \<mapsto> \<lparr>fl_in = inp, fl_batch = batch_msgs g i, fl_plan = snd (flush_plan R h inp (batch_msgs g i) (g_world g)), fl_pos = Planned\<rparr>))"
proof -
  let ?b = "batch_msgs g i" and ?w = "g_world g"
  let ?w1 = "fst (flush_plan R h inp ?b ?w)"
  note win = effects_ok_window [OF assms(1)]
  have "effects_ok R K h (g\<lparr>g_world := ?w1\<rparr>, fl)"
    using assms(1) win by (intro effects_ok_world grows_k window_ok_stages(1)) (simp_all add: flush_plan_sel)
  moreover have "plan_ok K h ?w1 \<lparr>fl_in = inp, fl_batch = ?b, fl_plan = snd (flush_plan R h inp ?b ?w), fl_pos = Planned\<rparr>"
    using plan_covers [OF win, of _ inp ?b] by (auto simp: plan_ok_def plan_fresh_ok flush_plan_sel(2,5))
  ultimately show ?thesis using assms(2,3) by (auto simp: effects_ok_def flights_ok_def batch_msgs_def)
qed

lemma effects_ok_stage:
  assumes "effects_ok R K h (g, fl)" "fl i = Some f" "grows K h (g_world g) w" "w_r w = w_r (g_world g)"
    and "plan_ok K h w (f\<lparr>fl_pos := ps\<rparr>)"
  shows "effects_ok R K h (g\<lparr>g_world := w\<rparr>, fl(i \<mapsto> f\<lparr>fl_pos := ps\<rparr>))"
proof -
  have "effects_ok R K h (g\<lparr>g_world := w\<rparr>, fl)"
    using assms(1,3,4) effects_ok_window window_ok_grows by (blast intro: effects_ok_world)
  then show ?thesis using flights_ok_upd [of K h "g\<lparr>g_world := w\<rparr>" fl i f "f\<lparr>fl_pos := ps\<rparr>"] assms(2,5) by (simp add: effects_ok_def)
qed

lemma effects_ok_fail:
  assumes "effects_ok R K h (g, fl)" "grows K h (g_world g) w" "w_r w = w_r (g_world g)"
  shows "effects_ok R K h (reset_worker i (g\<lparr>g_world := w\<rparr>), fl(i := None))"
  using assms effects_ok_window window_ok_grows by (blast intro: effects_ok_reset effects_ok_world)

text \<open>After the dead letters every message of the batch is accounted for.\<close>

lemma dlq_accounts:
  assumes f: "plan_ok K h w f" "fl_pos f = CleanOut" and ok: "snd (flush_dlq K h (fl_in f) (fl_plan f) w)" and msg: "msg \<in> set (fl_batch f)"
  shows "accounted K (ah_writers h) (w_k (fst (flush_dlq K h (fl_in f) (fl_plan f) w))) msg"
proof -
  obtain i where i: "i < length (fl_batch f)" "msg = fl_batch f ! i" using msg by (metis in_set_conv_nth)
  have pl: "pl_dlq (fl_plan f) = snd (flush_decode (fi_sprintf (fl_in f)) (fi_clk (fl_in f) 0) (fi_regs (fl_in f)) 0 (fl_batch f))"
    using f(1) by (simp add: plan_ok_def)
  show ?thesis
  proof (cases "judge (fi_regs (fl_in f) i) (km_Value msg)")
    case (Inl err)
    then obtain it where "it \<in> set (pl_dlq (fl_plan f))" "di_Key it = km_Key msg" "di_Raw it = km_Value msg"
      using flush_decode_dlq [of i "fl_batch f" "fi_regs (fl_in f)" 0 err "fi_sprintf (fl_in f)" "fi_clk (fl_in f) 0"] i pl by auto
    then show ?thesis using flush_dlq_lettered [OF ok] by (simp add: accounted_def)
  next
    case (Inr ets)
    then obtain e ts where e: "judge (fi_regs (fl_in f) i) (km_Value msg) = Inr (e, ts)" by (cases ets) auto
    then obtain v where v: "v \<in> set (fst (flush_decode (fi_sprintf (fl_in f)) (fi_clk (fl_in f) 0) (fi_regs (fl_in f)) 0 (fl_batch f)))" "ve_id v = EventID e"
      using flush_decode_valid [of i "fl_batch f" "fi_regs (fl_in f)" 0 e ts "fi_sprintf (fl_in f)" "fi_clk (fl_in f) 0"] i by auto
    have "fl_pos f \<noteq> Planned" using f(2) by simp
    then have "produced K (ah_writers h) (w_k w) (ve_id v)" using f(1) v(1) unfolding plan_ok_def by metis
    then have "produced K (ah_writers h) (w_k w) (EventID e)" by (simp only: v(2))
    then have "produced K (ah_writers h) (w_k (fst (flush_dlq K h (fl_in f) (fl_plan f) w))) (EventID e)"
      by (metis dlq_grows grows_def)
    then show ?thesis using judge_good [OF e] by (auto simp: accounted_def)
  qed
qed

lemma effects_ok_finish:
  assumes "effects_ok R K h (g, fl)" "fl i = Some f" "fl_pos f = DlqOut"
  shows "effects_ok R K h (g\<lparr>g_world := flush_finish R h (fl_in f) (fl_batch f) (fl_plan f) (g_world g), g_flushed := (g_flushed g)(i := True)\<rparr>,
    fl(i := None))"
proof -
  let ?w = "flush_finish R h (fl_in f) (fl_batch f) (fl_plan f) (g_world g)"
  note f = flight_okD [OF assms(1,2)]
  have k: "w_k ?w = w_k (g_world g)" by (simp add: flush_finish_sel)
  have "window_ok R K h ?w"
    using effects_ok_window [OF assms(1)] f(1) assms(3) MarkBatch_marked
    by (fastforce simp: window_ok_def flush_finish_sel plan_ok_def)
  moreover have "\<forall>msg\<in>set (batch_msgs g i). accounted K (ah_writers h) (w_k ?w) msg"
    using f(1) assms(3) unfolding k f(2) [symmetric] by (simp add: plan_ok_def)
  ultimately have "batch_sink.group_inv (window_ok R K h) (\<lambda>w. accounted K (ah_writers h) (w_k w))
      (g\<lparr>g_world := ?w, g_flushed := (g_flushed g)(i := True)\<rparr>)"
    using assms(1) by (intro batch_sink.group_inv_done [OF idle_batch_sink]) (simp_all add: effects_ok_def k)
  moreover have "flights_ok K h (g\<lparr>g_world := ?w, g_flushed := (g_flushed g)(i := True)\<rparr>, fl(i := None))"
    using flights_ok_flushed [OF flights_ok_world [OF _ grows_k [OF k]], of h fl i] assms(1) by (simp add: effects_ok_def)
  ultimately show ?thesis by (simp add: effects_ok_def)
qed

theorem effect_step_ok: "effect_step R K h sz s s' \<Longrightarrow> effects_ok R K h s \<Longrightarrow> effects_ok R K h s'"
proof (induction rule: effect_step.induct)
  case (move g g' fl)
  then show ?case using effects_ok_move by blast
next
  case (lose g fl i)
  then show ?case by (rule effects_ok_reset)
next
  case (plan g i fl inp w p)
  then show ?case using effects_ok_plan [OF plan.prems plan.hyps(1,2), of inp] by simp
next
  case (clean_ok fl i f g w)
  note f = flight_okD(1) [OF clean_ok.prems clean_ok.hyps(1)]
  have fin: "list_all row_ok (pl_fresh (fl_plan f))" using f by (simp add: plan_ok_def)
  have w: "w = fst (flush_clean K h (fl_in f) (fl_plan f) (g_world g))" "snd (flush_clean K h (fl_in f) (fl_plan f) (g_world g))"
    using clean_ok.hyps(3) by simp_all
  have gr: "grows K h (g_world g) w" unfolding w(1) by (rule clean_grows [OF fin])
  have pl: "plan_ok K h w (f\<lparr>fl_pos := CleanOut\<rparr>)"
    using plan_ok_grows [OF gr f] flush_clean_produced [OF fin w(2)] by (simp add: plan_ok_def w(1))
  have "w_r w = w_r (g_world g)" by (simp add: w(1) flush_clean_k [OF fin])
  from effects_ok_stage [OF clean_ok.prems clean_ok.hyps(1) gr this pl] show ?case .
next
  case (clean_err fl i f g w)
  have fin: "list_all row_ok (pl_fresh (fl_plan f))"
    using flight_okD(1) [OF clean_err.prems clean_err.hyps(1)] by (simp add: plan_ok_def)
  have w: "w = fst (flush_clean K h (fl_in f) (fl_plan f) (g_world g))" using clean_err.hyps(3) by simp
  show ?case
    by (rule effects_ok_fail [OF clean_err.prems]) (simp_all add: w clean_grows [OF fin] flush_clean_k [OF fin])
next
  case (dlq_ok fl i f g w)
  note f = flight_okD(1) [OF dlq_ok.prems dlq_ok.hyps(1)]
  have w: "w = fst (flush_dlq K h (fl_in f) (fl_plan f) (g_world g))" "snd (flush_dlq K h (fl_in f) (fl_plan f) (g_world g))"
    using dlq_ok.hyps(3) by simp_all
  have gr: "grows K h (g_world g) w" unfolding w(1) by (rule dlq_grows)
  have pl: "plan_ok K h w (f\<lparr>fl_pos := DlqOut\<rparr>)"
    using plan_ok_grows [OF gr f] dlq_accounts [OF f dlq_ok.hyps(2) w(2)] dlq_ok.hyps(2) by (simp add: plan_ok_def w(1))
  have "w_r w = w_r (g_world g)" by (simp add: w(1) flush_dlq_k)
  from effects_ok_stage [OF dlq_ok.prems dlq_ok.hyps(1) gr this pl] show ?case .
next
  case (dlq_err fl i f g w)
  have w: "w = fst (flush_dlq K h (fl_in f) (fl_plan f) (g_world g))" using dlq_err.hyps(3) by simp
  show ?case
    by (rule effects_ok_fail [OF dlq_err.prems]) (simp_all add: w dlq_grows flush_dlq_k)
next
  case (finish fl i f g)
  then show ?case using effects_ok_finish by blast
qed

lemma effect_reach_ok: "effect_reach R K h sz w0 s \<Longrightarrow> window_ok R K h w0 \<Longrightarrow> effects_ok R K h s"
proof (induction rule: effect_reach.induct)
  case eff_start
  then show ?case using batch_sink.group_inv_init [OF idle_batch_sink] by (simp add: effects_ok_def flights_ok_def)
next
  case (eff_step s s')
  then show ?case using effect_step_ok by blast
qed

lemma effect_reach_accounts:
  assumes "effect_reach R K h sz w0 (g, fl)" "window_ok R K h w0"
  shows "(\<forall>p off. off < g_committed g p \<longrightarrow>
      off < length (g_log g p) \<and> accounted K (ah_writers h) (w_k (g_world g)) (g_log g p ! off))
    \<and> (\<forall>eid. marked R (w_r (g_world g)) eid \<longrightarrow> produced K (ah_writers h) (w_k (g_world g)) eid)"
proof -
  note ok = effect_reach_ok [OF assms]
  then have inv: "batch_sink.group_inv (window_ok R K h) (\<lambda>w. accounted K (ah_writers h) (w_k w)) g" by (simp add: effects_ok_def)
  have "off < length (g_log g p) \<and> accounted K (ah_writers h) (w_k (g_world g)) (g_log g p ! off)" if "off < g_committed g p" for p off
    using batch_sink.group_invD(2) [OF idle_batch_sink inv that] by (simp add: batch_sink.done_at_def [OF idle_batch_sink])
  then show ?thesis using effects_ok_window [OF ok] by (simp add: window_ok_def)
qed

end

subsection \<open>Properties\<close>

text \<open>
  C3: At-least-once delivery of the analytics group. In every state the group can reach, with any number
  of workers whose flushes interleave at every effect, rebalances that leave two workers with the
  same messages, lost commits, Redis and broker failures and crashes between any two effects: every
  message below a committed offset exists and is accounted for, in the dead-letter topic or with its
  event in the clean topic, and an id that is marked as seen has its row in the clean topic.
\<close>

theorem interleaved_at_least_once:
  assumes "redis_keys R" "kafka_log K" "window_ok R K h w0" "effect_reach R K h sz w0 (g, fl)"
  shows "(\<forall>p off. off < g_committed g p \<longrightarrow>
      off < length (g_log g p) \<and> accounted K (ah_writers h) (w_k (g_world g)) (g_log g p ! off))
    \<and> (\<forall>eid. marked R (w_r (g_world g)) eid \<longrightarrow> produced K (ah_writers h) (w_k (g_world g)) eid)"
  using analytics_env.effect_reach_accounts [OF analytics_env.intro [OF assms(1,2)] assms(4,3)] .

theorem interleaved_at_least_once_witness:
  "\<exists>g :: (mem, bytes broker) world group. 0 < g_committed g 0 \<and> 0 < length (g_log g 0)
     \<and> accounted steady_kafka (ah_writers demo_handler) (w_k (g_world g)) (g_log g 0 ! 0)"
proof -
  obtain g :: "(mem, bytes broker) world group" where g:
    "group_reach 500 (flush steady_keys steady_kafka demo_handler) (flush_crash steady_keys steady_kafka demo_handler) demo_world g" "0 < g_committed g 0"
    using demo_group [of 500 demo_handler, simplified] by blast
  from interleaved_at_least_once [OF steady_env.redis_keys_axioms steady_env.kafka_log_axioms demo_window(2) whole_flushes [OF g(1)]] g(2)
  show ?thesis by (intro exI [of _ g]) fastforce
qed

end
