(* ===== verification/SimConfig.thy ===== *)
theory SimConfig
  imports Float64
begin

text \<open>
  \<^verbatim>\<open>simulator/config.go\<close>. As for the processor, the file content and the YAML parser are
  parameters. \<^verbatim>\<open>LoadConfig\<close> rejects in the order of the code; float comparisons are those of
  \<^verbatim>\<open>float64\<close>, for which every comparison with NaN is false.
  Shown: what an accepted configuration guarantees, and that a rejected one breaks the rule named
  by the error; the rate checks let a NaN through.
\<close>

record SessionDist =
  sd_Mean :: float64
  sd_Stddev :: float64
  sd_Min :: float64
  sd_Max :: float64

record PeakWindow =
  pw_Start :: int
  pw_End :: int
  pw_Weight :: float64

record City =
  ct_Code :: string
  ct_Name :: string
  ct_Lat :: float64
  ct_Lon :: float64
  ct_Weight :: int

record SimulatorConfig =
  sc_StationCount :: int
  sc_ConnectorsPerStation :: "int \<times> int"
  sc_Seed :: int
  sc_TargetEventsPerSec :: int
  sc_TimeAcceleration :: float64
  sc_DuplicateRate :: float64
  sc_OutOfOrderRate :: float64
  sc_FaultRatePerHour :: float64
  sc_MeterIntervalSec :: "int \<times> int"
  sc_SessionMinutes :: SessionDist
  sc_PeakWindows :: "PeakWindow list"
  sc_BaseArrivalWeight :: float64
  sc_Operators :: "string list"

record SimKafkaConfig =
  sk_Brokers :: "string list"
  sk_TopicRaw :: string
  sk_Acks :: string
  sk_BatchSize :: int
  sk_BatchTimeoutMs :: int
  sk_Async :: bool

record SimConfig =
  sm_Simulator :: SimulatorConfig
  sm_Kafka :: SimKafkaConfig
  sm_PostgresDSN :: string
  sm_SeedRegistry :: bool
  sm_MetricsListen :: string
  sm_Cities :: "City list"

datatype sim_config_error = SimReadConfig | SimParseConfig | BadStationCount | NoCity | BadCityWeight nat
  | BadConnectors | BadMeterInterval | BadSessionMinutes | BadPeakWindow nat | BadTargetEvents
  | BadDuplicateRate | BadOutOfOrderRate | BadFaultRate

text \<open>The index of the first element a range loop rejects.\<close>

fun first_bad :: "('a \<Rightarrow> bool) \<Rightarrow> nat \<Rightarrow> 'a list \<Rightarrow> nat option" where
  "first_bad bad i [] = None"
| "first_bad bad i (x # xs) = (if bad x then Some i else first_bad bad (Suc i) xs)"

definition bad_window :: "PeakWindow \<Rightarrow> bool" where
  "bad_window w \<longleftrightarrow> pw_Start w < 0 \<or> 23 < pw_Start w \<or> pw_End w < pw_Start w + 1 \<or> 24 < pw_End w \<or> pw_Weight w \<le> 0"

definition bad_session_minutes :: "SessionDist \<Rightarrow> bool" where
  "bad_session_minutes sm \<longleftrightarrow> sd_Min sm \<le> 0 \<or> sd_Max sm < sd_Min sm \<or> sd_Stddev sm < 0
     \<or> sd_Mean sm < sd_Min sm \<or> sd_Max sm < sd_Mean sm"

definition bad_range :: "int \<times> int \<Rightarrow> bool" where
  "bad_range r \<longleftrightarrow> fst r < 1 \<or> snd r < fst r"

definition bad_rate :: "float64 \<Rightarrow> bool" where
  "bad_rate x \<longleftrightarrow> x < 0 \<or> Fin 1 < x"

definition check_config :: "SimConfig \<Rightarrow> sim_config_error option" where
  "check_config c =
     (let s = sm_Simulator c in
      if sc_StationCount s \<le> 0 then Some BadStationCount
      else if sm_Cities c = [] then Some NoCity
      else case first_bad (\<lambda>city. ct_Weight city \<le> 0) 0 (sm_Cities c) of Some i \<Rightarrow> Some (BadCityWeight i) | None \<Rightarrow>
      if bad_range (sc_ConnectorsPerStation s) then Some BadConnectors
      else if bad_range (sc_MeterIntervalSec s) then Some BadMeterInterval
      else if bad_session_minutes (sc_SessionMinutes s) then Some BadSessionMinutes
      else case first_bad bad_window 0 (sc_PeakWindows s) of Some i \<Rightarrow> Some (BadPeakWindow i) | None \<Rightarrow>
      if sc_TargetEventsPerSec s < 0 then Some BadTargetEvents
      else if bad_rate (sc_DuplicateRate s) then Some BadDuplicateRate
      else if bad_rate (sc_OutOfOrderRate s) then Some BadOutOfOrderRate
      else if sc_FaultRatePerHour s < 0 then Some BadFaultRate
      else None)"

definition sim_LoadConfig :: "(bytes \<Rightarrow> SimConfig option) \<Rightarrow> bytes option \<Rightarrow> sim_config_error + SimConfig" where
  "sim_LoadConfig yaml file = (case file of
       None \<Rightarrow> Inl SimReadConfig
     | Some b \<Rightarrow> (case yaml b of
           None \<Rightarrow> Inl SimParseConfig
         | Some c \<Rightarrow> (case check_config c of
               Some e \<Rightarrow> Inl e
             | None \<Rightarrow> Inr (if sc_TimeAcceleration (sm_Simulator c) \<le> 0
                           then c\<lparr>sm_Simulator := (sm_Simulator c)\<lparr>sc_TimeAcceleration := Fin 1\<rparr>\<rparr> else c))))"

subsection \<open>What an accepted configuration guarantees\<close>

lemma first_bad_None: "first_bad bad i xs = None \<longleftrightarrow> list_all (\<lambda>x. \<not> bad x) xs"
  by (induction xs arbitrary: i) auto

definition sim_config_ok :: "SimConfig \<Rightarrow> bool" where
  "sim_config_ok c \<longleftrightarrow> (let s = sm_Simulator c in
     0 < sc_StationCount s \<and> sm_Cities c \<noteq> [] \<and> list_all (\<lambda>city. 0 < ct_Weight city) (sm_Cities c)
     \<and> 1 \<le> fst (sc_ConnectorsPerStation s) \<and> fst (sc_ConnectorsPerStation s) \<le> snd (sc_ConnectorsPerStation s)
     \<and> 1 \<le> fst (sc_MeterIntervalSec s) \<and> fst (sc_MeterIntervalSec s) \<le> snd (sc_MeterIntervalSec s)
     \<and> list_all (\<lambda>w. 0 \<le> pw_Start w \<and> pw_Start w < pw_End w \<and> pw_End w \<le> 24 \<and> \<not> pw_Weight w \<le> 0) (sc_PeakWindows s)
     \<and> 0 \<le> sc_TargetEventsPerSec s)"

text \<open>The checks on floats, on numbers: they hold unless the value is NaN.\<close>

lemma not_less_f64: "x \<noteq> NaN \<Longrightarrow> y \<noteq> NaN \<Longrightarrow> \<not> x < y \<longleftrightarrow> y \<le> (x :: float64)"
  by (cases x; cases y) (auto simp: less_eq_float64_def)

lemma not_le_f64: "x \<noteq> NaN \<Longrightarrow> y \<noteq> NaN \<Longrightarrow> \<not> x \<le> y \<longleftrightarrow> y < (x :: float64)"
  by (cases x; cases y) (auto simp: less_eq_float64_def)

definition sim_floats_ok :: "SimConfig \<Rightarrow> bool" where
  "sim_floats_ok c \<longleftrightarrow> (let s = sm_Simulator c; sm = sc_SessionMinutes s in
     0 < sd_Min sm \<and> sd_Min sm \<le> sd_Mean sm \<and> sd_Mean sm \<le> sd_Max sm \<and> 0 \<le> sd_Stddev sm
     \<and> list_all (\<lambda>w. 0 < pw_Weight w) (sc_PeakWindows s)
     \<and> 0 \<le> sc_DuplicateRate s \<and> sc_DuplicateRate s \<le> Fin 1 \<and> 0 \<le> sc_OutOfOrderRate s \<and> sc_OutOfOrderRate s \<le> Fin 1
     \<and> 0 \<le> sc_FaultRatePerHour s)"

definition no_nan :: "SimConfig \<Rightarrow> bool" where
  "no_nan c \<longleftrightarrow> (let s = sm_Simulator c; sm = sc_SessionMinutes s in
     sd_Min sm \<noteq> NaN \<and> sd_Max sm \<noteq> NaN \<and> sd_Mean sm \<noteq> NaN \<and> sd_Stddev sm \<noteq> NaN
     \<and> list_all (\<lambda>w. pw_Weight w \<noteq> NaN) (sc_PeakWindows s)
     \<and> sc_DuplicateRate s \<noteq> NaN \<and> sc_OutOfOrderRate s \<noteq> NaN \<and> sc_FaultRatePerHour s \<noteq> NaN)"

lemma first_bad_case:
  "(case first_bad bad i xs of Some k \<Rightarrow> Some (f k) | None \<Rightarrow> x) = None \<longleftrightarrow> list_all (\<lambda>x. \<not> bad x) xs \<and> x = None"
  using first_bad_None [of bad i xs] by (cases "first_bad bad i xs") auto

lemma if_Some_None: "(if b then Some e else x) = None \<longleftrightarrow> \<not> b \<and> x = None"
  by simp

lemma check_config_None:
  "check_config c = None \<longleftrightarrow> sim_config_ok c \<and> \<not> bad_session_minutes (sc_SessionMinutes (sm_Simulator c))
     \<and> \<not> bad_rate (sc_DuplicateRate (sm_Simulator c)) \<and> \<not> bad_rate (sc_OutOfOrderRate (sm_Simulator c))
     \<and> \<not> sc_FaultRatePerHour (sm_Simulator c) < 0"
proof -
  have w: "list_all (\<lambda>w. \<not> bad_window w) ws \<longleftrightarrow>
      list_all (\<lambda>w. 0 \<le> pw_Start w \<and> pw_Start w < pw_End w \<and> pw_End w \<le> 24 \<and> \<not> pw_Weight w \<le> 0) ws" for ws
    by (auto simp: list_all_iff bad_window_def)
  show ?thesis
    unfolding check_config_def Let_def if_Some_None first_bad_case w bad_range_def sim_config_ok_def
    by (auto simp: not_le not_less)
qed

lemma accepted_floats: "check_config c = None \<Longrightarrow> no_nan c \<Longrightarrow> sim_floats_ok c"
  unfolding check_config_None sim_floats_ok_def no_nan_def bad_session_minutes_def bad_rate_def sim_config_ok_def Let_def
  by (auto simp: not_less_f64 not_le_f64 zero_f64 list_all_iff)

lemma sim_LoadConfig_Inr:
  assumes "sim_LoadConfig yaml file = Inr c"
  obtains b c0 where "file = Some b" "yaml b = Some c0" "check_config c0 = None"
    "c = (if sc_TimeAcceleration (sm_Simulator c0) \<le> 0
          then c0\<lparr>sm_Simulator := (sm_Simulator c0)\<lparr>sc_TimeAcceleration := Fin 1\<rparr>\<rparr> else c0)"
  using assms by (auto simp: sim_LoadConfig_def split: option.splits)

lemma accel_keeps:
  "sim_config_ok (c\<lparr>sm_Simulator := (sm_Simulator c)\<lparr>sc_TimeAcceleration := a\<rparr>\<rparr>) = sim_config_ok c"
  "sim_floats_ok (c\<lparr>sm_Simulator := (sm_Simulator c)\<lparr>sc_TimeAcceleration := a\<rparr>\<rparr>) = sim_floats_ok c"
  "no_nan (c\<lparr>sm_Simulator := (sm_Simulator c)\<lparr>sc_TimeAcceleration := a\<rparr>\<rparr>) = no_nan c"
  by (simp_all add: sim_config_ok_def sim_floats_ok_def no_nan_def Let_def)

lemma sim_LoadConfig_config_ok: "sim_LoadConfig yaml file = Inr c \<Longrightarrow> sim_config_ok c"
  by (erule sim_LoadConfig_Inr) (auto simp: check_config_None accel_keeps)

definition demo_sim_config :: SimConfig where
  "demo_sim_config = \<lparr>sm_Simulator = \<lparr>sc_StationCount = 2, sc_ConnectorsPerStation = (1, 4), sc_Seed = 42,
       sc_TargetEventsPerSec = 5000, sc_TimeAcceleration = 0, sc_DuplicateRate = Fin (1 / 2), sc_OutOfOrderRate = 0,
       sc_FaultRatePerHour = Fin (1 / 2), sc_MeterIntervalSec = (5, 30),
       sc_SessionMinutes = \<lparr>sd_Mean = Fin 35, sd_Stddev = Fin 18, sd_Min = Fin 5, sd_Max = Fin 180\<rparr>,
       sc_PeakWindows = [\<lparr>pw_Start = 7, pw_End = 9, pw_Weight = Fin 3\<rparr>], sc_BaseArrivalWeight = Fin 1,
       sc_Operators = [''ChargeSquare'', ''ZES'']\<rparr>,
     sm_Kafka = \<lparr>sk_Brokers = [''redpanda:9092''], sk_TopicRaw = ''charging-events-raw'', sk_Acks = ''one'',
       sk_BatchSize = 5000, sk_BatchTimeoutMs = 50, sk_Async = True\<rparr>,
     sm_PostgresDSN = [], sm_SeedRegistry = True, sm_MetricsListen = '':9101'',
     sm_Cities = [\<lparr>ct_Code = ''IST'', ct_Name = ''Istanbul'', ct_Lat = Fin 41, ct_Lon = Fin 29, ct_Weight = 30\<rparr>]\<rparr>"

lemma demo_sim_ok: "check_config demo_sim_config = None" "no_nan demo_sim_config"
  unfolding check_config_None
  by (simp_all add: demo_sim_config_def sim_config_ok_def bad_session_minutes_def bad_rate_def no_nan_def zero_f64)

lemma demo_sim_load: "sim_LoadConfig (\<lambda>_. Some demo_sim_config) (Some []) =
    Inr (demo_sim_config\<lparr>sm_Simulator := (sm_Simulator demo_sim_config)\<lparr>sc_TimeAcceleration := Fin 1\<rparr>\<rparr>)"
  unfolding sim_LoadConfig_def by (simp add: demo_sim_ok) (simp add: demo_sim_config_def zero_f64)

text \<open>
  A simulator configuration that loads is usable: there is a station and a city, every city has
  a positive weight, the integer ranges are non-empty, positive and inside the day, the acceleration is
  not zero or negative, and, as far as no float in the file is NaN, the session distribution, the
  window weights and the rates are in their documented ranges.
\<close>

theorem sim_LoadConfig_ok:
  assumes "sim_LoadConfig yaml file = Inr c"
  shows "sim_config_ok c \<and> \<not> sc_TimeAcceleration (sm_Simulator c) \<le> 0 \<and> (no_nan c \<longrightarrow> sim_floats_ok c)"
  using assms
  by (rule sim_LoadConfig_Inr)
    (auto simp: check_config_None [symmetric] accel_keeps accepted_floats zero_f64 dest: check_config_None [THEN iffD1])

theorem sim_LoadConfig_ok_witness:
  "sim_floats_ok (demo_sim_config\<lparr>sm_Simulator := (sm_Simulator demo_sim_config)\<lparr>sc_TimeAcceleration := Fin 1\<rparr>\<rparr>)"
  using sim_LoadConfig_ok [OF demo_sim_load] demo_sim_ok(2) by (simp add: accel_keeps)

text \<open>
  The range checks do not reject NaN: a file whose duplicate, out-of-order and fault rates and
  whose session bounds are NaN is accepted unchanged.
\<close>

theorem sim_LoadConfig_accepts_nan:
  "\<exists>c. sim_LoadConfig (\<lambda>_. Some c) (Some []) = Inr c \<and> sc_DuplicateRate (sm_Simulator c) = NaN
     \<and> sc_OutOfOrderRate (sm_Simulator c) = NaN \<and> sc_FaultRatePerHour (sm_Simulator c) = NaN
     \<and> sd_Min (sc_SessionMinutes (sm_Simulator c)) = NaN"
proof -
  define c where "c = demo_sim_config\<lparr>sm_Simulator := (sm_Simulator demo_sim_config)\<lparr>sc_DuplicateRate := NaN,
    sc_OutOfOrderRate := NaN, sc_FaultRatePerHour := NaN, sc_TimeAcceleration := Fin 1,
    sc_SessionMinutes := \<lparr>sd_Mean = NaN, sd_Stddev = NaN, sd_Min = NaN, sd_Max = NaN\<rparr>\<rparr>\<rparr>"
  have "check_config c = None"
    unfolding check_config_None
    by (simp add: c_def demo_sim_config_def sim_config_ok_def bad_session_minutes_def bad_rate_def zero_f64 less_eq_float64_def)
  then have "sim_LoadConfig (\<lambda>_. Some c) (Some []) = Inr c"
    by (simp add: sim_LoadConfig_def) (simp add: c_def zero_f64)
  then show ?thesis by (intro exI [of _ c]) (simp add: c_def)
qed

end
