(* ===== verification/SimModel.thy ===== *)
theory SimModel
  imports Transform SimConfig
begin

text \<open>
  \<^verbatim>\<open>simulator/model.go\<close>: the domain model of the simulator, its random choices, the roster,
  and the construction of events. The wire structs are those of \<^verbatim>\<open>processor/transform\<close>, field
  by field, so the events are \<open>Event\<close>s. A connector is a value that the operations return updated;
  a \<^verbatim>\<open>*Session\<close> is an option.
  The generators of \<^verbatim>\<open>math/rand\<close>, of \<^verbatim>\<open>google/uuid\<close> and the logarithm are a parameter, a
  record of operations on a state \<open>'s\<close>; the locale \<open>rand_source\<close> states their documented ranges.
  Float literals are the rationals of the source, rounded.
\<close>

record 's rand =
  r_New :: "int \<Rightarrow> 's"
  r_Float64 :: "'s \<Rightarrow> float64 \<times> 's"
  r_Intn :: "int \<Rightarrow> 's \<Rightarrow> int \<times> 's"
  r_NormFloat64 :: "'s \<Rightarrow> float64 \<times> 's"
  r_NewString :: "'s \<Rightarrow> string \<times> 's"
  r_Log :: "float64 \<Rightarrow> float64"

subsection \<open>Domain model\<close>

record Session =
  ss_ID :: string
  ss_Vehicle :: Vehicle
  ss_BatteryKWh :: float64
  ss_TariffID :: string
  ss_StartedAt :: instant
  ss_EndsAt :: instant
  ss_EnergyKWh :: float64
  ss_Soc :: float64
  ss_TargetPowerKW :: float64

record Connector =
  cn_ID :: int
  cn_PowerRating :: float64
  cn_Type :: string
  cn_status :: string
  cn_session :: "Session option"
  cn_nextMeterAt :: instant
  cn_lastMeterAt :: instant
  cn_idleUntil :: instant
  cn_faultedUntil :: instant

record Station =
  st_ID :: string
  st_OperatorID :: string
  st_City :: string
  st_Country :: string
  st_Lat :: float64
  st_Lon :: float64
  st_Connectors :: "Connector list"
  st_nextHeartbeatAt :: instant

record vehicleModel =
  vm_Brand :: string
  vm_Model :: string
  vm_BatteryKWh :: float64
  vm_MaxAcceptKW :: float64

definition vehicleFleet :: "(vehicleModel \<times> int) list" where
  "vehicleFleet = map (\<lambda>(b, m, kwh, kw, w). (\<lparr>vm_Brand = b, vm_Model = m, vm_BatteryKWh = Fin kwh, vm_MaxAcceptKW = Fin kw\<rparr>, w))
     [(''Tesla'', ''Model 3'', 60, 250, 22), (''Tesla'', ''Model Y'', 75, 250, 20), (''Volvo'', ''EX30'', 64, 153, 8),
      (''Volvo'', ''XC40 Recharge'', 78, 150, 7), (''Volkswagen'', ''ID.4'', 77, 135, 9), (''Hyundai'', ''IONIQ 5'', 77, 233, 8),
      (''Kia'', ''EV6'', 77, 233, 6), (''Renault'', ''Megane E-Tech'', 60, 130, 5), (''BMW'', ''i4'', 80, 205, 5),
      (''Mercedes-Benz'', ''EQB'', 66, 100, 4), (''Togg'', ''T10X'', 88, 180, 6)]"

record Tariff =
  tf_ID :: string
  tf_Name :: string
  tf_Base :: float64
  tf_PeakMult :: float64

definition tariffCatalog :: "Tariff list" where
  "tariffCatalog =
     [\<lparr>tf_ID = ''standard-v1'', tf_Name = ''Standard'', tf_Base = rnd (39 / 100), tf_PeakMult = Fin 1\<rparr>,
      \<lparr>tf_ID = ''peak-rate-v2'', tf_Name = ''Peak Rate'', tf_Base = rnd (49 / 100), tf_PeakMult = rnd (135 / 100)\<rparr>,
      \<lparr>tf_ID = ''off-peak-v1'', tf_Name = ''Off Peak'', tf_Base = rnd (29 / 100), tf_PeakMult = rnd (80 / 100)\<rparr>,
      \<lparr>tf_ID = ''fleet-v1'', tf_Name = ''Fleet Contract'', tf_Base = rnd (34 / 100), tf_PeakMult = Fin 1\<rparr>]"

text \<open>Indexing a missing id gives the zero \<^verbatim>\<open>Tariff\<close>; the last entry of an id wins.\<close>

definition indexTariffs :: "Tariff list \<Rightarrow> string \<Rightarrow> Tariff" where
  "indexTariffs catalog tid = foldl (\<lambda>m t. m(tf_ID t := t))
     (\<lambda>_. \<lparr>tf_ID = [], tf_Name = [], tf_Base = 0, tf_PeakMult = 0\<rparr>) catalog tid"

definition tariffByID :: "string \<Rightarrow> Tariff" where
  "tariffByID = indexTariffs tariffCatalog"

definition faultCodes :: "(string \<times> string) list" where
  "faultCodes = [(''GroundFailure'', ''EVSE''), (''OverCurrentFailure'', ''Connector''), (''OverVoltage'', ''PowerModule''),
     (''HighTemperature'', ''CoolingSystem''), (''ConnectorLockFailure'', ''Connector''), (''CommunicationError'', ''Controller'')]"

subsection \<open>Random choices\<close>

text \<open>The weighted pick shared by cities and vehicles: the running difference wraps at 64 bits.\<close>

fun pick_loop :: "int \<Rightarrow> ('a \<times> int) list \<Rightarrow> 'a \<Rightarrow> 'a" where
  "pick_loop n [] d = d"
| "pick_loop n ((c, w) # cs) d = (let n = wrap64 (n - w) in if n < 0 then c else pick_loop n cs d)"

definition total_weight :: "int list \<Rightarrow> int" where
  "total_weight ws = foldl (\<lambda>total w. wrap64 (total + w)) 0 ws"

definition pickCity :: "'s rand \<Rightarrow> SimConfig \<Rightarrow> 's \<Rightarrow> City \<times> 's" where
  "pickCity R cfg s =
     (let total = total_weight (map ct_Weight (sm_Cities cfg))
      in if total \<le> 0 then (sm_Cities cfg ! 0, s)
         else let (n, s) = r_Intn R total s
              in (pick_loop n (map (\<lambda>c. (c, ct_Weight c)) (sm_Cities cfg)) (sm_Cities cfg ! 0), s))"

definition pickVehicle :: "'s rand \<Rightarrow> 's \<Rightarrow> vehicleModel \<times> 's" where
  "pickVehicle R s =
     (let (n, s) = r_Intn R (total_weight (map snd vehicleFleet)) s
      in (pick_loop n vehicleFleet (fst (vehicleFleet ! 0)), s))"

definition inPeakWindow :: "int \<Rightarrow> SimConfig \<Rightarrow> bool" where
  "inPeakWindow hour cfg = list_ex (\<lambda>w. pw_Start w \<le> hour \<and> hour < pw_End w) (sc_PeakWindows (sm_Simulator cfg))"

definition pickTariff :: "'s rand \<Rightarrow> SimConfig \<Rightarrow> int \<Rightarrow> 's \<Rightarrow> string \<times> 's" where
  "pickTariff R cfg hour s =
     (let (peak, s) = (if inPeakWindow hour cfg then let (u, s) = r_Float64 R s in (u < rnd (6 / 10), s) else (False, s))
      in if peak then (''peak-rate-v2'', s)
         else let (k, s) = r_Intn R 4 s
              in (if k = 0 then ''off-peak-v1'' else if k = 1 then ''fleet-v1'' else ''standard-v1'', s))"

fun trunc_loop :: "nat \<Rightarrow> 's rand \<Rightarrow> float64 \<Rightarrow> float64 \<Rightarrow> float64 \<Rightarrow> float64 \<Rightarrow> 's \<Rightarrow> float64 \<times> 's" where
  "trunc_loop 0 R mean std lo hi s = (math_Max lo (math_Min hi mean), s)"
| "trunc_loop (Suc i) R mean std lo hi s =
     (let (z, s) = r_NormFloat64 R s; v = z * std + mean
      in if lo \<le> v \<and> v \<le> hi then (v, s) else trunc_loop i R mean std lo hi s)"

definition truncNormal :: "'s rand \<Rightarrow> float64 \<Rightarrow> float64 \<Rightarrow> float64 \<Rightarrow> float64 \<Rightarrow> 's \<Rightarrow> float64 \<times> 's" where
  "truncNormal R mean std lo hi s = trunc_loop 8 R mean std lo hi s"

definition vin_alphabet :: string where
  "vin_alphabet = ''ABCDEFGHJKLMNPRSTUVWXYZ0123456789''"

fun vin_loop :: "nat \<Rightarrow> 's rand \<Rightarrow> 's \<Rightarrow> string \<times> 's" where
  "vin_loop 0 R s = ([], s)"
| "vin_loop (Suc i) R s =
     (let (k, s) = r_Intn R (int (length vin_alphabet)) s; (b, s) = vin_loop i R s
      in (vin_alphabet ! nat k # b, s))"

definition vinLike :: "'s rand \<Rightarrow> 's \<Rightarrow> string \<times> 's" where
  "vinLike R s = vin_loop 17 R s"

definition pickConnectorRating :: "'s rand \<Rightarrow> 's \<Rightarrow> (float64 \<times> string) \<times> 's" where
  "pickConnectorRating R s =
     (let (k, s) = r_Intn R 10 s
      in (if k \<in> {0, 1, 2} then (Fin 22, ''AC'') else if k \<in> {3, 4, 5} then (Fin 50, ''DC'')
          else if k \<in> {6, 7} then (Fin 150, ''DC'') else (Fin 350, ''DC''), s))"

definition meterInterval :: "'s rand \<Rightarrow> SimConfig \<Rightarrow> 's \<Rightarrow> duration \<times> 's" where
  "meterInterval R cfg s =
     (let (lo, hi) = sc_MeterIntervalSec (sm_Simulator cfg);
          hi = (if hi \<le> lo then lo + 1 else hi);
          (k, s) = r_Intn R (hi - lo + 1) s
      in (wrap64 ((lo + k) * second), s))"

subsection \<open>The roster\<close>

text \<open>The zero \<^verbatim>\<open>time.Time\<close> is the first instant of year 1.\<close>

definition zero_time :: instant where
  "zero_time = - 62135596800 * second"

fun build_connectors :: "'s rand \<Rightarrow> nat \<Rightarrow> int \<Rightarrow> 's \<Rightarrow> Connector list \<times> 's" where
  "build_connectors R 0 cid s = ([], s)"
| "build_connectors R (Suc n) cid s =
     (let ((rating, typ), s) = pickConnectorRating R s; (cs, s) = build_connectors R n (cid + 1) s
      in (\<lparr>cn_ID = cid, cn_PowerRating = rating, cn_Type = typ, cn_status = ''Available'', cn_session = None,
           cn_nextMeterAt = zero_time, cn_lastMeterAt = zero_time, cn_idleUntil = zero_time, cn_faultedUntil = zero_time\<rparr> # cs, s))"

definition station_id :: "string \<Rightarrow> nat \<Rightarrow> string" where
  "station_id code k = ''TR-'' @ code @ ''-'' @ pad_nat 4 k"

definition jitter :: "float64 \<Rightarrow> float64 \<Rightarrow> float64" where
  "jitter x u = x + (u - rnd (1 / 2)) * rnd (12 / 100)"

definition build_station :: "'s rand \<Rightarrow> SimConfig \<Rightarrow> string list \<Rightarrow> int \<Rightarrow> int \<Rightarrow> (string \<Rightarrow> nat) \<Rightarrow> 's \<Rightarrow> 's
    \<Rightarrow> Station \<times> (string \<Rightarrow> nat) \<times> 's \<times> 's" where
  "build_station R cfg operators loCon hiCon perCity op s =
     (let (c, s) = pickCity R cfg s;
          perCity = perCity(ct_Code c := Suc (perCity (ct_Code c)));
          sid = station_id (ct_Code c) (perCity (ct_Code c));
          (u, s) = r_Float64 R s; (v, s) = r_Float64 R s;
          (k, s) = r_Intn R (hiCon - loCon + 1) s;
          (o', op) = r_Intn R (int (length operators)) op;
          (cs, s) = build_connectors R (nat (loCon + k)) 1 s
      in (\<lparr>st_ID = sid, st_OperatorID = operators ! nat o', st_City = ct_Name c, st_Country = ''TR'',
           st_Lat = jitter (ct_Lat c) u, st_Lon = jitter (ct_Lon c) v, st_Connectors = cs, st_nextHeartbeatAt = zero_time\<rparr>,
          perCity, op, s))"

fun build_loop :: "nat \<Rightarrow> 's rand \<Rightarrow> SimConfig \<Rightarrow> string list \<Rightarrow> int \<Rightarrow> int \<Rightarrow> (string \<Rightarrow> nat) \<Rightarrow> 's \<Rightarrow> 's \<Rightarrow> Station list \<times> 's" where
  "build_loop 0 R cfg operators loCon hiCon perCity op s = ([], s)"
| "build_loop (Suc n) R cfg operators loCon hiCon perCity op s =
     (let (st, perCity, op, s) = build_station R cfg operators loCon hiCon perCity op s;
          (sts, s) = build_loop n R cfg operators loCon hiCon perCity op s
      in (st # sts, s))"

definition BuildStations :: "'s rand \<Rightarrow> SimConfig \<Rightarrow> 's \<Rightarrow> Station list \<times> 's" where
  "BuildStations R cfg s =
     (let sim = sm_Simulator cfg;
          (loCon, hiCon) = sc_ConnectorsPerStation sim;
          loCon = (if loCon < 1 then 1 else loCon);
          hiCon = (if hiCon < loCon then loCon else hiCon);
          operators = (if sc_Operators sim = [] then [''ChargeSquare''] else sc_Operators sim)
      in build_loop (nat (sc_StationCount sim)) R cfg operators loCon hiCon (\<lambda>_. 0)
           (r_New R (wrap64 (sc_Seed sim + 101))) s)"

subsection \<open>Physics\<close>

definition chargingPower :: "Session \<Rightarrow> float64" where
  "chargingPower s =
     (if ss_Soc s < Fin 80 then ss_TargetPowerKW s
      else let frac = (Fin 100 - ss_Soc s) / Fin 20
           in ss_TargetPowerKW s * (rnd (8 / 100) + rnd (92 / 100) * frac))"

definition nominalVoltage :: "Connector \<Rightarrow> float64" where
  "nominalVoltage c = (if cn_Type c = ''DC'' then Fin 400 else Fin 230)"

definition round1 :: "float64 \<Rightarrow> float64" where
  "round1 f = math_Round (f * Fin 10) / Fin 10"

definition round2 :: "float64 \<Rightarrow> float64" where
  "round2 f = math_Round (f * Fin 100) / Fin 100"

definition round3 :: "float64 \<Rightarrow> float64" where
  "round3 f = math_Round (f * Fin 1000) / Fin 1000"

text \<open>\<^verbatim>\<open>t.Sub(u)\<close> saturates at the 64-bit range; \<^verbatim>\<open>d.Hours()\<close>.\<close>

definition time_Sub :: "instant \<Rightarrow> instant \<Rightarrow> duration" where
  "time_Sub t u = max go_int64_min (min go_int64_max (t - u))"

definition go_quot :: "int \<Rightarrow> int \<Rightarrow> int" where
  "go_quot a b = (if 0 \<le> a then a div b else - (- a div b))"

definition Hours :: "duration \<Rightarrow> float64" where
  "Hours d = (let h = 3600 * second; q = go_quot d h
              in f64_of_int q + f64_of_int (d - q * h) / f64_of_int (3600 * second))"

definition to_duration :: "float64 \<Rightarrow> duration" where
  "to_duration mins = int_of_f64 (mins * f64_of_int (60 * second))"

text \<open>One interval of charging: the energy and the state of charge after it.\<close>

definition charge :: "Session \<Rightarrow> float64 \<Rightarrow> Session" where
  "charge ses added = ses\<lparr>ss_EnergyKWh := ss_EnergyKWh ses + added,
     ss_Soc := math_Min (Fin 100) (ss_Soc ses + (added / ss_BatteryKWh ses) * Fin 100)\<rparr>"

subsection \<open>Events\<close>

definition baseEvent :: "'s rand \<Rightarrow> Station \<Rightarrow> string \<Rightarrow> int \<Rightarrow> instant \<Rightarrow> 's \<Rightarrow> Event \<times> 's" where
  "baseEvent R st eventType connID now s =
     (let (eid, s) = r_NewString R s
      in (zero_Event\<lparr>EventID := eid, EventType := eventType, StationID := st_ID st, ConnectorID := connID,
           Timestamp := format_ms now, OperatorID := st_OperatorID st,
           Location := \<lparr>Lat = st_Lat st, Lon = st_Lon st, City = st_City st, Country = st_Country st\<rparr>\<rparr>, s))"

definition startSession :: "'s rand \<Rightarrow> SimConfig \<Rightarrow> Station \<Rightarrow> Connector \<Rightarrow> instant \<Rightarrow> 's \<Rightarrow> Event \<times> Connector \<times> 's" where
  "startSession R cfg st conn now s =
     (let sm = sc_SessionMinutes (sm_Simulator cfg);
          (v, s) = pickVehicle R s;
          (durMin, s) = truncNormal R (sd_Mean sm) (sd_Stddev sm) (sd_Min sm) (sd_Max sm) s;
          (uid, s) = r_NewString R s;
          (vin, s) = vinLike R s;
          (tariff, s) = pickTariff R cfg (Hour now) s;
          (u, s) = r_Float64 R s;
          ses = \<lparr>ss_ID = ''sess-'' @ take 18 uid, ss_Vehicle = \<lparr>Brand = vm_Brand v, VModel = vm_Model v, EvID = vin\<rparr>,
            ss_BatteryKWh = vm_BatteryKWh v, ss_TariffID = tariff, ss_StartedAt = now, ss_EndsAt = now + to_duration durMin,
            ss_EnergyKWh = 0, ss_Soc = Fin 10 + u * Fin 40, ss_TargetPowerKW = math_Min (cn_PowerRating conn) (vm_MaxAcceptKW v)\<rparr>;
          (d, s) = meterInterval R cfg s;
          conn = conn\<lparr>cn_session := Some ses, cn_status := ''Charging'', cn_lastMeterAt := now, cn_nextMeterAt := now + d\<rparr>;
          (e, s) = baseEvent R st ''SESSION_START'' (cn_ID conn) now s
      in (e\<lparr>SessionID := ss_ID ses, TariffID := ss_TariffID ses, Vehicle := Some (ss_Vehicle ses),
            Meter := Some \<lparr>PowerKW = 0, EnergyKWh = 0, VoltageV = nominalVoltage conn, CurrentA = 0, SocPercent = int_of_f64 (ss_Soc ses)\<rparr>\<rparr>,
          conn, s))"

text \<open>\<^verbatim>\<open>meterTick\<close> and \<^verbatim>\<open>stopSession\<close> are called with a session; without one Go dereferences nil.\<close>

definition meterTick :: "'s rand \<Rightarrow> SimConfig \<Rightarrow> Station \<Rightarrow> Connector \<Rightarrow> instant \<Rightarrow> 's \<Rightarrow> (Event \<times> Connector \<times> 's) option" where
  "meterTick R cfg st conn now s = (case cn_session conn of None \<Rightarrow> None | Some ses \<Rightarrow>
     let dtHours = Hours (time_Sub now (cn_lastMeterAt conn));
         (dtHours, s) = (if dtHours \<le> 0 then let (d, s) = meterInterval R cfg s in (f64_of_int d / f64_of_int (3600 * second), s)
                         else (dtHours, s));
         power = chargingPower ses;
         ses = charge ses (power * dtHours);
         volt = nominalVoltage conn;
         cur = (if 0 < volt then power * Fin 1000 / volt else 0);
         (d, s) = meterInterval R cfg s;
         conn = conn\<lparr>cn_session := Some ses, cn_lastMeterAt := now, cn_nextMeterAt := now + d\<rparr>;
         (e, s) = baseEvent R st ''METER_UPDATE'' (cn_ID conn) now s
     in Some (e\<lparr>SessionID := ss_ID ses, TariffID := ss_TariffID ses,
           Meter := Some \<lparr>PowerKW = round1 power, EnergyKWh = round3 (ss_EnergyKWh ses), VoltageV = volt, CurrentA = round1 cur,
             SocPercent = int_of_f64 (ss_Soc ses)\<rparr>\<rparr>, conn, s))"

definition effectiveStopAt :: "Session \<Rightarrow> instant \<Rightarrow> instant" where
  "effectiveStopAt ses now = (if ss_Soc ses < Fin 100 \<and> ss_EndsAt ses < now then ss_EndsAt ses else now)"

definition stopSession :: "'s rand \<Rightarrow> SimConfig \<Rightarrow> Station \<Rightarrow> Connector \<Rightarrow> instant \<Rightarrow> 's \<Rightarrow> (Event \<times> Connector \<times> 's) option" where
  "stopSession R cfg st conn now s = (case cn_session conn of None \<Rightarrow> None | Some ses \<Rightarrow>
     let (ses, lastMeterAt) =
           (if ss_Soc ses < Fin 100 \<and> cn_lastMeterAt conn < now
            then (charge ses (chargingPower ses * Hours (time_Sub now (cn_lastMeterAt conn))), now)
            else (ses, cn_lastMeterAt conn));
         t = tariffByID (ss_TariffID ses);
         (rate, peakPriced) = (if inPeakWindow (Hour now) cfg then (tf_Base t * tf_PeakMult t, Fin 1 < tf_PeakMult t) else (tf_Base t, False));
         cost = ss_EnergyKWh ses * rate;
         (e, s) = baseEvent R st ''SESSION_STOP'' (cn_ID conn) now s
     in Some (e\<lparr>SessionID := ss_ID ses, TariffID := ss_TariffID ses, CostEur := round2 cost, IsPeakPriced := peakPriced,
           Meter := Some \<lparr>PowerKW = 0, EnergyKWh = round3 (ss_EnergyKWh ses), VoltageV = nominalVoltage conn, CurrentA = 0,
             SocPercent = int_of_f64 (ss_Soc ses)\<rparr>\<rparr>,
         conn\<lparr>cn_session := None, cn_status := ''Available'', cn_lastMeterAt := lastMeterAt\<rparr>, s))"

definition heartbeat :: "'s rand \<Rightarrow> Station \<Rightarrow> instant \<Rightarrow> 's \<Rightarrow> Event \<times> 's" where
  "heartbeat R st now s =
     (let (eid, s) = r_NewString R s
      in (zero_Event\<lparr>EventID := eid, EventType := ''HEARTBEAT'', StationID := st_ID st, ConnectorID := 0,
           Timestamp := format_ms now, OperatorID := st_OperatorID st,
           Location := \<lparr>Lat = st_Lat st, Lon = st_Lon st, City = st_City st, Country = st_Country st\<rparr>\<rparr>, s))"

definition statusChange :: "'s rand \<Rightarrow> Station \<Rightarrow> Connector \<Rightarrow> instant \<Rightarrow> string \<Rightarrow> 's \<Rightarrow> Event \<times> 's" where
  "statusChange R st conn now status s =
     (let (e, s) = baseEvent R st ''STATUS_CHANGE'' (cn_ID conn) now s;
          e = e\<lparr>Status := status\<rparr>
      in (case cn_session conn of Some ses \<Rightarrow> e\<lparr>SessionID := ss_ID ses\<rparr> | None \<Rightarrow> e, s))"

definition faultAlert :: "'s rand \<Rightarrow> Station \<Rightarrow> Connector \<Rightarrow> instant \<Rightarrow> 's \<Rightarrow> Event \<times> 's" where
  "faultAlert R st conn now s =
     (let (k, s) = r_Intn R (int (length faultCodes)) s; f = faultCodes ! nat k;
          (e, s) = baseEvent R st ''FAULT_ALERT'' (cn_ID conn) now s
      in (e\<lparr>Fault := Some \<lparr>ErrorCode = fst f, Component = snd f\<rparr>\<rparr>, s))"

end
