(* ===== verification/SimEvents.thy ===== *)
theory SimEvents
  imports SimModel Validate JsonWrite
begin

text \<open>
  What the events of the simulator promise to the processor. The locale \<open>rand_source\<close> states the
  documented ranges of the random parameter; every operation of \<^verbatim>\<open>model.go\<close> keeps the invariant
  of sessions, connectors and stations and builds events that survive the wire format and that the
  processor's \<^verbatim>\<open>Validate\<close> accepts against a registry that holds the stations.
\<close>

subsection \<open>The random parameter\<close>

definition uuid_shape :: "string \<Rightarrow> bool" where
  "uuid_shape u \<longleftrightarrow> length u = 36 \<and>
     list_all (\<lambda>j. if j \<in> {8, 13, 18, 23} then u ! j = CHR ''-'' else u ! j \<in> set ''0123456789abcdef'') [0..<36]"

locale rand_source =
  fixes R :: "'s rand"
  assumes Float64_range: "\<exists>u. fst (r_Float64 R s) = Fin u \<and> 0 \<le> u \<and> u < 1"
    and Intn_range: "0 < n \<Longrightarrow> 0 \<le> fst (r_Intn R n s) \<and> fst (r_Intn R n s) < n"
    and NewString_shape: "uuid_shape (fst (r_NewString R s))"
    and Log_range: "0 < u \<Longrightarrow> u < 1 \<Longrightarrow> in_range (- 1000) (r_Log R (Fin u)) 0"

text \<open>A concrete source, for the witnesses: a counter that feeds every draw.\<close>

definition tape_rand :: "int rand" where
  "tape_rand = \<lparr>r_New = (\<lambda>seed. \<bar>seed\<bar>), r_Float64 = (\<lambda>s. (Fin (of_int (s mod 8) / 8), s + 1)), r_Intn = (\<lambda>n s. (s mod n, s + 1)),
     r_NormFloat64 = (\<lambda>s. (Fin (of_int (s mod 3) - 1), s + 1)), r_NewString = (\<lambda>s. (demo_uuid, s + 1)),
     r_Log = (\<lambda>x. Fin (- 1))\<rparr>"

lemma demo_uuid_shape: "uuid_shape demo_uuid"
  by code_simp

interpretation tape: rand_source tape_rand
proof
  show "\<exists>u. fst (r_Float64 tape_rand s) = Fin u \<and> 0 \<le> u \<and> u < 1" for s
  proof -
    have "0 \<le> s mod 8" "s mod 8 < 8" by simp_all
    then have "(0::rat) \<le> of_int (s mod 8)" "of_int (s mod 8) < (8::rat)" by linarith+
    then show ?thesis by (intro exI [of _ "of_int (s mod 8) / 8"]) (simp add: tape_rand_def)
  qed
qed (simp_all add: tape_rand_def demo_uuid_shape in_range_def)

lemma hex_digits: "list_all isHexDigit ''0123456789abcdef''"
  by code_simp

lemma uuid_valid:
  assumes "uuid_shape u"
  shows "isValidEventID u"
proof -
  have "uuid_char j (u ! j)" if "j < 36" for j
  proof -
    have "j \<in> set [0..<36]" using that by (simp only: set_upt) simp
    then have "if j \<in> {8, 13, 18, 23} then u ! j = CHR ''-'' else u ! j \<in> set ''0123456789abcdef''"
      using assms unfolding uuid_shape_def list_all_iff by blast
    then show ?thesis using hex_digits unfolding uuid_char_def list_all_iff by metis
  qed
  then show ?thesis using assms by (simp add: isValidEventID_iff uuid_shape_def)
qed

subsection \<open>Timestamps\<close>

text \<open>Instants whose year has four digits; the session clock stays inside them until the end of 9999.\<close>

definition in_time :: "instant \<Rightarrow> bool" where
  "in_time t \<longleftrightarrow> go_int64_min \<le> t \<and> t < 253402300800 * second"

lemma year_start_low: "y \<le> - 1 \<Longrightarrow> year_start y \<le> - 365"
  unfolding year_start_def by linarith

lemma year_start_high: "9999 < y \<Longrightarrow> 3652425 \<le> year_start y"
proof -
  assume y: "9999 < y"
  then have "2500 \<le> y div 4" "y div 100 \<le> y - 9900" "25 \<le> y div 400" by linarith+
  then show ?thesis using y unfolding year_start_def by linarith
qed

lemma civil_year:
  assumes "- 106752 \<le> n" "n \<le> 2932896" "civil_from_days n = (y, m, d)"
  shows "0 \<le> y \<and> y \<le> 9999"
proof (rule civil_parts [of n])
  fix era c q y1 doy mp :: int
  let ?Y = "400 * era + 100 * c + 4 * q + y1"
  assume b: "0 \<le> doy" "doy \<le> 365" and mp: "mp = (5 * doy + 2) div 153"
    and n: "n + 719468 = year_start ?Y + doy"
    and civ: "civil_from_days n = (let m = (if mp < 10 then mp + 3 else mp - 9); y = ?Y
       in (if m \<le> 2 then y + 1 else y, m, doy - month_start mp + 1))"
  have "0 \<le> ?Y" using year_start_low [of ?Y] n b assms by (rule_tac ccontr) linarith
  moreover have "?Y \<le> 9999" using year_start_high [of ?Y] n b assms by (rule_tac ccontr) linarith
  moreover have "?Y = 9999 \<Longrightarrow> mp < 10"
  proof -
    assume "?Y = 9999"
    then have "doy \<le> 305" using n assms(2) by (simp add: year_start_def)
    then show "mp < 10" by (simp add: mp)
  qed
  ultimately have "?Y \<le> 9998 \<or> mp < 10" "0 \<le> ?Y" "?Y \<le> 9999" by linarith+
  moreover have "0 \<le> mp" using b by (simp add: mp)
  ultimately show ?thesis using civ assms(3) by (auto simp: Let_def simp del: One_nat_def split: if_splits)
qed

lemma parse_format: "in_time t \<Longrightarrow> time_Parse (format_ms t) = Some (t - t mod millisecond)"
proof -
  assume t: "in_time t"
  obtain y m d where c: "civil_from_days (unix_day t) = (y, m, d)" by (cases "civil_from_days (unix_day t)")
  have t1: "- 9223372036854775808 \<le> t" "t < 253402300800000000000"
    using t by (simp_all add: in_time_def go_int64_min_def)
  have "- 9223372037 \<le> unix_sec t" "unix_sec t \<le> 253402300799"
    using t1 unfolding unix_sec_def by linarith+
  then have "- 106752 \<le> unix_day t" "unix_day t \<le> 2932896" by (simp_all add: unix_day_def)
  from civil_year [OF this c] show ?thesis by (auto intro: time_Parse_format_ms [OF c])
qed

subsection \<open>Invariants\<close>

definition tariff_ids :: "string list" where
  "tariff_ids = map tf_ID tariffCatalog"

text \<open>Strings of a session and a station are valid UTF-8, coordinates are binary64 values.\<close>

definition session_wire :: "Session \<Rightarrow> bool" where
  "session_wire ses \<longleftrightarrow> valid_utf8 (ss_ID ses) \<and> vehicle_wire (ss_Vehicle ses)"

definition station_wire :: "Station \<Rightarrow> bool" where
  "station_wire st \<longleftrightarrow> valid_utf8 (st_ID st) \<and> valid_utf8 (st_OperatorID st)
     \<and> location_wire \<lparr>Lat = st_Lat st, Lon = st_Lon st, City = st_City st, Country = st_Country st\<rparr>
     \<and> int (length (st_Connectors st)) \<le> go_int64_max"

definition session_ok :: "Session \<Rightarrow> bool" where
  "session_ok ses \<longleftrightarrow> ss_ID ses \<noteq> [] \<and> Brand (ss_Vehicle ses) \<noteq> [] \<and> in_range 60 (ss_BatteryKWh ses) 88
     \<and> ss_TariffID ses \<in> set tariff_ids \<and> accumulates (ss_EnergyKWh ses) \<and> in_range 0 (ss_Soc ses) 100
     \<and> in_range 22 (ss_TargetPowerKW ses) 350 \<and> go_int64_min \<le> ss_EndsAt ses \<and> session_wire ses"

definition conn_ok :: "int \<Rightarrow> Connector \<Rightarrow> bool" where
  "conn_ok n c \<longleftrightarrow> 1 \<le> cn_ID c \<and> cn_ID c \<le> n \<and> in_range 22 (cn_PowerRating c) 350
     \<and> (case cn_session c of None \<Rightarrow> cn_status c = ''Available'' \<or> cn_status c = ''Faulted''
        | Some ses \<Rightarrow> cn_status c = ''Charging'' \<and> session_ok ses)"

definition station_ok :: "Station \<Rightarrow> bool" where
  "station_ok st \<longleftrightarrow> st_OperatorID st \<noteq> [] \<and> st_City st \<noteq> [] \<and> st_Country st \<noteq> []
     \<and> in_range (- 90) (st_Lat st) 90 \<and> in_range (- 180) (st_Lon st) 180
     \<and> list_all (conn_ok (int (length (st_Connectors st)))) (st_Connectors st) \<and> station_wire st"

text \<open>The registry holds the station, as its row was seeded, and the tariff catalog.\<close>

definition station_row :: "Station \<Rightarrow> stationMeta" where
  "station_row st = \<lparr>numConnectors = int (length (st_Connectors st)), operatorID = st_OperatorID st, city = st_City st,
     country = st_Country st, lat = st_Lat st, lon = st_Lon st\<rparr>"

definition registry_has :: "Registry \<Rightarrow> Station \<Rightarrow> bool" where
  "registry_has reg st \<longleftrightarrow> StationMeta reg (st_ID st) = Some (station_row st) \<and> list_all (TariffKnown reg) tariff_ids"

subsection \<open>Acceptance\<close>

text \<open>The fields every event takes from its station.\<close>

definition from_station :: "Station \<Rightarrow> instant \<Rightarrow> Event \<Rightarrow> bool" where
  "from_station st now e \<longleftrightarrow> isValidEventID (EventID e) \<and> StationID e = st_ID st \<and> Timestamp e = format_ms now
     \<and> OperatorID e = st_OperatorID st
     \<and> Location e = \<lparr>Lat = st_Lat st, Lon = st_Lon st, City = st_City st, Country = st_Country st\<rparr>"

lemma abs_diff_self: "in_range a x b \<Longrightarrow> abs (x - x) = Fin 0"
  by (auto simp: in_range_iff rnd_def)

lemma epsilon_geo_pos: "\<exists>q. epsilon_geo = Fin q \<and> 0 \<le> q"
  using in_range_rnd [of 0 "1 / 10000" 1] by (auto simp: epsilon_geo_def in_range_iff)

lemma Validate_accepts:
  assumes st: "station_ok st" "registry_has reg st" "registry_has reg' st" and now: "in_time now"
    and e: "from_station st now e" "validEventTypes (EventType e)"
    and conn: "if EventType e = ''HEARTBEAT'' then ConnectorID e = 0
      else 1 \<le> ConnectorID e \<and> ConnectorID e \<le> int (length (st_Connectors st))"
    and tariff: "TariffID e = [] \<or> TariffID e \<in> set tariff_ids"
    and ty: "list_all (\<lambda>rb. \<not> snd rb) (type_rules e)" and me: "list_all (\<lambda>rb. \<not> snd rb) (meter_rules e)"
  shows "Validate e reg reg' = Inr (now - now mod millisecond)"
proof -
  obtain eps where eps: "epsilon_geo = Fin eps" "0 \<le> eps" using epsilon_geo_pos by blast
  have geo: "\<not> epsilon_geo < abs (st_Lat st - st_Lat st)" "\<not> epsilon_geo < abs (st_Lon st - st_Lon st)"
    using st(1) abs_diff_self [of "- 90" "st_Lat st" 90] abs_diff_self [of "- 180" "st_Lon st" 180] eps(2)
    by (simp_all add: station_ok_def eps(1))
  have rng: "\<not> st_Lat st < Fin (- 90)" "\<not> Fin 90 < st_Lat st" "\<not> st_Lon st < Fin (- 180)" "\<not> Fin 180 < st_Lon st"
    using st(1) by (auto simp: station_ok_def in_range_iff)
  have id: "EventID e \<noteq> []" using e(1) by (auto simp: from_station_def isValidEventID_iff)
  have t: "TariffID e \<noteq> [] \<Longrightarrow> TariffKnown reg' (TariffID e)"
    using tariff st(3) by (auto simp: registry_has_def list_all_iff)
  have p: "time_Parse (Timestamp e) = Some (now - now mod millisecond)"
    using e(1) parse_format [OF now] by (simp add: from_station_def)
  have "list_all (\<lambda>rb. \<not> snd rb) (rule_table e reg reg')"
    using st e conn t id geo rng ty me p
    by (auto simp: rule_table_def Let_def registry_has_def from_station_def station_row_def station_ok_def split: if_splits)
  then show ?thesis using p by (simp add: Validate_Inr_iff first_violation_None_iff)
qed

text \<open>Every event of a station survives the wire format.\<close>

lemma tariff_ascii: "tid \<in> set tariff_ids \<Longrightarrow> valid_utf8 tid"
  by (auto simp: tariff_ids_def tariffCatalog_def)

lemma event_wire:
  assumes st: "station_wire st" "from_station st now e" and ty: "validEventTypes (EventType e)"
    and conn: "0 \<le> ConnectorID e" "ConnectorID e \<le> int (length (st_Connectors st))"
    and tariff: "TariffID e = [] \<or> TariffID e \<in> set tariff_ids"
    and strings: "valid_utf8 (SessionID e)" "valid_utf8 (Status e)" and "is_f64 (CostEur e)"
    and "pred_option meter_wire (Meter e)" "pred_option vehicle_wire (Vehicle e)" "pred_option fault_wire (Fault e)"
  shows "wire_ok e"
proof -
  have "ascii (EventType e)" using ty by (auto simp: validEventTypes_def)
  moreover have "valid_utf8 (EventID e)" "valid_utf8 (Timestamp e)" using st(2) event_id_ascii by (auto simp: from_station_def)
  moreover have "valid_utf8 (TariffID e)" using tariff tariff_ascii by auto
  moreover have "int64 (ConnectorID e)" using conn st(1) by (simp add: int64_def station_wire_def go_int64_min_def)
  ultimately show ?thesis using assms by (simp add: wire_ok_def station_wire_def from_station_def)
qed

subsection \<open>The random choices\<close>

lemma pick_loop_in: "d \<in> A \<Longrightarrow> fst ` set cs \<subseteq> A \<Longrightarrow> pick_loop n cs d \<in> A"
  by (induction n cs d rule: pick_loop.induct) (auto simp: Let_def)

lemma fleet_ok:
  "v \<in> fst ` set vehicleFleet \<Longrightarrow> vm_Brand v \<noteq> [] \<and> ascii (vm_Brand v) \<and> ascii (vm_Model v) \<and> in_range 60 (vm_BatteryKWh v) 88 \<and> in_range 100 (vm_MaxAcceptKW v) 250"
  by (auto simp: vehicleFleet_def in_range_def)

lemma pickVehicle_ok:
  "vm_Brand (fst (pickVehicle R s)) \<noteq> [] \<and> ascii (vm_Brand (fst (pickVehicle R s))) \<and> ascii (vm_Model (fst (pickVehicle R s))) \<and> in_range 60 (vm_BatteryKWh (fst (pickVehicle R s))) 88
     \<and> in_range 100 (vm_MaxAcceptKW (fst (pickVehicle R s))) 250"
proof -
  have "fst (vehicleFleet ! 0) \<in> fst ` set vehicleFleet" by (simp add: vehicleFleet_def)
  then have "fst (pickVehicle R s) \<in> fst ` set vehicleFleet"
    by (simp add: pickVehicle_def case_prod_beta Let_def pick_loop_in)
  then show ?thesis by (rule fleet_ok)
qed

lemma pickTariff_ok: "fst (pickTariff R cfg hour s) \<in> set tariff_ids"
  by (simp add: pickTariff_def case_prod_beta Let_def tariff_ids_def tariffCatalog_def)

lemma pickCity_in: "sm_Cities cfg \<noteq> [] \<Longrightarrow> fst (pickCity R cfg s) \<in> set (sm_Cities cfg)"
  by (auto simp: pickCity_def case_prod_beta Let_def intro!: pick_loop_in)

lemma pickConnectorRating_ok: "in_range 22 (fst (fst (pickConnectorRating R s))) 350"
  by (simp add: pickConnectorRating_def case_prod_beta Let_def in_range_def)

lemma in_range_lit [simp]: "in_range lo (Fin q) hi \<longleftrightarrow> lo \<le> q \<and> q \<le> hi"
  by (simp add: in_range_def)

lemma tariff_rates:
  assumes "tid \<in> set tariff_ids"
  shows "in_range (1 / 4) (tf_Base (tariffByID tid)) 1 \<and> in_range (1 / 2) (tf_PeakMult (tariffByID tid)) 2"
proof -
  have "tid = ''standard-v1'' \<or> tid = ''peak-rate-v2'' \<or> tid = ''off-peak-v1'' \<or> tid = ''fleet-v1''"
    using assms by (simp add: tariff_ids_def tariffCatalog_def)
  then show ?thesis
    by (elim disjE) (simp_all add: tariffByID_def indexTariffs_def tariffCatalog_def in_range_rnd in_range_lit)
qed

subsection \<open>Charging\<close>

lemma chargingPower_range:
  assumes "session_ok ses"
  shows "in_range 0 (chargingPower ses) 700"
proof (cases "ss_Soc ses < Fin 80")
  case True
  then show ?thesis using assms by (auto simp: chargingPower_def session_ok_def intro: in_range_mono)
next
  case False
  have lits: "in_range 0 (rnd (8 / 100)) 1" "in_range 0 (rnd (92 / 100)) 1" by (simp_all add: in_range_rnd)
  have soc: "in_range 80 (ss_Soc ses) 100" using assms False by (auto simp: session_ok_def in_range_iff)
  have "in_range 0 (Fin 100 - ss_Soc ses) 20"
    by (rule in_range_diff [OF _ soc, of 100 "Fin 100" 100]) (simp_all add: in_range_def)
  then have "in_range 0 ((Fin 100 - ss_Soc ses) / Fin 20) 1"
    by (rule in_range_divide [where c = 20 and d = 20]) (simp_all add: in_range_def)
  from in_range_mult [OF lits(2) this] have "in_range 0 (rnd (92 / 100) * ((Fin 100 - ss_Soc ses) / Fin 20)) 1" by simp
  from in_range_add [OF lits(1) this] have "in_range 0 (rnd (8 / 100) + rnd (92 / 100) * ((Fin 100 - ss_Soc ses) / Fin 20)) 2" by simp
  from in_range_mult [OF _ this, of 22 "ss_TargetPowerKW ses" 350 0 700]
  have "in_range 0 (ss_TargetPowerKW ses * (rnd (8 / 100) + rnd (92 / 100) * ((Fin 100 - ss_Soc ses) / Fin 20))) 700"
    using assms by (simp add: session_ok_def)
  then show ?thesis using False by (simp add: chargingPower_def Let_def)
qed

lemma Hours_pos:
  assumes "0 < d" "d \<le> go_int64_max"
  shows "in_range 0 (Hours d) 2562048"
proof -
  have d: "go_quot d (3600 * second) = d div (3600 * second)" using assms by (simp add: go_quot_def)
  have q: "0 \<le> d div (3600 * second)" "d div (3600 * second) \<le> 2562047"
    using assms by (simp_all add: pos_imp_zdiv_nonneg_iff go_int64_max_def)
  have r: "d - d div (3600 * second) * (3600 * second) = d mod (3600 * second)" by (simp add: minus_div_mult_eq_mod)
  have m: "0 \<le> d mod (3600 * second)" "d mod (3600 * second) < 3600 * second" by simp_all
  have "in_range 0 (f64_of_int (d mod (3600 * second))) 3600000000000"
    unfolding f64_of_int_def using m by (intro in_range_rnd) simp_all
  moreover have "f64_of_int (3600 * second) = Fin 3600000000000"
    using f64_of_int_exact [of "3600 * second"] by simp
  ultimately have "in_range 0 (f64_of_int (d mod (3600 * second)) / f64_of_int (3600 * second)) 1"
    by (intro in_range_divide [of 0 _ 3600000000000 3600000000000 _ 3600000000000]) simp_all
  moreover have "in_range 0 (f64_of_int (d div (3600 * second))) 2562047"
    unfolding f64_of_int_def using q by (intro in_range_rnd) simp_all
  ultimately show ?thesis
    unfolding Hours_def Let_def d r by (intro in_range_add [where a = 0 and b = 2562047 and c = 0 and d = 1]) simp_all
qed

lemma f64_hour: "f64_of_int (3600 * second) = Fin 3600000000000"
  using f64_of_int_exact [of "3600 * second"] by simp

lemma interval_hours: "0 < d \<Longrightarrow> d \<le> 9000001 * second \<Longrightarrow> in_range 0 (f64_of_int d / f64_of_int (3600 * second)) 2562048"
proof -
  assume d: "0 < d" "d \<le> 9000001 * second"
  have "in_range 0 (f64_of_int d) 9000001000000000"
    unfolding f64_of_int_def using d by (intro in_range_rnd) simp_all
  then show ?thesis
    unfolding f64_hour by (rule in_range_divide [where c = 3600000000000 and d = 3600000000000]) simp_all
qed

lemma Hours_nonpos:
  assumes "d \<le> 0" "go_int64_min \<le> d"
  shows "Hours d \<le> 0"
proof -
  let ?h = "3600 * second"
  define q where "q = go_quot d ?h"
  define k where "k = (- d) div ?h"
  have q: "q = - k" using assms by (auto simp: q_def k_def go_quot_def)
  have k: "0 \<le> k" "k \<le> 2562047" using assms by (simp_all add: k_def pos_imp_zdiv_nonneg_iff go_int64_min_def)
  have "- d = ?h * k + (- d) mod ?h" by (simp add: k_def)
  then have r: "- (3600 * second) < d - q * ?h" "d - q * ?h \<le> 0"
    using pos_mod_bound [of ?h "- d"] pos_mod_sign [of ?h "- d"] q by simp_all
  have "in_range (- 2562047) (f64_of_int q) 0"
    unfolding f64_of_int_def using k q by (intro in_range_rnd) simp_all
  moreover have "in_range (- 3600000000000) (f64_of_int (d - q * ?h)) 0"
    unfolding f64_of_int_def using r by (intro in_range_rnd) simp_all
  then obtain b where "f64_of_int (d - q * ?h) = Fin b" "- 3600000000000 \<le> b" "b \<le> 0" by (auto simp: in_range_iff)
  then have "in_range (- 1) (f64_of_int (d - q * ?h) / f64_of_int ?h) 0"
    unfolding f64_hour by (auto intro!: in_range_rnd)
  ultimately have "in_range (- 2562048) (Hours d) 0"
    unfolding Hours_def Let_def q_def [symmetric] by (rule in_range_add) simp_all
  then show ?thesis by (auto simp: in_range_iff zero_f64)
qed

lemma charge_ok:
  assumes "session_ok ses" "in_range 0 added 4000000000"
  shows "session_ok (charge ses added)"
proof -
  have b: "in_range 60 (ss_BatteryKWh ses) 88" and soc: "in_range 0 (ss_Soc ses) 100" using assms(1) by (simp_all add: session_ok_def)
  have "in_range 0 (added / ss_BatteryKWh ses) 100000000"
    by (rule in_range_divide [OF assms(2) b]) simp_all
  then have "in_range 0 ((added / ss_BatteryKWh ses) * Fin 100) 10000000000"
    by (rule in_range_mult [of 0 _ 100000000 100 _ 100]) simp_all
  from in_range_add [OF soc this, of 0 20000000000]
  have "in_range 0 (ss_Soc ses + (added / ss_BatteryKWh ses) * Fin 100) 20000000000" by simp
  then have "in_range 0 (math_Min (Fin 100) (ss_Soc ses + (added / ss_BatteryKWh ses) * Fin 100)) 100"
    using math_Min_range [of 100 "Fin 100" 100] by fastforce
  moreover have "accumulates (ss_EnergyKWh ses + added)"
    using assms accumulates_add accumulates_range by (auto simp: session_ok_def)
  ultimately show ?thesis using assms(1) by (simp add: session_ok_def session_wire_def charge_def)
qed

lemma power_energy: "session_ok ses \<Longrightarrow> in_range 0 h 2562048 \<Longrightarrow> in_range 0 (chargingPower ses * h) 4000000000"
  using in_range_mult [OF chargingPower_range, of ses 0 h 2562048 0 4000000000] by simp

lemma Soc_percent: "session_ok ses \<Longrightarrow> 0 \<le> int_of_f64 (ss_Soc ses) \<and> int_of_f64 (ss_Soc ses) \<le> 100"
  using int_of_range [of 0 "ss_Soc ses" 100] by (simp add: session_ok_def go_int64_max_def)

lemma round3_accumulates: "accumulates x \<Longrightarrow> accumulates (round3 x)"
  unfolding round3_def
  by (rule accumulates_divide [of _ 1000 _ 1000], rule accumulates_Round, rule accumulates_mult [of _ 1000 _ 1000]) simp_all

lemma round2_accumulates: "accumulates x \<Longrightarrow> accumulates (round2 x)"
  unfolding round2_def
  by (rule accumulates_divide [of _ 100 _ 100], rule accumulates_Round, rule accumulates_mult [of _ 100 _ 100]) simp_all

lemma round1_range:
  assumes "in_range 0 x (of_int n)" "0 \<le> n" "10 * n \<le> 2 ^ 53"
  shows "in_range 0 (round1 x) (of_int n)"
proof -
  have a: "anchor (of_int (10 * n))" "anchor (of_int n)" by (rule anchor_int, use assms(2,3) in simp)+
  have "in_range 0 (x * Fin 10) (of_int (10 * n))"
    using a by (intro in_range_mult [OF assms(1), of 10 _ 10]) simp_all
  then have "in_range 0 (math_Round (x * Fin 10)) (of_int (10 * n))" using in_range_Round [of 0 _ "10 * n"] by simp
  then show ?thesis
    unfolding round1_def using a by (intro in_range_divide [where c = 10 and d = 10 and b = "of_int (10 * n)" and a = 0]) simp_all
qed

lemma int_of_f64_min: "go_int64_min \<le> int_of_f64 x"
  by (cases x) (simp_all add: Let_def)

lemma nominalVoltage_range: "in_range 230 (nominalVoltage c) 400"
  by (simp add: nominalVoltage_def)

lemma is_f64_rounded [simp]: "is_f64 (round1 x)" "is_f64 (round2 x)" "is_f64 (round3 x)" "is_f64 (nominalVoltage c)"
  by (simp_all add: round1_def round2_def round3_def nominalVoltage_def)

lemma session_meter_wire:
  assumes "session_ok ses" "is_f64 p" "is_f64 en" "is_f64 cur"
  shows "meter_wire \<lparr>PowerKW = p, EnergyKWh = en, VoltageV = nominalVoltage c, CurrentA = cur, SocPercent = int_of_f64 (ss_Soc ses)\<rparr>"
  using assms Soc_percent [OF assms(1)] by (simp add: meter_wire_def int64_def go_int64_min_def go_int64_max_def)

lemma session_okD: "session_ok ses \<Longrightarrow> valid_utf8 (ss_ID ses) \<and> vehicle_wire (ss_Vehicle ses)"
  by (simp add: session_ok_def session_wire_def)

lemma time_Sub_range: "u < t \<Longrightarrow> 0 < time_Sub t u \<and> time_Sub t u \<le> go_int64_max"
  by (auto simp: time_Sub_def go_int64_min_def go_int64_max_def)

subsection \<open>The operations build acceptable events and keep the invariant\<close>

definition accepted :: "Registry \<Rightarrow> Registry \<Rightarrow> Event \<Rightarrow> bool" where
  "accepted reg reg' e \<longleftrightarrow> (\<exists>ts. Validate e reg reg' = Inr ts) \<and> wire_ok e"

definition seeded :: "Registry \<Rightarrow> Registry \<Rightarrow> Station \<Rightarrow> bool" where
  "seeded reg reg' st \<longleftrightarrow> station_ok st \<and> registry_has reg st \<and> registry_has reg' st"

text \<open>What the loops rely on beyond the checks of \<^verbatim>\<open>LoadConfig\<close>: a meter interval of at most 104 days.\<close>

definition cadence_ok :: "SimConfig \<Rightarrow> bool" where
  "cadence_ok cfg \<longleftrightarrow> 1 \<le> fst (sc_MeterIntervalSec (sm_Simulator cfg)) \<and> fst (sc_MeterIntervalSec (sm_Simulator cfg)) \<le> 9000000
     \<and> snd (sc_MeterIntervalSec (sm_Simulator cfg)) \<le> 9000000"

lemma session_event_rules:
  assumes "EventType e \<in> {''SESSION_START'', ''METER_UPDATE'', ''SESSION_STOP''}" "SessionID e \<noteq> []" "TariffID e \<noteq> []"
    "EventType e = ''SESSION_START'' \<Longrightarrow> \<exists>v. Vehicle e = Some v \<and> Brand v \<noteq> []" "accumulates (CostEur e)"
    and m: "Meter e = Some m" "0 \<le> SocPercent m" "SocPercent m \<le> 100" "in_range 0 (PowerKW m) 1000"
    "accumulates (EnergyKWh m)" "accumulates (VoltageV m)" "accumulates (CurrentA m)"
  shows "list_all (\<lambda>rb. \<not> snd rb) (type_rules e)" "list_all (\<lambda>rb. \<not> snd rb) (meter_rules e)"
proof -
  show "list_all (\<lambda>rb. \<not> snd rb) (type_rules e)"
    using assms(1-5) m(1) accumulates_not_neg by (auto simp: type_rules_def Let_def)
  have "\<not> PowerKW m < 0" "\<not> Fin 1000 < PowerKW m" using m(4) by (auto simp: in_range_iff zero_f64)
  then show "list_all (\<lambda>rb. \<not> snd rb) (meter_rules e)"
    using m accumulates_not_neg by (simp add: meter_rules_def)
qed

lemma session_event_accepted:
  assumes "seeded reg reg' st" "in_time now" "Meter e = Some m" "from_station st now e"
    and "EventType e \<in> {''SESSION_START'', ''METER_UPDATE'', ''SESSION_STOP''}"
    and "1 \<le> ConnectorID e" "ConnectorID e \<le> int (length (st_Connectors st))"
    and "SessionID e \<noteq> []" "TariffID e \<in> set tariff_ids"
    and "EventType e = ''SESSION_START'' \<Longrightarrow> \<exists>v. Vehicle e = Some v \<and> Brand v \<noteq> []" "accumulates (CostEur e)"
    and "0 \<le> SocPercent m" "SocPercent m \<le> 100" "in_range 0 (PowerKW m) 1000"
    "accumulates (EnergyKWh m)" "accumulates (VoltageV m)" "accumulates (CurrentA m)"
    and wire: "valid_utf8 (SessionID e)" "is_f64 (CostEur e)" "meter_wire m" "pred_option vehicle_wire (Vehicle e)" "Fault e = None" "Status e = []"
  shows "accepted reg reg' e"
proof -
  have t: "TariffID e \<noteq> []" using assms(9) by (auto simp: tariff_ids_def tariffCatalog_def)
  have ty: "validEventTypes (EventType e)" "EventType e \<noteq> ''HEARTBEAT''"
    using assms(5) by (auto simp: validEventTypes_def)
  note rules = session_event_rules [OF assms(5,8) t assms(10,11,3) assms(12-17)]
  have "Validate e reg reg' = Inr (now - now mod millisecond)"
    by (rule Validate_accepts [where st = st]) (use assms ty rules in \<open>simp_all add: seeded_def\<close>)
  moreover have "wire_ok e"
    by (rule event_wire [where st = st]) (use assms ty in \<open>simp_all add: seeded_def station_ok_def\<close>)
  ultimately show ?thesis by (auto simp: accepted_def)
qed

context rand_source
begin

lemma baseEvent_fields:
  assumes "baseEvent R st ty cid now s = (e, s')"
  shows "from_station st now e" "EventType e = ty" "ConnectorID e = cid" "SessionID e = []" "TariffID e = []" "Meter e = None"
    "Vehicle e = None" "CostEur e = 0" "Fault e = None" "Status e = []"
proof -
  have "isValidEventID (fst (r_NewString R s))" by (rule uuid_valid [OF NewString_shape])
  then show "from_station st now e" "EventType e = ty" "ConnectorID e = cid" "SessionID e = []" "TariffID e = []" "Meter e = None"
    "Vehicle e = None" "CostEur e = 0" "Fault e = None" "Status e = []"
    using assms by (auto simp: baseEvent_def case_prod_beta Let_def from_station_def zero_Event_def)
qed

lemma meterInterval_range:
  assumes "cadence_ok cfg" "meterInterval R cfg s = (d, s')"
  shows "0 < d \<and> d \<le> 9000001 * second"
proof -
  define lo hi where "lo = fst (sc_MeterIntervalSec (sm_Simulator cfg))"
    and "hi = (if snd (sc_MeterIntervalSec (sm_Simulator cfg)) \<le> lo then lo + 1 else snd (sc_MeterIntervalSec (sm_Simulator cfg)))"
  have lo: "1 \<le> lo" "lo < hi" "hi \<le> 9000001" using assms(1) by (auto simp: lo_def hi_def cadence_ok_def)
  define k where "k = fst (r_Intn R (hi - lo + 1) s)"
  have k: "0 \<le> k" "k < hi - lo + 1" using Intn_range [of "hi - lo + 1" s] lo by (auto simp: k_def)
  have "d = wrap64 ((lo + k) * second)"
    using assms(2) by (simp add: meterInterval_def case_prod_beta Let_def lo_def hi_def k_def cong: if_cong)
  also have "\<dots> = (lo + k) * second"
    using lo k by (intro wrap64_id) (simp_all add: go_int64_min_def go_int64_max_def)
  finally show ?thesis using lo k by simp
qed

lemma vinLike_ascii: "ascii (fst (vinLike R s))"
proof -
  have "ascii (fst (vin_loop n R s))" for n s
  proof (induction n arbitrary: s)
    case (Suc n)
    let ?k = "fst (r_Intn R (int (length vin_alphabet)) s)"
    have "0 \<le> ?k" "?k < int (length vin_alphabet)"
      using Intn_range [of "int (length vin_alphabet)" s] by (simp_all add: vin_alphabet_def)
    then have "vin_alphabet ! nat ?k \<in> set vin_alphabet" by (intro nth_mem) simp
    moreover have "ascii vin_alphabet" by (simp add: vin_alphabet_def)
    ultimately have "byte (vin_alphabet ! nat ?k) < 128" by (simp add: ascii_def list_all_iff)
    then show ?case using Suc.IH by (simp add: case_prod_beta Let_def)
  qed simp
  then show ?thesis by (simp add: vinLike_def)
qed

lemma session_id_ascii: "ascii (''sess-'' @ take 18 (fst (r_NewString R s)))"
  using event_id_ascii [OF uuid_valid [OF NewString_shape]] by (simp add: ascii_take)

lemma startSession_ok:
  assumes st: "seeded reg reg' st" and c: "conn_ok (int (length (st_Connectors st))) c" and now: "0 \<le> now" "in_time now"
    and run: "startSession R cfg st c now s = (e, c', s')"
  shows "accepted reg reg' e \<and> conn_ok (int (length (st_Connectors st))) c' \<and> cn_status c' = ''Charging''"
proof -
  obtain v s1 where v: "pickVehicle R s = (v, s1)" by fastforce
  obtain dm s2 where dm: "truncNormal R (sd_Mean (sc_SessionMinutes (sm_Simulator cfg))) (sd_Stddev (sc_SessionMinutes (sm_Simulator cfg)))
      (sd_Min (sc_SessionMinutes (sm_Simulator cfg))) (sd_Max (sc_SessionMinutes (sm_Simulator cfg))) s1 = (dm, s2)" by fastforce
  obtain uid s3 where uid: "r_NewString R s2 = (uid, s3)" by fastforce
  obtain vin s4 where vin: "vinLike R s3 = (vin, s4)" by fastforce
  obtain tf s5 where tf: "pickTariff R cfg (Hour now) s4 = (tf, s5)" by fastforce
  obtain u s6 where u: "r_Float64 R s5 = (u, s6)" by fastforce
  define ses where "ses = \<lparr>ss_ID = ''sess-'' @ take 18 uid, ss_Vehicle = \<lparr>Brand = vm_Brand v, VModel = vm_Model v, EvID = vin\<rparr>,
    ss_BatteryKWh = vm_BatteryKWh v, ss_TariffID = tf, ss_StartedAt = now, ss_EndsAt = now + to_duration dm,
    ss_EnergyKWh = 0, ss_Soc = Fin 10 + u * Fin 40, ss_TargetPowerKW = math_Min (cn_PowerRating c) (vm_MaxAcceptKW v)\<rparr>"
  obtain d s7 where d: "meterInterval R cfg s6 = (d, s7)" by fastforce
  obtain e0 s8 where e0: "baseEvent R st ''SESSION_START'' (cn_ID c) now s7 = (e0, s8)" by fastforce
  have e: "e = e0\<lparr>SessionID := ss_ID ses, TariffID := ss_TariffID ses, Vehicle := Some (ss_Vehicle ses),
      Meter := Some \<lparr>PowerKW = 0, EnergyKWh = 0, VoltageV = nominalVoltage c, CurrentA = 0, SocPercent = int_of_f64 (ss_Soc ses)\<rparr>\<rparr>"
    "c' = c\<lparr>cn_session := Some ses, cn_status := ''Charging'', cn_lastMeterAt := now, cn_nextMeterAt := now + d\<rparr>"
    using run by (simp_all add: startSession_def Let_def v dm uid vin tf u d e0 ses_def nominalVoltage_def)
  have "in_range 0 u 1" using Float64_range [of s5] by (auto simp: u in_range_iff)
  then have "in_range 0 (u * Fin 40) 40" by (rule in_range_mult [of 0 _ 1 40 _ 40]) simp_all
  then have "in_range 0 (Fin 10 + u * Fin 40) 100" by (intro in_range_add [of 10 _ 10 0 _ 40]) simp_all
  moreover have "in_range 22 (math_Min (cn_PowerRating c) (vm_MaxAcceptKW v)) 350"
    using math_Min_range [of 22 "cn_PowerRating c" 350 100 "vm_MaxAcceptKW v" 250] c pickVehicle_ok [of R s]
    by (auto simp: v conn_ok_def elim!: in_range_mono)
  moreover have "go_int64_min \<le> now + to_duration dm" using int_of_f64_min [of "dm * f64_of_int (60 * second)"] now
    by (simp add: to_duration_def)
  moreover have "session_wire ses"
    using session_id_ascii [of s2] vinLike_ascii [of s3] pickVehicle_ok [of R s]
    by (simp add: session_wire_def vehicle_wire_def ses_def uid vin v)
  ultimately have ses: "session_ok ses"
    using pickVehicle_ok [of R s] pickTariff_ok [of R cfg "Hour now" s4] by (simp add: session_ok_def ses_def v tf zero_f64)
  have "Meter e = Some \<lparr>PowerKW = 0, EnergyKWh = 0, VoltageV = nominalVoltage c, CurrentA = 0, SocPercent = int_of_f64 (ss_Soc ses)\<rparr>"
    by (simp add: e)
  then have "accepted reg reg' e"
    by (rule session_event_accepted [OF st now(2)])
      (use baseEvent_fields [OF e0] ses Soc_percent [OF ses] session_okD [OF ses] session_meter_wire [OF ses, where c = c] c
          accumulates_range [OF nominalVoltage_range [of c]]
        in \<open>simp_all add: e from_station_def session_ok_def conn_ok_def zero_f64\<close>)
  then show ?thesis using c ses by (simp add: e conn_ok_def)
qed

lemma meterTick_ok:
  assumes st: "seeded reg reg' st" and c: "conn_ok (int (length (st_Connectors st))) c" and now: "in_time now"
    and cad: "cadence_ok cfg" and sess: "cn_session c = Some ses0"
  shows "\<exists>e c' s'. meterTick R cfg st c now s = Some (e, c', s') \<and> accepted reg reg' e
    \<and> conn_ok (int (length (st_Connectors st))) c' \<and> cn_status c' = ''Charging''"
proof -
  have ses0: "session_ok ses0" using c sess by (simp add: conn_ok_def)
  define dt0 where "dt0 = Hours (time_Sub now (cn_lastMeterAt c))"
  obtain dt s1 where dt: "(if dt0 \<le> 0 then let (d, s) = meterInterval R cfg s in (f64_of_int d / f64_of_int (3600 * second), s)
      else (dt0, s)) = (dt, s1)" by fastforce
  have "in_range 0 dt 2562048"
  proof (cases "dt0 \<le> 0")
    case True
    obtain d s' where d: "meterInterval R cfg s = (d, s')" by fastforce
    have dt': "dt = f64_of_int d / f64_of_int (3600 * second)" using True dt by (simp add: d)
    show ?thesis unfolding dt' by (rule interval_hours) (use meterInterval_range [OF cad d] in simp_all)
  next
    case False
    then have "cn_lastMeterAt c < now" using Hours_nonpos [of "time_Sub now (cn_lastMeterAt c)"]
      by (rule_tac ccontr) (auto simp: dt0_def time_Sub_def go_int64_min_def go_int64_max_def)
    then have "in_range 0 dt0 2562048" unfolding dt0_def using time_Sub_range by (intro Hours_pos) auto
    then show ?thesis using False dt by simp
  qed
  define ses where "ses = charge ses0 (chargingPower ses0 * dt)"
  have ses: "session_ok ses"
    unfolding ses_def by (rule charge_ok [OF ses0 power_energy [OF ses0 \<open>in_range 0 dt 2562048\<close>]])
  define cur where "cur = (if 0 < nominalVoltage c then chargingPower ses0 * Fin 1000 / nominalVoltage c else 0)"
  have "in_range 0 (chargingPower ses0 * Fin 1000) 700000"
    by (rule in_range_mult [OF chargingPower_range [OF ses0], of 1000 _ 1000]) simp_all
  then have "in_range 0 (chargingPower ses0 * Fin 1000 / nominalVoltage c) 4000"
    by (rule in_range_divide [OF _ nominalVoltage_range [of c]]) simp_all
  then have cur: "in_range 0 cur 4000" by (simp add: cur_def zero_f64)
  obtain d s2 where d: "meterInterval R cfg s1 = (d, s2)" by fastforce
  obtain e0 s3 where e0: "baseEvent R st ''METER_UPDATE'' (cn_ID c) now s2 = (e0, s3)" by fastforce
  define c' where "c' = c\<lparr>cn_session := Some ses, cn_lastMeterAt := now, cn_nextMeterAt := now + d\<rparr>"
  define e where "e = e0\<lparr>SessionID := ss_ID ses, TariffID := ss_TariffID ses,
    Meter := Some \<lparr>PowerKW = round1 (chargingPower ses0), EnergyKWh = round3 (ss_EnergyKWh ses), VoltageV = nominalVoltage c, CurrentA = round1 cur,
      SocPercent = int_of_f64 (ss_Soc ses)\<rparr>\<rparr>"
  have run: "meterTick R cfg st c now s = Some (e, c', s3)"
    using dt by (simp add: meterTick_def sess dt0_def [symmetric] Let_def ses_def [symmetric] cur_def [symmetric] d e0 c'_def e_def
        split del: if_split)
  have m: "Meter e = Some \<lparr>PowerKW = round1 (chargingPower ses0), EnergyKWh = round3 (ss_EnergyKWh ses), VoltageV = nominalVoltage c,
      CurrentA = round1 cur, SocPercent = int_of_f64 (ss_Soc ses)\<rparr>" by (simp add: e_def)
  have rng: "in_range 0 (round1 (chargingPower ses0)) 1000" "accumulates (round1 cur)" "accumulates (nominalVoltage c)"
    "accumulates (round3 (ss_EnergyKWh ses))"
    using round1_range [of "chargingPower ses0" 700] round1_range [of cur 4000] chargingPower_range [OF ses0] cur
      accumulates_range nominalVoltage_range [of c] ses
    by (auto simp: session_ok_def intro!: round3_accumulates elim!: in_range_mono)
  have "accepted reg reg' e"
    by (rule session_event_accepted [OF st now m])
      (use baseEvent_fields [OF e0] ses Soc_percent [OF ses] session_okD [OF ses] session_meter_wire [OF ses, where c = c] c rng in \<open>simp_all add: e_def from_station_def session_ok_def conn_ok_def zero_f64\<close>)
  moreover have "conn_ok (int (length (st_Connectors st))) c' \<and> cn_status c' = ''Charging''"
    using c ses sess by (simp add: c'_def conn_ok_def)
  ultimately show ?thesis using run by blast
qed

lemma stopSession_ok:
  assumes st: "seeded reg reg' st" and c: "conn_ok (int (length (st_Connectors st))) c" and now: "in_time now"
    and sess: "cn_session c = Some ses0"
  shows "\<exists>e c' s'. stopSession R cfg st c now s = Some (e, c', s') \<and> accepted reg reg' e
    \<and> conn_ok (int (length (st_Connectors st))) c' \<and> cn_status c' = ''Available'' \<and> cn_session c' = None"
proof -
  have ses0: "session_ok ses0" using c sess by (simp add: conn_ok_def)
  obtain ses lm where step: "(if ss_Soc ses0 < Fin 100 \<and> cn_lastMeterAt c < now
      then (charge ses0 (chargingPower ses0 * Hours (time_Sub now (cn_lastMeterAt c))), now) else (ses0, cn_lastMeterAt c)) = (ses, lm)"
    by fastforce
  have "session_ok (charge ses0 (chargingPower ses0 * Hours (time_Sub now (cn_lastMeterAt c))))" if "cn_lastMeterAt c < now"
    using time_Sub_range [OF that] by (intro charge_ok power_energy Hours_pos ses0) auto
  then have ses: "session_ok ses" using step ses0 by (auto split: if_splits)
  define t where "t = tariffByID (ss_TariffID ses)"
  obtain rate peak where rate: "(if inPeakWindow (Hour now) cfg then (tf_Base t * tf_PeakMult t, Fin 1 < tf_PeakMult t)
      else (tf_Base t, False)) = (rate, peak)" by fastforce
  have tf: "in_range (1 / 4) (tf_Base t) 1" "in_range (1 / 2) (tf_PeakMult t) 2"
    using tariff_rates [of "ss_TariffID ses"] ses by (simp_all add: t_def session_ok_def)
  have "in_range (1 / 8) (tf_Base t * tf_PeakMult t) 2"
    by (rule in_range_mult [OF tf]) simp_all
  then have "in_range (1 / 8) rate 2" using rate tf(1) by (auto elim!: in_range_mono split: if_splits)
  then have cost: "accumulates (round2 (ss_EnergyKWh ses * rate))"
    using ses by (intro round2_accumulates accumulates_mult [of _ "1 / 8" _ 2]) (simp_all add: session_ok_def)
  obtain e0 s1 where e0: "baseEvent R st ''SESSION_STOP'' (cn_ID c) now s = (e0, s1)" by fastforce
  define m where "m = \<lparr>PowerKW = 0, EnergyKWh = round3 (ss_EnergyKWh ses), VoltageV = nominalVoltage c, CurrentA = 0,
    SocPercent = int_of_f64 (ss_Soc ses)\<rparr>"
  define e where "e = e0\<lparr>SessionID := ss_ID ses, TariffID := ss_TariffID ses, CostEur := round2 (ss_EnergyKWh ses * rate),
    IsPeakPriced := peak, Meter := Some m\<rparr>"
  define c' where "c' = c\<lparr>cn_session := None, cn_status := ''Available'', cn_lastMeterAt := lm\<rparr>"
  have run: "stopSession R cfg st c now s = Some (e, c', s1)"
    unfolding stopSession_def sess option.case step Let_def prod.case t_def [symmetric] rate e0 e_def c'_def m_def by simp
  have "Meter e = Some m" by (simp add: e_def)
  then have "accepted reg reg' e"
    by (rule session_event_accepted [OF st now])
      (use baseEvent_fields [OF e0] ses Soc_percent [OF ses] session_okD [OF ses] session_meter_wire [OF ses, where c = c] c cost
          accumulates_range [OF nominalVoltage_range [of c]]
        round3_accumulates in \<open>simp_all add: e_def m_def from_station_def session_ok_def conn_ok_def zero_f64\<close>)
  moreover have "conn_ok (int (length (st_Connectors st))) c'" using c by (simp add: c'_def conn_ok_def)
  ultimately show ?thesis using run by (auto simp: c'_def)
qed

lemma plain_event_accepted:
  assumes st: "seeded reg reg' st" and now: "in_time now" and e: "from_station st now e" "Meter e = None" "TariffID e = []"
    and conn: "if EventType e = ''HEARTBEAT'' then ConnectorID e = 0
      else 1 \<le> ConnectorID e \<and> ConnectorID e \<le> int (length (st_Connectors st))"
    and ty: "EventType e = ''HEARTBEAT'' \<or> EventType e = ''STATUS_CHANGE'' \<and> validStatuses (Status e)
      \<or> EventType e = ''FAULT_ALERT'' \<and> (\<exists>f. Fault e = Some f \<and> ErrorCode f \<noteq> [])"
    and wire: "valid_utf8 (SessionID e)" "valid_utf8 (Status e)" "CostEur e = 0" "Vehicle e = None" "pred_option fault_wire (Fault e)"
  shows "accepted reg reg' e"
proof -
  have r: "list_all (\<lambda>rb. \<not> snd rb) (type_rules e)" "list_all (\<lambda>rb. \<not> snd rb) (meter_rules e)" "validEventTypes (EventType e)"
    using ty e by (auto simp: type_rules_def meter_rules_def validEventTypes_def)
  have "Validate e reg reg' = Inr (now - now mod millisecond)"
    by (rule Validate_accepts [where st = st]) (use assms r in \<open>simp_all add: seeded_def\<close>)
  moreover have "wire_ok e"
    by (rule event_wire [where st = st]) (use assms r(3) in \<open>auto simp: seeded_def station_ok_def split: if_splits\<close>)
  ultimately show ?thesis by (auto simp: accepted_def)
qed

lemma heartbeat_ok:
  assumes "seeded reg reg' st" "in_time now"
  shows "accepted reg reg' (fst (heartbeat R st now s))"
  by (rule plain_event_accepted [OF assms])
    (simp_all add: heartbeat_def case_prod_beta Let_def zero_Event_def from_station_def uuid_valid [OF NewString_shape])

lemma statusChange_ok:
  assumes "seeded reg reg' st" "in_time now" "conn_ok (int (length (st_Connectors st))) c" "validStatuses status"
  shows "accepted reg reg' (fst (statusChange R st c now status s))"
proof -
  obtain e0 s' where e0: "baseEvent R st ''STATUS_CHANGE'' (cn_ID c) now s = (e0, s')" by fastforce
  show ?thesis
    by (rule plain_event_accepted [OF assms(1,2)])
      (use baseEvent_fields [OF e0] assms(3,4) session_okD in
        \<open>auto simp: statusChange_def e0 Let_def from_station_def conn_ok_def validStatuses_def split: option.split\<close>)
qed

lemma fault_codes:
  "0 \<le> k \<Longrightarrow> k < 6 \<Longrightarrow> fst (faultCodes ! nat k) \<noteq> [] \<and> ascii (fst (faultCodes ! nat k)) \<and> ascii (snd (faultCodes ! nat k))"
proof -
  assume k: "0 \<le> k" "k < (6::int)"
  then have "faultCodes ! nat k \<in> set faultCodes" by (intro nth_mem) (simp add: faultCodes_def)
  then show ?thesis by (auto simp: faultCodes_def)
qed

lemma faultAlert_ok:
  assumes "seeded reg reg' st" "in_time now" "conn_ok (int (length (st_Connectors st))) c"
  shows "accepted reg reg' (fst (faultAlert R st c now s))"
proof -
  obtain k s1 where k: "r_Intn R 6 s = (k, s1)" by fastforce
  obtain e0 s' where e0: "baseEvent R st ''FAULT_ALERT'' (cn_ID c) now s1 = (e0, s')" by fastforce
  have f: "fst (faultCodes ! nat k) \<noteq> [] \<and> ascii (fst (faultCodes ! nat k)) \<and> ascii (snd (faultCodes ! nat k))" using Intn_range [of 6 s] k fault_codes [of k] by simp
  have run: "fst (faultAlert R st c now s) = e0\<lparr>Fault := Some \<lparr>ErrorCode = fst (faultCodes ! nat k), Component = snd (faultCodes ! nat k)\<rparr>\<rparr>"
    using k e0 by (simp add: faultAlert_def faultCodes_def [THEN arg_cong, of length] Let_def)
  show ?thesis
    unfolding run by (rule plain_event_accepted [OF assms(1,2)])
      (use baseEvent_fields [OF e0] assms(3) f in \<open>simp_all add: from_station_def conn_ok_def fault_wire_def\<close>)
qed

end

end
