(* ===== verification/SimRoster.thy ===== *)
theory SimRoster
  imports SimEvents
begin

text \<open>
  The roster that \<^verbatim>\<open>BuildStations\<close> generates: as many stations as configured, with pairwise
  different ids, connectors numbered from 1 within the configured range, and, for cities and operators
  with names and cities away from the poles and the date line, well formed in the sense the events need.
\<close>

subsection \<open>Station ids\<close>

lemma dec_val_padded: "dec_val (replicate n (CHR ''0'') @ s) = dec_val s"
  by (induction n) (simp_all add: dec_val_def digit_val_def)

lemma pad_nat_inj: "pad_nat w a = pad_nat w b \<longleftrightarrow> a = b"
  by (metis dec_val_digits dec_val_padded pad_nat_def)

lemma pad_nat_no_dash: "CHR ''-'' \<notin> set (pad_nat w n)"
proof
  assume "CHR ''-'' \<in> set (pad_nat w n)"
  then have "is_digit (CHR ''-'')"
    using dec_digits_all_digits [of "CHR ''-''" n] by (auto simp: pad_nat_def Let_def)
  then show False by (simp add: is_digit_def)
qed

lemma first_sep_unique: "x \<notin> set ys \<Longrightarrow> x \<notin> set zs \<Longrightarrow> ys @ x # as = zs @ x # bs \<longleftrightarrow> ys = zs \<and> as = bs"
proof (induction ys arbitrary: zs)
  case Nil
  then show ?case by (cases zs) auto
next
  case (Cons y ys)
  then show ?case by (cases zs) auto
qed

lemma last_sep_unique:
  assumes "x \<notin> set ys" "x \<notin> set zs"
  shows "as @ x # ys = bs @ x # zs \<longleftrightarrow> as = bs \<and> ys = zs"
proof -
  have "as @ x # ys = bs @ x # zs \<longleftrightarrow> rev (as @ x # ys) = rev (bs @ x # zs)" by (simp only: rev_is_rev_conv)
  also have "\<dots> \<longleftrightarrow> rev ys @ x # rev as = rev zs @ x # rev bs" by simp
  also have "\<dots> \<longleftrightarrow> rev ys = rev zs \<and> rev as = rev bs" using assms by (intro first_sep_unique) simp_all
  finally show ?thesis by auto
qed

lemma station_id_inj: "station_id c a = station_id d b \<longleftrightarrow> c = d \<and> a = b"
  using last_sep_unique [OF pad_nat_no_dash pad_nat_no_dash, of c 4 a d 4 b] pad_nat_inj
  by (auto simp: station_id_def)

lemma station_id_valid: "valid_utf8 code \<Longrightarrow> valid_utf8 (station_id code k)"
  unfolding station_id_def by (intro valid_utf8_append) simp_all

subsection \<open>The loops\<close>

definition roster_config_ok :: "SimConfig \<Rightarrow> bool" where
  "roster_config_ok cfg \<longleftrightarrow> sim_config_ok cfg
     \<and> list_all (\<lambda>c. ct_Name c \<noteq> [] \<and> in_range (- 89) (ct_Lat c) 89 \<and> in_range (- 179) (ct_Lon c) 179
          \<and> valid_utf8 (ct_Name c) \<and> valid_utf8 (ct_Code c)) (sm_Cities cfg)
     \<and> list_all (\<lambda>o'. o' \<noteq> [] \<and> valid_utf8 o') (sc_Operators (sm_Simulator cfg))
     \<and> snd (sc_ConnectorsPerStation (sm_Simulator cfg)) \<le> go_int64_max"

text \<open>A station as built: well formed, no session running, connectors numbered from 1.\<close>

definition station_built :: "int \<Rightarrow> int \<Rightarrow> Station \<Rightarrow> bool" where
  "station_built lo hi st \<longleftrightarrow> station_ok st \<and> list_all (\<lambda>c. cn_session c = None) (st_Connectors st)
     \<and> lo \<le> int (length (st_Connectors st)) \<and> int (length (st_Connectors st)) \<le> hi
     \<and> map cn_ID (st_Connectors st) = map (\<lambda>k. 1 + int k) [0..<length (st_Connectors st)]"

lemma build_connectors_ok:
  assumes "build_connectors R n cid s = (cs, s')"
  shows "length cs = n \<and> list_all (\<lambda>c. in_range 22 (cn_PowerRating c) 350 \<and> cn_status c = ''Available'' \<and> cn_session c = None) cs \<and> map cn_ID cs = map (\<lambda>k. cid + int k) [0..<n]"
  using assms
proof (induction n arbitrary: cid s cs s')
  case (Suc n)
  obtain r t s1 where p: "pickConnectorRating R s = ((r, t), s1)" using prod_cases3 by (metis prod.collapse)
  obtain ds s2 where d: "build_connectors R n (cid + 1) s1 = (ds, s2)" by fastforce
  note IH = Suc.IH [OF d]
  have "map (\<lambda>k. cid + int k) [0..<Suc n] = cid # map (\<lambda>k. (cid + 1) + int k) [0..<n]"
    by (simp add: upt_conv_Cons map_Suc_upt [symmetric] del: upt_Suc)
  moreover have "in_range 22 r 350" using pickConnectorRating_ok [of R s] by (simp add: p)
  ultimately show ?case using Suc.prems IH by (auto simp: p d list_all_iff simp del: upt_Suc)
qed simp

context rand_source
begin

lemma jitter_range:
  assumes "in_range lo x hi" "anchor (lo - 1)" "anchor (hi + 1)"
  shows "in_range (lo - 1) (jitter x (fst (r_Float64 R s))) (hi + 1)"
proof -
  obtain u where u: "fst (r_Float64 R s) = Fin u" "0 \<le> u" "u < 1" using Float64_range by blast
  have h: "in_range (1 / 2) (rnd (1 / 2)) (1 / 2)" by (rule in_range_rnd) simp_all
  have "in_range (- 1) (Fin u - rnd (1 / 2)) 1"
    by (rule in_range_diff [OF _ h, of 0 _ 1]) (use u in simp_all)
  then obtain p where p: "Fin u - rnd (1 / 2) = Fin p" "- 1 \<le> p" "p \<le> 1" by (auto simp: in_range_iff)
  have "in_range 0 (rnd (12 / 100)) 1" by (rule in_range_rnd) simp_all
  then obtain q where q: "rnd (12 / 100) = Fin q" "0 \<le> q" "q \<le> 1" by (auto simp: in_range_iff)
  have "- 1 \<le> p * q" "p * q \<le> 1"
    using p q mult_mono [of p 1 q 1] mult_mono [of "- p" 1 q 1] by auto
  then have "in_range (- 1) ((Fin u - rnd (1 / 2)) * rnd (12 / 100)) 1"
    unfolding p(1) q(1) by (simp add: in_range_rnd)
  from in_range_add [OF assms(1) this, of "lo - 1" "hi + 1"] show ?thesis
    using assms by (simp add: jitter_def u(1))
qed

lemma build_station_ok:
  assumes cfg: "roster_config_ok cfg" and ops: "operators \<noteq> []" "list_all (\<lambda>o'. o' \<noteq> [] \<and> valid_utf8 o') operators" and con: "1 \<le> lo" "lo \<le> hi" "hi \<le> go_int64_max"
    and run: "build_station R cfg operators lo hi perCity op s = (st, perCity', op', s')"
  shows "station_built lo hi st
    \<and> (\<exists>code. st_ID st = station_id code (Suc (perCity code)) \<and> perCity' = perCity(code := Suc (perCity code)))"
proof -
  obtain c s1 where c: "pickCity R cfg s = (c, s1)" by fastforce
  obtain u s2 where u: "r_Float64 R s1 = (u, s2)" by fastforce
  obtain v s3 where v: "r_Float64 R s2 = (v, s3)" by fastforce
  obtain k s4 where k: "r_Intn R (hi - lo + 1) s3 = (k, s4)" by fastforce
  obtain o1 op1 where o1: "r_Intn R (int (length operators)) op = (o1, op1)" by fastforce
  obtain cs s5 where cs: "build_connectors R (nat (lo + k)) 1 s4 = (cs, s5)" by fastforce
  have st: "st = \<lparr>st_ID = station_id (ct_Code c) (Suc (perCity (ct_Code c))), st_OperatorID = operators ! nat o1, st_City = ct_Name c,
      st_Country = ''TR'', st_Lat = jitter (ct_Lat c) u, st_Lon = jitter (ct_Lon c) v, st_Connectors = cs, st_nextHeartbeatAt = zero_time\<rparr>"
    "perCity' = perCity(ct_Code c := Suc (perCity (ct_Code c)))"
    using run by (simp_all add: build_station_def c u v k o1 cs Let_def)
  have kr: "0 \<le> k" "k \<le> hi - lo" using Intn_range [of "hi - lo + 1" s3] con by (auto simp: k)
  have or: "0 \<le> o1" "o1 < int (length operators)" using Intn_range [of "int (length operators)" op] ops(1) by (auto simp: o1)
  then have "operators ! nat o1 \<in> set operators" by (intro nth_mem) (simp add: nat_less_iff)
  then have o2: "operators ! nat o1 \<noteq> [] \<and> valid_utf8 (operators ! nat o1)" using ops(2) by (auto simp: list_all_iff)
  have "c \<in> set (sm_Cities cfg)" using pickCity_in [of cfg R s] cfg by (simp add: c roster_config_ok_def sim_config_ok_def Let_def)
  then have city: "ct_Name c \<noteq> []" "in_range (- 89) (ct_Lat c) 89" "in_range (- 179) (ct_Lon c) 179"
    "valid_utf8 (ct_Name c)" "valid_utf8 (ct_Code c)"
    using cfg by (auto simp: roster_config_ok_def list_all_iff)
  have geo: "in_range (- 90) (jitter (ct_Lat c) u) 90" "in_range (- 180) (jitter (ct_Lon c) v) 180"
    using jitter_range [OF city(2), of s1] jitter_range [OF city(3), of s2] by (simp_all add: u v)
  note con' = build_connectors_ok [OF cs]
  then have len: "int (length cs) = lo + k" using kr con by simp
  have "1 \<le> cn_ID c \<and> cn_ID c \<le> int (length cs)" if "c \<in> set cs" for c
  proof -
    have "cn_ID c \<in> set (map cn_ID cs)" using that by simp
    then have "cn_ID c \<in> set (map (\<lambda>k. 1 + int k) [0..<length cs])" using con' by simp
    then show ?thesis by auto
  qed
  then have "list_all (conn_ok (int (length cs))) cs" using con' by (simp add: list_all_iff conn_ok_def)
  moreover have "station_wire st"
    using len kr con city(4) o2 station_id_valid [OF city(5)] by (simp add: station_wire_def st location_wire_def jitter_def)
  ultimately have "station_built lo hi st"
    using con' len kr city geo o2 by (simp add: st station_built_def station_ok_def list_all_iff)
  then show ?thesis by (auto simp: st)
qed

lemma build_loop_ok:
  assumes cfg: "roster_config_ok cfg" and ops: "operators \<noteq> []" "list_all (\<lambda>o'. o' \<noteq> [] \<and> valid_utf8 o') operators" and con: "1 \<le> lo" "lo \<le> hi" "hi \<le> go_int64_max"
    and run: "build_loop n R cfg operators lo hi perCity op s = (sts, s')"
  shows "length sts = n \<and> distinct (map st_ID sts)
    \<and> (\<forall>st\<in>set sts. station_built lo hi st
         \<and> (\<exists>code k. st_ID st = station_id code k \<and> perCity code < k))"
  using run
proof (induction n arbitrary: perCity op s sts s')
  case (Suc n)
  obtain st pc op1 s1 where b: "build_station R cfg operators lo hi perCity op s = (st, pc, op1, s1)" using prod_cases4 by blast
  obtain rest s2 where l: "build_loop n R cfg operators lo hi pc op1 s1 = (rest, s2)" by fastforce
  note ok = build_station_ok [OF cfg ops con b]
  then obtain code where code: "st_ID st = station_id code (Suc (perCity code))" "pc = perCity(code := Suc (perCity code))" by blast
  note IH = Suc.IH [OF l]
  have sts: "sts = st # rest" using Suc.prems by (simp add: b l Let_def)
  have later: "\<exists>code k. st_ID st' = station_id code k \<and> perCity code < k" "st_ID st' \<noteq> st_ID st" if "st' \<in> set rest" for st'
  proof -
    obtain d k where d: "st_ID st' = station_id d k" "pc d < k" using IH \<open>st' \<in> set rest\<close> by blast
    then have "perCity d < k" using code(2) by (auto split: if_splits)
    then show "\<exists>code k. st_ID st' = station_id code k \<and> perCity code < k" using d(1) by blast
    show "st_ID st' \<noteq> st_ID st" using d code by (auto simp: station_id_inj)
  qed
  show ?case
  proof (intro conjI ballI)
    show "length sts = Suc n" "distinct (map st_ID sts)" using IH later(2) by (auto simp: sts)
    show "station_built lo hi x" if "x \<in> set sts" for x using that IH ok by (auto simp: sts)
    show "\<exists>code k. st_ID x = station_id code k \<and> perCity code < k" if "x \<in> set sts" for x
      using that later(1) [of x] code(1) by (auto simp: sts)
  qed
qed simp

end

definition roster_ok :: "SimConfig \<Rightarrow> Station list \<Rightarrow> bool" where
  "roster_ok cfg sts \<longleftrightarrow> int (length sts) = sc_StationCount (sm_Simulator cfg) \<and> distinct (map st_ID sts)
     \<and> list_all (station_built (fst (sc_ConnectorsPerStation (sm_Simulator cfg))) (snd (sc_ConnectorsPerStation (sm_Simulator cfg)))) sts"

context rand_source
begin

lemma BuildStations_roster:
  assumes cfg: "roster_config_ok cfg" and run: "BuildStations R cfg s = (sts, s')"
  shows "roster_ok cfg sts"
proof -
  obtain lo hi where c: "sc_ConnectorsPerStation (sm_Simulator cfg) = (lo, hi)" by fastforce
  define ops where "ops = (if sc_Operators (sm_Simulator cfg) = [] then [''ChargeSquare''] else sc_Operators (sm_Simulator cfg))"
  have b: "1 \<le> lo" "lo \<le> hi" "hi \<le> go_int64_max" "0 < sc_StationCount (sm_Simulator cfg)"
    using cfg by (simp_all add: roster_config_ok_def sim_config_ok_def Let_def c)
  have o2: "ops \<noteq> []" "list_all (\<lambda>o'. o' \<noteq> [] \<and> valid_utf8 o') ops" using cfg by (auto simp: ops_def roster_config_ok_def)
  have "build_loop (nat (sc_StationCount (sm_Simulator cfg))) R cfg ops lo hi (\<lambda>_. 0)
      (r_New R (wrap64 (sc_Seed (sm_Simulator cfg) + 101))) s = (sts, s')"
    using run b by (simp add: BuildStations_def Let_def c ops_def cong: if_cong)
  from build_loop_ok [OF cfg o2 b(1-3) this] b(4) show ?thesis by (simp add: roster_ok_def c list_all_iff)
qed

end

text \<open>
  C38: The generated roster: for an accepted configuration whose cities and operators have names (in
  valid UTF-8) and whose cities are a degree away from the poles and the date line, \<^verbatim>\<open>BuildStations\<close> returns the
  configured number of stations with pairwise different ids, each with a connector count in the
  configured range, connectors numbered 1, 2, ... and free, ratings the events may report, and
  coordinates in range.
\<close>

theorem BuildStations_ok:
  assumes "rand_source R" "roster_config_ok cfg"
  shows "roster_ok cfg (fst (BuildStations R cfg s))"
  by (rule rand_source.BuildStations_roster [OF assms prod.collapse [symmetric]])

lemma demo_roster_config: "roster_config_ok demo_sim_config"
  using demo_sim_ok(1) by (simp add: roster_config_ok_def check_config_None) (simp add: demo_sim_config_def go_int64_max_def)

theorem BuildStations_ok_witness:
  "roster_ok demo_sim_config (fst (BuildStations tape_rand demo_sim_config 42))"
  by (rule BuildStations_ok [OF tape.rand_source_axioms demo_roster_config])

end
