(* ===== verification/SimRegistry.thy ===== *)
theory SimRegistry
  imports SimRoster
begin

text \<open>
  \<^verbatim>\<open>simulator/registry.go\<close> and \<^verbatim>\<open>seedWithRetry\<close>: the seeding of the registry tables. Postgres is a
  parameter: \<open>calls i\<close> tells whether the \<open>i\<close>-th call to it succeeds. A transaction works on its own copy
  of the tables, which replaces them at a successful commit and is dropped otherwise. Rows are kept as
  they were inserted; the columns narrower than their Go values (ratings, prices) are never read back.
  Shown: seeding is all or nothing, and what the processor then loads, in whatever order the rows come,
  has exactly the stations of the roster and the tariff catalog.
\<close>

record tables =
  tb_stations :: "(string \<times> stationMeta) list"
  tb_connectors :: "(string \<times> int \<times> float64 \<times> string) list"
  tb_tariffs :: "Tariff list"

datatype stmt = Truncate | InsertTariff Tariff | InsertStation string stationMeta | InsertConnector string int float64 string

fun exec :: "stmt \<Rightarrow> tables \<Rightarrow> tables" where
  "exec Truncate tb = \<lparr>tb_stations = [], tb_connectors = [], tb_tariffs = []\<rparr>"
| "exec (InsertTariff t) tb = tb\<lparr>tb_tariffs := tb_tariffs tb @ [t]\<rparr>"
| "exec (InsertStation sid row) tb = tb\<lparr>tb_stations := tb_stations tb @ [(sid, row)]\<rparr>"
| "exec (InsertConnector sid cid rating typ) tb = tb\<lparr>tb_connectors := tb_connectors tb @ [(sid, cid, rating, typ)]\<rparr>"

datatype seed_error = SeedOpen | SeedPing | SeedBegin | SeedPrepare | SeedExec stmt | SeedCommit

fun exec_all :: "(nat \<Rightarrow> bool) \<Rightarrow> nat \<Rightarrow> stmt list \<Rightarrow> tables \<Rightarrow> seed_error + nat \<times> tables" where
  "exec_all calls i [] tb = Inr (i, tb)"
| "exec_all calls i (q # qs) tb = (if calls i then exec_all calls (Suc i) qs (exec q tb) else Inl (SeedExec q))"

definition station_stmts :: "Station \<Rightarrow> stmt list" where
  "station_stmts st = InsertStation (st_ID st) (station_row st)
     # map (\<lambda>c. InsertConnector (st_ID st) (cn_ID c) (cn_PowerRating c) (cn_Type c)) (st_Connectors st)"

definition seed_stmts :: "Station list \<Rightarrow> stmt list" where
  "seed_stmts sts = map InsertTariff tariffCatalog @ concat (map station_stmts sts)"

definition SeedRegistry :: "(nat \<Rightarrow> bool) \<Rightarrow> Station list \<Rightarrow> tables \<Rightarrow> tables \<times> seed_error option" where
  "SeedRegistry calls sts db =
     (if \<not> calls 0 then (db, Some SeedOpen)
      else if \<not> calls 1 then (db, Some SeedPing)
      else if \<not> calls 2 then (db, Some SeedBegin)
      else case exec_all calls 3 [Truncate] db of Inl e \<Rightarrow> (db, Some e) | Inr (i, tb) \<Rightarrow>
        if \<not> (calls i \<and> calls (i + 1) \<and> calls (i + 2)) then (db, Some SeedPrepare)
        else case exec_all calls (i + 3) (seed_stmts sts) tb of Inl e \<Rightarrow> (db, Some e) | Inr (j, tb) \<Rightarrow>
          if calls j then (tb, None) else (db, Some SeedCommit))"

text \<open>\<open>calls k\<close> are the outcomes of the \<open>k\<close>-th attempt. With no attempt the error is nil.\<close>

fun seedWithRetry :: "nat \<Rightarrow> (nat \<Rightarrow> nat \<Rightarrow> bool) \<Rightarrow> nat \<Rightarrow> Station list \<Rightarrow> tables \<Rightarrow> tables \<times> seed_error option" where
  "seedWithRetry 0 calls k sts db = (db, None)"
| "seedWithRetry (Suc n) calls k sts db =
     (case SeedRegistry (calls k) sts db of
        (db, None) \<Rightarrow> (db, None)
      | (db, Some e) \<Rightarrow> if n = 0 then (db, Some e) else seedWithRetry n calls (Suc k) sts db)"

subsection \<open>The seeded tables\<close>

definition seeded_tables :: "Station list \<Rightarrow> tables" where
  "seeded_tables sts = \<lparr>tb_stations = map (\<lambda>st. (st_ID st, station_row st)) sts,
     tb_connectors = concat (map (\<lambda>st. map (\<lambda>c. (st_ID st, cn_ID c, cn_PowerRating c, cn_Type c)) (st_Connectors st)) sts),
     tb_tariffs = tariffCatalog\<rparr>"

lemma exec_all_Inr: "exec_all calls i qs tb = Inr (j, tb') \<Longrightarrow> tb' = foldl (\<lambda>tb q. exec q tb) tb qs"
  by (induction qs arbitrary: i tb) (auto split: if_splits)

lemma exec_tariffs: "foldl (\<lambda>tb q. exec q tb) tb (map InsertTariff ts) = tb\<lparr>tb_tariffs := tb_tariffs tb @ ts\<rparr>"
  by (induction ts arbitrary: tb) simp_all

lemma exec_connectors:
  "foldl (\<lambda>tb q. exec q tb) tb (map (\<lambda>c. InsertConnector sid (cn_ID c) (cn_PowerRating c) (cn_Type c)) cs) =
     tb\<lparr>tb_connectors := tb_connectors tb @ map (\<lambda>c. (sid, cn_ID c, cn_PowerRating c, cn_Type c)) cs\<rparr>"
  by (induction cs arbitrary: tb) simp_all

lemma exec_stations:
  "foldl (\<lambda>tb q. exec q tb) tb (concat (map station_stmts sts)) =
     tb\<lparr>tb_stations := tb_stations tb @ tb_stations (seeded_tables sts), tb_connectors := tb_connectors tb @ tb_connectors (seeded_tables sts)\<rparr>"
  by (induction sts arbitrary: tb) (simp_all add: station_stmts_def exec_connectors seeded_tables_def)

lemma SeedRegistry_cases:
  obtains (ok) "SeedRegistry calls sts db = (seeded_tables sts, None)"
  | (failed) e where "SeedRegistry calls sts db = (db, Some e)"
proof -
  have "foldl (\<lambda>tb q. exec q tb) (exec Truncate db) (seed_stmts sts) = seeded_tables sts"
    by (simp add: seed_stmts_def exec_tariffs exec_stations) (simp add: seeded_tables_def)
  then show thesis
    using ok failed exec_all_Inr [of calls _ "seed_stmts sts" "exec Truncate db"]
    by (fastforce simp: SeedRegistry_def split: if_splits sum.splits prod.splits)
qed

subsection \<open>What the processor loads\<close>

text \<open>A reply of Postgres to the loader's two queries: the rows of the tables, in any order.\<close>

definition serves :: "tables \<Rightarrow> db_reply \<Rightarrow> bool" where
  "serves db rep \<longleftrightarrow> db_open rep \<and> db_ping rep \<and>
     (\<exists>rs ts. mset rs = mset (tb_stations db) \<and> mset ts = mset (map tf_ID (tb_tariffs db))
        \<and> db_stations rep = Rows (map Some rs) False \<and> db_tariffs rep = Rows (map Some ts) False)"

lemma scan_rows_all: "scan_rows put (Rows (map Some rs) False) s = Inr (foldl (\<lambda>s r. put r s) s rs)"
  by (induction rs arbitrary: s) simp_all

lemma loaded_seed:
  assumes "distinct (map st_ID sts)" "serves (seeded_tables sts) rep"
  shows "\<exists>snp. loadRegistry rep = Inr snp \<and> (\<forall>st\<in>set sts. registry_has \<lparr>snap = snp\<rparr> st)
    \<and> (\<forall>sid. StationMeta \<lparr>snap = snp\<rparr> sid \<noteq> None \<longrightarrow> sid \<in> st_ID ` set sts)"
proof -
  from assms(2) obtain rs ts where r: "db_open rep" "db_ping rep" "mset rs = mset (map (\<lambda>st. (st_ID st, station_row st)) sts)"
    "mset ts = mset tariff_ids" "db_stations rep = Rows (map Some rs) False" "db_tariffs rep = Rows (map Some ts) False"
    by (auto simp: serves_def seeded_tables_def tariff_ids_def)
  have load: "loadRegistry rep = Inr (snapshot_of rs ts)"
    using r by (simp add: loadRegistry_def scan_rows_all snapshot_of_def)
  have "mset (map fst rs) = mset (map st_ID sts)" 
    by (simp only: mset_map r(3) multiset.map_comp o_def fst_conv)
  then have d: "distinct (map fst (rev rs))" using assms(1) by (metis distinct_rev mset_eq_imp_distinct_iff rev_map)
  have set_rs: "set rs = (\<lambda>st. (st_ID st, station_row st)) ` set sts" using r(3) by (metis list.set_map mset_eq_setD)
  have set_ts: "set ts = set tariff_ids" using r(4) by (rule mset_eq_setD)
  have look: "StationMeta \<lparr>snap = snapshot_of rs ts\<rparr> sid = map_of (rev rs) sid" for sid
    by (simp add: StationMeta_def snapshot_of_lookup)
  have "registry_has \<lparr>snap = snapshot_of rs ts\<rparr> st" if "st \<in> set sts" for st
  proof -
    have "(st_ID st, station_row st) \<in> set (rev rs)" using that set_rs by auto
    then have "map_of (rev rs) (st_ID st) = Some (station_row st)" using d by (simp add: map_of_eq_Some_iff)
    then show ?thesis using look set_ts by (simp add: registry_has_def TariffKnown_def snapshot_of_lookup list_all_iff)
  qed
  moreover have "sid \<in> st_ID ` set sts" if "map_of (rev rs) sid \<noteq> None" for sid
    using that set_rs by (force dest: map_of_SomeD)
  ultimately show ?thesis using load look by auto
qed

subsection \<open>Properties\<close>


text \<open>The retry loop reports success iff the tables hold the roster from an attempt that succeeded.\<close>

lemma seedWithRetry_ok:
  "0 < n \<Longrightarrow> (case seedWithRetry n calls k sts db of (db', None) \<Rightarrow> db' = seeded_tables sts | (db', Some _) \<Rightarrow> db' = db)"
proof (induction n arbitrary: k db)
  case (Suc n)
  show ?case
  proof (rule SeedRegistry_cases [of "calls k" sts db])
    fix e assume "SeedRegistry (calls k) sts db = (db, Some e)"
    then show ?thesis using Suc.IH [of db "Suc k"] by simp
  qed simp
qed simp

text \<open>
  C36: Seed and load fit together. After a successful seeding of a roster with distinct ids, the
  processor's \<^verbatim>\<open>loadRegistry\<close> succeeds on any answer that delivers the rows, in any order; it finds
  every station with the row that was seeded and every tariff of the catalog, and it finds no other
  station.
\<close>

theorem seed_load_roundtrip:
  assumes "SeedRegistry calls sts db = (db', None)" "distinct (map st_ID sts)" "serves db' rep"
  shows "\<exists>snp. loadRegistry rep = Inr snp \<and> (\<forall>st\<in>set sts. registry_has \<lparr>snap = snp\<rparr> st)
    \<and> (\<forall>sid. StationMeta \<lparr>snap = snp\<rparr> sid \<noteq> None \<longrightarrow> sid \<in> st_ID ` set sts)"
proof (rule SeedRegistry_cases [of calls sts db])
  assume "SeedRegistry calls sts db = (seeded_tables sts, None)"
  then show ?thesis using assms loaded_seed by simp
qed (use assms(1) in simp)

definition demo_tables :: tables where
  "demo_tables = \<lparr>tb_stations = [(''stale'', demo_meta)], tb_connectors = [], tb_tariffs = []\<rparr>"

definition demo_reply :: "Station list \<Rightarrow> db_reply" where
  "demo_reply sts = \<lparr>db_open = True, db_ping = True, db_stations = Rows (map Some (rev (tb_stations (seeded_tables sts)))) False,
     db_tariffs = Rows (map (\<lambda>t. Some (tf_ID t)) tariffCatalog) False\<rparr>"

lemma demo_serves: "serves (seeded_tables sts) (demo_reply sts)"
  unfolding serves_def
  by (intro conjI exI [of _ "rev (tb_stations (seeded_tables sts))"] exI [of _ "map tf_ID tariffCatalog"])
    (simp_all add: demo_reply_def seeded_tables_def)

lemma exec_all_steady: "exec_all (\<lambda>_. True) i qs tb = Inr (i + length qs, foldl (\<lambda>tb q. exec q tb) tb qs)"
  by (induction qs arbitrary: i tb) simp_all

lemma demo_seed: "SeedRegistry (\<lambda>_. True) sts db = (seeded_tables sts, None)"
  by (rule SeedRegistry_cases [of "\<lambda>_. True" sts db]) (simp_all add: SeedRegistry_def exec_all_steady)

definition demo_stations :: "Station list" where
  "demo_stations = fst (BuildStations tape_rand demo_sim_config 42)"

lemma demo_stations_ok: "roster_ok demo_sim_config demo_stations"
  unfolding demo_stations_def by (rule tape.BuildStations_roster [OF demo_roster_config prod.collapse [symmetric]])

theorem seed_load_roundtrip_witness:
  "\<exists>snp. loadRegistry (demo_reply demo_stations) = Inr snp \<and> (\<forall>st\<in>set demo_stations. registry_has \<lparr>snap = snp\<rparr> st)"
proof -
  have "distinct (map st_ID demo_stations)" using demo_stations_ok by (simp add: roster_ok_def)
  from seed_load_roundtrip [OF demo_seed [of demo_stations demo_tables] this demo_serves] show ?thesis by blast
qed

end
