(* ===== verification/SimMain.thy ===== *)
theory SimMain
  imports SimRegistry
begin

text \<open>
  \<^verbatim>\<open>simulator/main.go\<close>: the simulation loop. A tick of a worker is a function of the stations of
  its group, its generator and the shared session counter; it returns them with the events it hands to
  \<^verbatim>\<open>Send\<close>, in order, or \<^const>\<open>None\<close> where Go would dereference a nil session. The workers form a
  transition system in which one tick is one step: the groups are disjoint and only the counter and the
  producer are shared.
  Shown: no tick panics, every event handed to \<^verbatim>\<open>Send\<close> is accepted by the processor's
  \<^verbatim>\<open>Validate\<close>, the counter is the number of running sessions, a connector's last announced status is
  its status, and the groups partition the stations.
\<close>

subsection \<open>Waiting times\<close>

definition timeWeight :: "int \<Rightarrow> SimConfig \<Rightarrow> float64" where
  "timeWeight hour cfg =
     (case List.find (\<lambda>w. pw_Start w \<le> hour \<and> hour < pw_End w) (sc_PeakWindows (sm_Simulator cfg)) of
        Some w \<Rightarrow> pw_Weight w
      | None \<Rightarrow> if 0 < sc_BaseArrivalWeight (sm_Simulator cfg) then sc_BaseArrivalWeight (sm_Simulator cfg) else Fin 1)"

definition expDraw :: "'s rand \<Rightarrow> float64 \<Rightarrow> 's \<Rightarrow> float64 \<times> 's" where
  "expDraw R mean s =
     (let (u, s) = r_Float64 R s; u = (if u \<le> 0 then rnd (1 / 1000000000) else u)
      in ((0 - mean) * r_Log R u, s))"

definition idleGap :: "'s rand \<Rightarrow> SimConfig \<Rightarrow> instant \<Rightarrow> 's \<Rightarrow> duration \<times> 's" where
  "idleGap R cfg now s =
     (let w = timeWeight (Hour now) cfg; w = (if w \<le> 0 then Fin 1 else w);
          (mins, s) = expDraw R (Fin 8 / w) s;
          mins = (if mins < rnd (1 / 4) then rnd (1 / 4) else mins)
      in (to_duration mins, s))"

definition downtime :: "'s rand \<Rightarrow> 's \<Rightarrow> duration \<times> 's" where
  "downtime R s = (let (u, s) = r_Float64 R s in (to_duration (Fin 5 + u * Fin 25), s))"

text \<open>The simulated clock, \<open>since\<close> after the start of the wall clock.\<close>

definition simNow :: "instant \<Rightarrow> float64 \<Rightarrow> duration \<Rightarrow> instant" where
  "simNow base accel since = base + int_of_f64 (f64_of_int since * accel)"

subsection \<open>One tick\<close>

type_synonym 's tick = "Connector \<times> 's \<times> int \<times> Event list"

definition step_faulted :: "'s rand \<Rightarrow> SimConfig \<Rightarrow> Station \<Rightarrow> instant \<Rightarrow> Connector \<Rightarrow> 's \<Rightarrow> int \<Rightarrow> 's tick" where
  "step_faulted R cfg st now c s n =
     (if cn_faultedUntil c < now
      then let c = c\<lparr>cn_status := ''Available''\<rparr>; (d, s) = idleGap R cfg now s; c = c\<lparr>cn_idleUntil := now + d\<rparr>;
               (e, s) = statusChange R st c now ''Available'' s
           in (c, s, n, [e])
      else (c, s, n, []))"

definition step_available :: "'s rand \<Rightarrow> SimConfig \<Rightarrow> Station \<Rightarrow> float64 \<Rightarrow> instant \<Rightarrow> Connector \<Rightarrow> 's \<Rightarrow> int \<Rightarrow> 's tick" where
  "step_available R cfg st faultProb now c s n =
     (let (u, s) = r_Float64 R s
      in if u < faultProb
         then let (e1, s) = faultAlert R st c now s; c = c\<lparr>cn_status := ''Faulted''\<rparr>; (d, s) = downtime R s;
                  c = c\<lparr>cn_faultedUntil := now + d\<rparr>; (e2, s) = statusChange R st c now ''Faulted'' s
              in (c, s, n, [e1, e2])
         else if cn_idleUntil c < now
         then let (e1, c, s) = startSession R cfg st c now s; (e2, s) = statusChange R st c now ''Charging'' s
              in (c, s, n + 1, [e1, e2])
         else (c, s, n, []))"

definition step_charging :: "'s rand \<Rightarrow> SimConfig \<Rightarrow> Station \<Rightarrow> float64 \<Rightarrow> instant \<Rightarrow> Connector \<Rightarrow> 's \<Rightarrow> int \<Rightarrow> 's tick option" where
  "step_charging R cfg st faultProb now c s n =
     (let (u, s) = r_Float64 R s
      in if u < faultProb
         then let (e1, s) = faultAlert R st c now s
              in (case stopSession R cfg st c now s of None \<Rightarrow> None | Some (e2, c, s) \<Rightarrow>
                    let c = c\<lparr>cn_status := ''Faulted''\<rparr>; (d, s) = downtime R s; c = c\<lparr>cn_faultedUntil := now + d\<rparr>;
                        (e3, s) = statusChange R st c now ''Faulted'' s
                    in Some (c, s, n - 1, [e1, e2, e3]))
         else (case cn_session c of None \<Rightarrow> None | Some ses \<Rightarrow>
           if ss_EndsAt ses < now \<or> Fin 100 \<le> ss_Soc ses
           then (case stopSession R cfg st c (effectiveStopAt ses now) s of None \<Rightarrow> None | Some (e1, c, s) \<Rightarrow>
                   let (d, s) = idleGap R cfg now s; c = c\<lparr>cn_idleUntil := now + d\<rparr>;
                       (e2, s) = statusChange R st c now ''Available'' s
                   in Some (c, s, n - 1, [e1, e2]))
           else if cn_nextMeterAt c < now
           then (case meterTick R cfg st c now s of None \<Rightarrow> None | Some (e, c, s) \<Rightarrow> Some (c, s, n, [e]))
           else Some (c, s, n, [])))"

definition step_connector :: "'s rand \<Rightarrow> SimConfig \<Rightarrow> Station \<Rightarrow> float64 \<Rightarrow> instant \<Rightarrow> Connector \<Rightarrow> 's \<Rightarrow> int \<Rightarrow> 's tick option" where
  "step_connector R cfg st faultProb now c s n =
     (if cn_status c = ''Faulted'' then Some (step_faulted R cfg st now c s n)
      else if cn_status c = ''Available'' then Some (step_available R cfg st faultProb now c s n)
      else if cn_status c = ''Charging'' then step_charging R cfg st faultProb now c s n
      else Some (c, s, n, []))"

fun step_connectors :: "'s rand \<Rightarrow> SimConfig \<Rightarrow> Station \<Rightarrow> float64 \<Rightarrow> instant \<Rightarrow> Connector list \<Rightarrow> 's \<Rightarrow> int
    \<Rightarrow> (Connector list \<times> 's \<times> int \<times> Event list) option" where
  "step_connectors R cfg st faultProb now [] s n = Some ([], s, n, [])"
| "step_connectors R cfg st faultProb now (c # cs) s n =
     (case step_connector R cfg st faultProb now c s n of None \<Rightarrow> None | Some (c, s, n, es) \<Rightarrow>
       (case step_connectors R cfg st faultProb now cs s n of None \<Rightarrow> None | Some (cs, s, n, fs) \<Rightarrow> Some (c # cs, s, n, es @ fs)))"

definition beat :: "'s rand \<Rightarrow> Station \<Rightarrow> instant \<Rightarrow> 's \<Rightarrow> Station \<times> 's \<times> Event list" where
  "beat R st now s =
     (if st_nextHeartbeatAt st < now
      then let (e, s) = heartbeat R st now s; (k, s) = r_Intn R 5 s
           in (st\<lparr>st_nextHeartbeatAt := now + (28 + k) * second\<rparr>, s, [e])
      else (st, s, []))"

fun step_stations :: "'s rand \<Rightarrow> SimConfig \<Rightarrow> float64 \<Rightarrow> instant \<Rightarrow> Station list \<Rightarrow> 's \<Rightarrow> int
    \<Rightarrow> (Station list \<times> 's \<times> int \<times> Event list) option" where
  "step_stations R cfg faultProb now [] s n = Some ([], s, n, [])"
| "step_stations R cfg faultProb now (st # sts) s n =
     (case beat R st now s of (st, s, es) \<Rightarrow>
       (case step_connectors R cfg st faultProb now (st_Connectors st) s n of None \<Rightarrow> None | Some (cs, s, n, fs) \<Rightarrow>
         (case step_stations R cfg faultProb now sts s n of None \<Rightarrow> None | Some (sts, s, n, gs) \<Rightarrow>
           Some (st\<lparr>st_Connectors := cs\<rparr> # sts, s, n, es @ fs @ gs))))"

definition stepGroup :: "'s rand \<Rightarrow> SimConfig \<Rightarrow> Station list \<Rightarrow> instant \<Rightarrow> duration \<Rightarrow> 's \<Rightarrow> int
    \<Rightarrow> (Station list \<times> 's \<times> int \<times> Event list) option" where
  "stepGroup R cfg grp now dt s n =
     (let faultProb = sc_FaultRatePerHour (sm_Simulator cfg) * Hours dt in step_stations R cfg faultProb now grp s n)"

subsection \<open>Schedules, groups and workers\<close>

fun init_connectors :: "'s rand \<Rightarrow> instant \<Rightarrow> Connector list \<Rightarrow> 's \<Rightarrow> Connector list \<times> 's" where
  "init_connectors R now [] s = ([], s)"
| "init_connectors R now (c # cs) s =
     (let (k, s) = r_Intn R 300 s; (cs, s) = init_connectors R now cs s
      in (c\<lparr>cn_status := ''Available'', cn_idleUntil := now + k * second\<rparr> # cs, s))"

fun initSchedules :: "'s rand \<Rightarrow> instant \<Rightarrow> Station list \<Rightarrow> 's \<Rightarrow> Station list \<times> 's" where
  "initSchedules R now [] s = ([], s)"
| "initSchedules R now (st # sts) s =
     (let (k, s) = r_Intn R 30 s; (cs, s) = init_connectors R now (st_Connectors st) s; (sts, s) = initSchedules R now sts s
      in (st\<lparr>st_nextHeartbeatAt := now + k * second, st_Connectors := cs\<rparr> # sts, s))"

fun initial_statuses :: "'s rand \<Rightarrow> Station \<Rightarrow> instant \<Rightarrow> Connector list \<Rightarrow> 's \<Rightarrow> Event list \<times> 's" where
  "initial_statuses R st now [] s = ([], s)"
| "initial_statuses R st now (c # cs) s =
     (let (e, s) = statusChange R st c now ''Available'' s; (es, s) = initial_statuses R st now cs s in (e # es, s))"

fun emitInitialStatuses :: "'s rand \<Rightarrow> instant \<Rightarrow> Station list \<Rightarrow> 's \<Rightarrow> Event list \<times> 's" where
  "emitInitialStatuses R now [] s = ([], s)"
| "emitInitialStatuses R now (st # sts) s =
     (let (es, s) = initial_statuses R st now (st_Connectors st) s; (fs, s) = emitInitialStatuses R now sts s in (es @ fs, s))"

function chunks :: "nat \<Rightarrow> 'a list \<Rightarrow> 'a list list" where
  "chunks k xs = (if xs = [] \<or> k = 0 then [] else take k xs # chunks k (drop k xs))"
  by pat_completeness auto
termination by (relation "measure (\<lambda>(k, xs). length xs)") auto

declare chunks.simps [simp del]

text \<open>Without stations the size is a division by zero, which panics.\<close>

definition partition_stations :: "'a list \<Rightarrow> int \<Rightarrow> 'a list list option" where
  "partition_stations sts n =
     (let n = (if n < 1 then 1 else n); n = (if int (length sts) < n then int (length sts) else n)
      in if n = 0 then None
         else let sz = (int (length sts) + n - 1) div n in Some (chunks (nat sz) sts))"

definition countConnectors :: "Station list \<Rightarrow> int" where
  "countConnectors sts = foldl (\<lambda>n st. n + int (length (st_Connectors st))) 0 sts"

record 's sim =
  si_groups :: "(Station list \<times> 's \<times> instant) list"
  si_counter :: int
  si_sent :: "Event list"

definition init_sim :: "'s rand \<Rightarrow> SimConfig \<Rightarrow> Station list list \<Rightarrow> (nat \<Rightarrow> instant) \<Rightarrow> Event list \<Rightarrow> 's sim" where
  "init_sim R cfg groups clk es = \<lparr>si_groups = map (\<lambda>(i, g). (g, r_New R (wrap64 (sc_Seed (sm_Simulator cfg) + int (i * 1000 + 13))), clk i))
       (enumerate 0 groups), si_counter = 0, si_sent = es\<rparr>"

text \<open>
  A tick of worker \<open>i\<close> that reads the simulated clock \<open>now\<close>; \<^const>\<open>None\<close> is a panic. A clock that has
  not advanced is skipped.
\<close>

definition worker_tick :: "'s rand \<Rightarrow> SimConfig \<Rightarrow> nat \<Rightarrow> instant \<Rightarrow> 's sim \<Rightarrow> 's sim option" where
  "worker_tick R cfg i now w =
     (case si_groups w ! i of (grp, s, lastTick) \<Rightarrow>
       let dt = time_Sub now lastTick
       in if dt \<le> 0 then Some w
          else case stepGroup R cfg grp now dt s (si_counter w) of None \<Rightarrow> None
             | Some (grp, s, n, es) \<Rightarrow>
                 Some (w\<lparr>si_groups := (si_groups w)[i := (grp, s, now)], si_counter := n, si_sent := si_sent w @ es\<rparr>))"

inductive sim_run :: "'s rand \<Rightarrow> SimConfig \<Rightarrow> 's sim \<Rightarrow> 's sim \<Rightarrow> bool" for R cfg w0 where
  run_start: "sim_run R cfg w0 w0"
| run_tick: "sim_run R cfg w0 w \<Longrightarrow> i < length (si_groups w) \<Longrightarrow> 0 \<le> now \<Longrightarrow> in_time now \<Longrightarrow>
    worker_tick R cfg i now w = Some w' \<Longrightarrow> sim_run R cfg w0 w'"

text \<open>
  \<^verbatim>\<open>runSimulation\<close> up to the start of the workers, on \<open>cpus\<close> processors; \<open>clk i\<close> is the
  \<open>i\<close>-th reading of the simulated clock.
\<close>

definition runSimulation :: "'s rand \<Rightarrow> SimConfig \<Rightarrow> Station list \<Rightarrow> int \<Rightarrow> (nat \<Rightarrow> instant) \<Rightarrow> 's sim option" where
  "runSimulation R cfg sts cpus clk =
     (let (sts, s) = initSchedules R (clk 0) sts (r_New R (wrap64 (sc_Seed (sm_Simulator cfg) + 7)));
          (es, s) = emitInitialStatuses R (clk 1) sts s;
          workers = (if cpus < 2 then 2 else cpus)
      in map_option (\<lambda>groups. init_sim R cfg groups (\<lambda>i. clk (i + 2)) es) (partition_stations sts workers))"

subsection \<open>Connectors\<close>

definition charging :: "Connector \<Rightarrow> int" where
  "charging c = of_bool (cn_session c \<noteq> None)"

text \<open>The status the connector announces in a list of events: its last \<^verbatim>\<open>STATUS_CHANGE\<close>.\<close>

definition announced :: "string \<Rightarrow> Event list \<Rightarrow> string" where
  "announced status es = foldl (\<lambda>status e. if EventType e = ''STATUS_CHANGE'' then Status e else status) status es"

lemma conn_ok_cases:
  assumes "conn_ok n c"
  obtains (available) "cn_status c = ''Available''" "cn_session c = None"
  | (faulted) "cn_status c = ''Faulted''" "cn_session c = None"
  | (charging) ses where "cn_status c = ''Charging''" "cn_session c = Some ses" "session_ok ses"
  using assms by (cases "cn_session c") (auto simp: conn_ok_def)

lemma validStatuses_simps [simp]: "validStatuses ''Available''" "validStatuses ''Charging''" "validStatuses ''Faulted''"
  by (simp_all add: validStatuses_def)

lemma statusChange_type:
  "EventType (fst (statusChange R st c now status s)) = ''STATUS_CHANGE''" "Status (fst (statusChange R st c now status s)) = status"
  by (simp_all add: statusChange_def baseEvent_def case_prod_beta Let_def split: option.split)

lemma faultAlert_type: "EventType (fst (faultAlert R st c now s)) = ''FAULT_ALERT''"
  by (simp add: faultAlert_def baseEvent_def case_prod_beta Let_def)

lemma stopSession_type: "stopSession R cfg st c now s = Some (e, c', s') \<Longrightarrow> EventType e = ''SESSION_STOP''"
  by (auto simp: stopSession_def baseEvent_def case_prod_beta Let_def split: option.splits)

lemma meterTick_type: "meterTick R cfg st c now s = Some (e, c', s') \<Longrightarrow> EventType e = ''METER_UPDATE''"
  by (auto simp: meterTick_def baseEvent_def case_prod_beta Let_def split: option.splits)

lemma startSession_type: "startSession R cfg st c now s = (e, c', s') \<Longrightarrow> EventType e = ''SESSION_START''"
  by (auto simp: startSession_def baseEvent_def case_prod_beta Let_def)

lemma conn_ok_update [simp]:
  "conn_ok n (c\<lparr>cn_idleUntil := t\<rparr>) = conn_ok n c" "conn_ok n (c\<lparr>cn_faultedUntil := t\<rparr>) = conn_ok n c"
  by (simp_all add: conn_ok_def split: option.split)

lemma conn_ok_status: "conn_ok n c \<Longrightarrow> cn_session c = None \<Longrightarrow> status = ''Available'' \<or> status = ''Faulted'' \<Longrightarrow> conn_ok n (c\<lparr>cn_status := status\<rparr>)"
  by (auto simp: conn_ok_def)

text \<open>What one connector's step promises: good events, a good connector, an exact count, an announced status.\<close>

definition tick_ok :: "Registry \<Rightarrow> Registry \<Rightarrow> Station \<Rightarrow> Connector \<Rightarrow> int \<Rightarrow> 's tick \<Rightarrow> bool" where
  "tick_ok reg reg' st c n r = (case r of (c', s', n', es) \<Rightarrow>
     list_all (accepted reg reg') es \<and> conn_ok (int (length (st_Connectors st))) c'
     \<and> n' = n + charging c' - charging c \<and> announced (cn_status c) es = cn_status c')"

context rand_source
begin

lemma step_faulted_ok:
  assumes st: "seeded reg reg' st" and c: "conn_ok (int (length (st_Connectors st))) c" "cn_status c = ''Faulted''" and now: "in_time now"
  shows "tick_ok reg reg' st c n (step_faulted R cfg st now c s n)"
proof -
  have sess: "cn_session c = None" using c by (auto elim: conn_ok_cases)
  show ?thesis
    using statusChange_ok [OF st now] conn_ok_status [OF c(1) sess, of "''Available''"] c sess
    by (auto simp: step_faulted_def tick_ok_def case_prod_beta Let_def charging_def announced_def statusChange_type)
qed

lemma step_available_ok:
  assumes st: "seeded reg reg' st" and c: "conn_ok (int (length (st_Connectors st))) c" "cn_status c = ''Available''"
    and now: "0 \<le> now" "in_time now"
  shows "tick_ok reg reg' st c n (step_available R cfg st p now c s n)"
proof -
  have sess: "cn_session c = None" using c by (auto elim: conn_ok_cases)
  obtain u s1 where u: "r_Float64 R s = (u, s1)" by fastforce
  obtain e1 c1 s2 where run: "startSession R cfg st c now s1 = (e1, c1, s2)" using prod_cases3 by blast
  note start = startSession_ok [OF st c(1) now run]
  then have "cn_session c1 \<noteq> None" by (auto elim: conn_ok_cases)
  then show ?thesis
    using statusChange_ok [OF st now(2)] faultAlert_ok [OF st now(2) c(1)] conn_ok_status [OF c(1) sess, of "''Faulted''"] c sess
      start startSession_type [OF run]
    by (auto simp: step_available_def u run tick_ok_def case_prod_beta Let_def charging_def announced_def statusChange_type faultAlert_type)
qed

lemma effectiveStop_in_time: "session_ok ses \<Longrightarrow> in_time now \<Longrightarrow> in_time (effectiveStopAt ses now)"
  by (auto simp: effectiveStopAt_def in_time_def session_ok_def)

lemma step_charging_ok:
  assumes st: "seeded reg reg' st" and c: "conn_ok (int (length (st_Connectors st))) c" "cn_status c = ''Charging''"
    and now: "in_time now" and cad: "cadence_ok cfg"
  shows "\<exists>r. step_charging R cfg st p now c s n = Some r \<and> tick_ok reg reg' st c n r"
proof -
  obtain ses where ses: "cn_session c = Some ses" "session_ok ses" using c by (auto elim: conn_ok_cases)
  obtain u s1 where u: "r_Float64 R s = (u, s1)" by fastforce
  consider (fault) "u < p" | (stop) "\<not> u < p" "ss_EndsAt ses < now \<or> Fin 100 \<le> ss_Soc ses"
    | (meter) "\<not> u < p" "\<not> (ss_EndsAt ses < now \<or> Fin 100 \<le> ss_Soc ses)" "cn_nextMeterAt c < now"
    | (idle) "\<not> u < p" "\<not> (ss_EndsAt ses < now \<or> Fin 100 \<le> ss_Soc ses)" "\<not> cn_nextMeterAt c < now" by blast
  then show ?thesis
  proof cases
    case fault
    obtain e1 s2 where e1: "faultAlert R st c now s1 = (e1, s2)" by fastforce
    obtain e2 c2 s3 where stop: "stopSession R cfg st c now s2 = Some (e2, c2, s3)" "accepted reg reg' e2"
      "conn_ok (int (length (st_Connectors st))) c2" "cn_session c2 = None"
      using stopSession_ok [OF st c(1) now ses(1)] by blast
    show ?thesis
      using fault stop faultAlert_ok [OF st now c(1), of s1] faultAlert_type [of R st c now s1] statusChange_ok [OF st now]
        conn_ok_status [OF stop(3,4), of "''Faulted''"] ses stopSession_type [OF stop(1)]
      by (auto simp: step_charging_def u e1 case_prod_beta Let_def tick_ok_def charging_def announced_def statusChange_type)
  next
    case stop
    obtain e2 c2 s3 where run: "stopSession R cfg st c (effectiveStopAt ses now) s1 = Some (e2, c2, s3)" "accepted reg reg' e2"
      "conn_ok (int (length (st_Connectors st))) c2" "cn_session c2 = None" "cn_status c2 = ''Available''"
      using stopSession_ok [OF st c(1) effectiveStop_in_time [OF ses(2) now] ses(1)] by blast
    show ?thesis
      using stop run statusChange_ok [OF st now] ses stopSession_type [OF run(1)]
      by (simp add: step_charging_def u case_prod_beta Let_def tick_ok_def charging_def announced_def statusChange_type)
  next
    case meter
    obtain e c2 s3 where run: "meterTick R cfg st c now s1 = Some (e, c2, s3)" "accepted reg reg' e"
      "conn_ok (int (length (st_Connectors st))) c2" "cn_status c2 = ''Charging''"
      using meterTick_ok [OF st c(1) now cad ses(1)] by blast
    then have "cn_session c2 \<noteq> None" by (auto elim: conn_ok_cases)
    then show ?thesis
      using meter run ses c meterTick_type [OF run(1)]
      by (simp add: step_charging_def u case_prod_beta Let_def tick_ok_def charging_def announced_def)
  next
    case idle
    then show ?thesis using ses c by (simp add: step_charging_def u tick_ok_def charging_def announced_def)
  qed
qed

lemma step_connector_ok:
  assumes "seeded reg reg' st" "conn_ok (int (length (st_Connectors st))) c" "0 \<le> now" "in_time now" "cadence_ok cfg"
  shows "\<exists>r. step_connector R cfg st p now c s n = Some r \<and> tick_ok reg reg' st c n r"
  using assms(2)
proof (cases rule: conn_ok_cases)
  case available
  then show ?thesis using step_available_ok [OF assms(1,2) _ assms(3,4)] by (simp add: step_connector_def)
next
  case faulted
  then show ?thesis using step_faulted_ok [OF assms(1,2) _ assms(4)] by (simp add: step_connector_def)
next
  case (charging ses)
  then show ?thesis using step_charging_ok [OF assms(1,2) _ assms(4,5)] by (simp add: step_connector_def)
qed

lemma step_connectors_ok:
  assumes "seeded reg reg' st" "list_all (conn_ok (int (length (st_Connectors st)))) cs" "0 \<le> now" "in_time now" "cadence_ok cfg"
  shows "\<exists>cs' s' n' es. step_connectors R cfg st p now cs s n = Some (cs', s', n', es) \<and> list_all (accepted reg reg') es
    \<and> list_all (conn_ok (int (length (st_Connectors st)))) cs' \<and> length cs' = length cs
    \<and> n' = n + sum_list (map charging cs') - sum_list (map charging cs)"
  using assms(2)
proof (induction cs arbitrary: s n)
  case (Cons c cs)
  obtain c' s1 n1 es where step: "step_connector R cfg st p now c s n = Some (c', s1, n1, es)" "tick_ok reg reg' st c n (c', s1, n1, es)"
    using step_connector_ok [OF assms(1) _ assms(3-5), of c p s n] Cons.prems by auto
  obtain cs' s2 n2 fs where rest: "step_connectors R cfg st p now cs s1 n1 = Some (cs', s2, n2, fs)" "list_all (accepted reg reg') fs"
    "list_all (conn_ok (int (length (st_Connectors st)))) cs'" "length cs' = length cs"
    "n2 = n1 + sum_list (map charging cs') - sum_list (map charging cs)"
    using Cons.IH [of s1 n1] Cons.prems by auto
  show ?case using step rest by (simp add: tick_ok_def)
qed simp

end

definition active :: "Station list \<Rightarrow> int" where
  "active sts = sum_list (map (\<lambda>st. sum_list (map charging (st_Connectors st))) sts)"

lemma seeded_update:
  assumes "seeded reg reg' st" "list_all (conn_ok (int (length (st_Connectors st)))) cs" "length cs = length (st_Connectors st)"
  shows "seeded reg reg' (st\<lparr>st_nextHeartbeatAt := t, st_Connectors := cs\<rparr>)" "seeded reg reg' (st\<lparr>st_Connectors := cs\<rparr>)"
  using assms by (simp_all add: seeded_def station_ok_def station_wire_def registry_has_def station_row_def)

lemma seeded_beat: "seeded reg reg' (st\<lparr>st_nextHeartbeatAt := t\<rparr>) = seeded reg reg' st"
  by (simp add: seeded_def station_ok_def station_wire_def registry_has_def station_row_def)

context rand_source
begin

lemma beat_ok:
  assumes "seeded reg reg' st" "in_time now" "beat R st now s = (st', s', es)"
  shows "seeded reg reg' st' \<and> st_Connectors st' = st_Connectors st \<and> list_all (accepted reg reg') es"
  using assms heartbeat_ok [OF assms(1,2), of s] by (auto simp: beat_def case_prod_beta Let_def seeded_beat split: if_splits)

lemma step_stations_ok:
  assumes "list_all (seeded reg reg') sts" "0 \<le> now" "in_time now" "cadence_ok cfg"
  shows "\<exists>sts' s' n' es. step_stations R cfg p now sts s n = Some (sts', s', n', es) \<and> list_all (accepted reg reg') es
    \<and> list_all (seeded reg reg') sts' \<and> n' = n + active sts' - active sts"
  using assms(1)
proof (induction sts arbitrary: s n)
  case (Cons st sts)
  obtain st1 s1 es where b: "beat R st now s = (st1, s1, es)" using prod_cases3 by blast
  note beat = beat_ok [OF _ assms(3) b, of reg reg']
  have st1: "seeded reg reg' st1" "st_Connectors st1 = st_Connectors st" using beat Cons.prems by auto
  then have "list_all (conn_ok (int (length (st_Connectors st1)))) (st_Connectors st1)" by (simp add: seeded_def station_ok_def)
  from step_connectors_ok [OF st1(1) this assms(2-4), of p s1 n] obtain cs s2 n2 fs where c:
    "step_connectors R cfg st1 p now (st_Connectors st1) s1 n = Some (cs, s2, n2, fs)" "list_all (accepted reg reg') fs"
    "list_all (conn_ok (int (length (st_Connectors st1)))) cs" "length cs = length (st_Connectors st1)"
    "n2 = n + sum_list (map charging cs) - sum_list (map charging (st_Connectors st1))" by auto
  obtain sts' s3 n3 gs where r: "step_stations R cfg p now sts s2 n2 = Some (sts', s3, n3, gs)" "list_all (accepted reg reg') gs"
    "list_all (seeded reg reg') sts'" "n3 = n2 + active sts' - active sts"
    using Cons.IH [of s2 n2] Cons.prems by auto
  show ?case
    using b beat c r st1 Cons.prems seeded_update(2) [OF st1(1) c(3,4)] by (simp add: active_def)
qed (simp add: active_def)

end

subsection \<open>Runs\<close>

definition sim_active :: "'s sim \<Rightarrow> int" where
  "sim_active w = sum_list (map (\<lambda>(g, s, l). active g) (si_groups w))"

definition sim_ok :: "Registry \<Rightarrow> Registry \<Rightarrow> 's sim \<Rightarrow> bool" where
  "sim_ok reg reg' w \<longleftrightarrow> list_all (\<lambda>(g, s, l). list_all (seeded reg reg') g) (si_groups w)
     \<and> si_counter w = sim_active w \<and> list_all (accepted reg reg') (si_sent w)"

lemma sum_list_upd: "i < length xs \<Longrightarrow> sum_list (map f (xs[i := y])) = sum_list (map f xs) + f y - (f (xs ! i) :: int)"
  by (induction xs arbitrary: i) (auto split: nat.split)

lemma list_all_upd: "list_all P xs \<Longrightarrow> P y \<Longrightarrow> list_all P (xs[i := y])"
  by (auto simp: list_all_iff dest: set_update_subset_insert [THEN subsetD])

context rand_source
begin

lemma worker_tick_ok:
  assumes w: "sim_ok reg reg' w" and i: "i < length (si_groups w)" and now: "0 \<le> now" "in_time now" and cad: "cadence_ok cfg"
  shows "\<exists>w'. worker_tick R cfg i now w = Some w' \<and> sim_ok reg reg' w' \<and> length (si_groups w') = length (si_groups w)"
proof -
  obtain g s l where g: "si_groups w ! i = (g, s, l)" using prod_cases3 by blast
  show ?thesis
  proof (cases "time_Sub now l \<le> 0")
    case True
    then show ?thesis using w by (simp add: worker_tick_def g)
  next
    case False
    have "list_all (seeded reg reg') g" using w i g by (fastforce simp: sim_ok_def list_all_length)
    from step_stations_ok [OF this now cad, of "sc_FaultRatePerHour (sm_Simulator cfg) * Hours (time_Sub now l)" s "si_counter w"]
    obtain g' s' n' es where r:
      "stepGroup R cfg g now (time_Sub now l) s (si_counter w) = Some (g', s', n', es)" "list_all (accepted reg reg') es"
      "list_all (seeded reg reg') g'" "n' = si_counter w + active g' - active g"
      by (auto simp: stepGroup_def Let_def)
    have "sim_active (w\<lparr>si_groups := (si_groups w)[i := (g', s', now)], si_counter := n', si_sent := si_sent w @ es\<rparr>) = n'"
      using w r(4) i g by (simp add: sim_active_def sim_ok_def sum_list_upd)
    then show ?thesis using False w r list_all_upd [of "\<lambda>(g, s, l). list_all (seeded reg reg') g" "si_groups w" "(g', s', now)" i]
      by (simp add: worker_tick_def g sim_ok_def)
  qed
qed

lemma sim_run_ok: "sim_run R cfg w0 w \<Longrightarrow> sim_ok reg reg' w0 \<Longrightarrow> cadence_ok cfg \<Longrightarrow> sim_ok reg reg' w"
  by (induction rule: sim_run.induct) (use worker_tick_ok in fastforce)+

end

subsection \<open>The start\<close>

definition fresh :: "Station \<Rightarrow> bool" where
  "fresh st \<longleftrightarrow> list_all (\<lambda>c. cn_session c = None) (st_Connectors st)"

lemma init_connectors_ok:
  assumes "init_connectors R now cs s = (cs', s')" "list_all (conn_ok n) cs" "list_all (\<lambda>c. cn_session c = None) cs"
  shows "list_all (conn_ok n) cs' \<and> list_all (\<lambda>c. cn_session c = None) cs' \<and> length cs' = length cs"
  using assms
proof (induction cs arbitrary: s cs')
  case (Cons c cs)
  then show ?case by (auto simp: case_prod_beta Let_def prod_eq_iff conn_ok_def)
qed simp

lemma initSchedules_ok:
  assumes "initSchedules R now sts s = (sts', s')" "list_all (seeded reg reg') sts" "list_all fresh sts"
  shows "list_all (seeded reg reg') sts' \<and> list_all fresh sts'"
  using assms
proof (induction sts arbitrary: s sts' s')
  case (Cons st sts)
  obtain k s1 where k: "r_Intn R 30 s = (k, s1)" by fastforce
  obtain cs s2 where cs: "init_connectors R now (st_Connectors st) s1 = (cs, s2)" by fastforce
  obtain tl s3 where tl: "initSchedules R now sts s2 = (tl, s3)" by fastforce
  have st: "seeded reg reg' st" "fresh st" using Cons.prems by auto
  then have "list_all (conn_ok (int (length (st_Connectors st)))) (st_Connectors st)" by (simp add: seeded_def station_ok_def)
  from init_connectors_ok [OF cs this] st(2) have
    "list_all (conn_ok (int (length (st_Connectors st)))) cs" "list_all (\<lambda>c. cn_session c = None) cs" "length cs = length (st_Connectors st)"
    by (auto simp: fresh_def)
  then show ?case using Cons.IH [OF tl] Cons.prems seeded_update(1) [OF st(1)] by (auto simp: k cs tl Let_def fresh_def)
qed simp

lemma active_fresh: "list_all fresh sts \<Longrightarrow> active sts = 0"
proof (induction sts)
  case (Cons st sts)
  have "sum_list (map charging cs) = 0" if "list_all (\<lambda>c. cn_session c = None) cs" for cs
    using that by (induction cs) (simp_all add: charging_def)
  then show ?case using Cons by (simp add: active_def fresh_def)
qed (simp add: active_def)

context rand_source
begin

lemma initial_statuses_ok:
  assumes "seeded reg reg' st" "in_time now" "list_all (conn_ok (int (length (st_Connectors st)))) cs"
  shows "list_all (accepted reg reg') (fst (initial_statuses R st now cs s))"
  using assms(3)
proof (induction cs arbitrary: s)
  case (Cons c cs)
  then show ?case using statusChange_ok [OF assms(1,2), of c "''Available''" s] by (simp add: case_prod_beta Let_def)
qed simp

lemma emitInitialStatuses_ok:
  assumes "list_all (seeded reg reg') sts" "in_time now"
  shows "list_all (accepted reg reg') (fst (emitInitialStatuses R now sts s))"
  using assms(1)
proof (induction sts arbitrary: s)
  case (Cons st sts)
  have "seeded reg reg' st" "list_all (conn_ok (int (length (st_Connectors st)))) (st_Connectors st)"
    using Cons.prems by (simp_all add: seeded_def station_ok_def)
  then show ?case using Cons initial_statuses_ok [OF _ assms(2)] by (simp add: case_prod_beta Let_def)
qed simp

end

lemma concat_chunks: "0 < k \<Longrightarrow> concat (chunks k xs) = xs"
proof (induction k xs rule: chunks.induct)
  case (1 k xs)
  then show ?case by (subst chunks.simps) auto
qed

lemma chunks_nonempty: "g \<in> set (chunks k xs) \<Longrightarrow> g \<noteq> [] \<and> length g \<le> k"
proof (induction k xs rule: chunks.induct)
  case (1 k xs)
  then show ?case by (subst (asm) chunks.simps) (auto split: if_splits)
qed

lemma chunks_length: "0 < k \<Longrightarrow> length xs \<le> k * m \<Longrightarrow> length (chunks k xs) \<le> m"
proof (induction k xs arbitrary: m rule: chunks.induct)
  case (1 k xs)
  show ?case
  proof (cases "xs = []")
    case False
    then obtain m' where m: "m = Suc m'" using "1.prems" by (cases m) auto
    have "length (chunks k (drop k xs)) \<le> m'" using 1 False m by (intro "1.IH") auto
    then show ?thesis using False "1.prems" m by (subst chunks.simps) simp
  qed (simp add: chunks.simps)
qed

lemma partition_stations_Some:
  assumes "partition_stations xs n = Some gs"
  shows "concat gs = xs \<and> [] \<notin> set gs \<and> int (length gs) \<le> max 1 n \<and> xs \<noteq> []"
proof -
  define m where "m = (let n = (if n < 1 then 1 else n) in if int (length xs) < n then int (length xs) else n)"
  define sz where "sz = (int (length xs) + m - 1) div m"
  have m: "m \<noteq> 0" "gs = chunks (nat sz) xs"
    using assms by (auto simp: partition_stations_def m_def sz_def Let_def split: if_splits)
  have pos: "1 \<le> m" "m \<le> max 1 n" "m \<le> int (length xs)" using m(1) by (auto simp: m_def Let_def Suc_le_eq split: if_splits)
  then have "0 < sz" by (auto simp: sz_def pos_imp_zdiv_pos_iff)
  then have sz: "1 \<le> sz" by simp
  have "int (length xs) + m - 1 = sz * m + (int (length xs) + m - 1) mod m" by (simp add: sz_def)
  moreover have "(int (length xs) + m - 1) mod m < m" using pos(1) by (intro pos_mod_bound) simp
  ultimately have "int (length xs) \<le> sz * m" by linarith
  then have "int (length xs) \<le> int (nat sz * nat m)" using pos sz by simp
  then have "length xs \<le> nat sz * nat m" by (simp only: of_nat_le_iff)
  then have "length gs \<le> nat m" unfolding m(2) using sz by (intro chunks_length) simp_all
  then show ?thesis
    using sz pos m chunks_nonempty [of "[]" "nat sz" xs] by (auto simp: concat_chunks)
qed

lemma sim_active_init: "list_all (list_all fresh) gs \<Longrightarrow> sim_active (init_sim R cfg gs clk es) = 0"
proof -
  have "sum_list (map (\<lambda>(g, s, l). active g) (map (\<lambda>(i, g). (g, f i, clk i)) (enumerate k gs))) = 0"
    if "list_all (list_all fresh) gs" for f k
    using that by (induction gs arbitrary: k) (simp_all add: active_fresh)
  then show "list_all (list_all fresh) gs \<Longrightarrow> sim_active (init_sim R cfg gs clk es) = 0"
    by (simp add: sim_active_def init_sim_def)
qed

lemma list_all_concat: "list_all P (concat gs) \<longleftrightarrow> list_all (list_all P) gs"
  by (induction gs) simp_all

lemma list_all_enumerate: "list_all (\<lambda>(i, g). P g) (enumerate k gs) = list_all P gs"
  by (induction gs arbitrary: k) simp_all

context rand_source
begin

lemma runSimulation_ok:
  assumes run: "runSimulation R cfg sts cpus clk = Some w0" and sts: "list_all (seeded reg reg') sts" "list_all fresh sts"
    and clk: "in_time (clk 1)"
  shows "sim_ok reg reg' w0"
proof -
  define s0 where "s0 = r_New R (wrap64 (sc_Seed (sm_Simulator cfg) + 7))"
  obtain sts1 s1 where i: "initSchedules R (clk 0) sts s0 = (sts1, s1)" by fastforce
  note ok = initSchedules_ok [OF i sts]
  obtain es s2 where e: "emitInitialStatuses R (clk 1) sts1 s1 = (es, s2)" by fastforce
  from run obtain gs where gs: "partition_stations sts1 (if cpus < 2 then 2 else cpus) = Some gs" "w0 = init_sim R cfg gs (\<lambda>i. clk (i + 2)) es"
    by (auto simp: runSimulation_def s0_def [symmetric] i e simp del: One_nat_def)
  have "concat gs = sts1" using partition_stations_Some [OF gs(1)] by simp
  then have "list_all (list_all (seeded reg reg')) gs" "list_all (list_all fresh) gs"
    using ok by (simp_all flip: list_all_concat)
  moreover have "list_all (accepted reg reg') es" using emitInitialStatuses_ok [of reg reg' sts1 "clk 1" s1] ok clk e by simp
  ultimately show ?thesis
    using gs(2) sim_active_init [of gs] list_all_enumerate [of "list_all (seeded reg reg')" 0 gs]
    by (simp add: sim_ok_def) (simp add: init_sim_def list_all_iff case_prod_beta)
qed

end

lemma partition_stations_None: "partition_stations xs n = None \<longleftrightarrow> xs = []"
  by (auto simp: partition_stations_def Let_def)

lemma initSchedules_length: "length (fst (initSchedules R now sts s)) = length sts"
  by (induction sts arbitrary: s) (simp_all add: case_prod_beta Let_def)

lemma runSimulation_starts:
  assumes "sts \<noteq> []"
  shows "runSimulation R cfg sts cpus clk \<noteq> None"
proof -
  define s0 where "s0 = r_New R (wrap64 (sc_Seed (sm_Simulator cfg) + 7))"
  obtain sts1 s1 where i: "initSchedules R (clk 0) sts s0 = (sts1, s1)" by fastforce
  obtain es s2 where e: "emitInitialStatuses R (clk 1) sts1 s1 = (es, s2)" by fastforce
  have "length sts1 = length sts" using initSchedules_length [of R "clk 0" sts s0] by (simp add: i)
  then have "partition_stations sts1 n \<noteq> None" for n using assms by (auto simp: partition_stations_None)
  then show ?thesis by (simp add: runSimulation_def s0_def [symmetric] i e del: One_nat_def)
qed

lemma built_fresh: "station_built lo hi st \<Longrightarrow> station_ok st \<and> fresh st"
  by (simp add: station_built_def fresh_def)

lemma roster_seeded:
  assumes "roster_ok cfg sts" "\<forall>st\<in>set sts. registry_has reg st" "\<forall>st\<in>set sts. registry_has reg' st"
  shows "list_all (seeded reg reg') sts" "list_all fresh sts"
  using assms built_fresh by (auto simp: roster_ok_def seeded_def list_all_iff)

subsection \<open>Properties\<close>

text \<open>
  C31: The simulator never panics. From a roster the registry holds, in every state the workers can
  reach, every worker can take its next tick at any simulated time up to the year 9999: no step
  dereferences a missing session.
\<close>

theorem simulation_never_panics:
  assumes "rand_source R" "cadence_ok cfg" "list_all (seeded reg reg') sts" "list_all fresh sts"
    and "runSimulation R cfg sts cpus clk = Some w0" "in_time (clk 1)" "sim_run R cfg w0 w"
    and "i < length (si_groups w)" "0 \<le> now" "in_time now"
  shows "worker_tick R cfg i now w \<noteq> None"
proof -
  have "sim_ok reg reg' w"
    using rand_source.sim_run_ok [OF assms(1,7) rand_source.runSimulation_ok [OF assms(1,5,3,4,6)] assms(2)] .
  then show ?thesis using rand_source.worker_tick_ok [OF assms(1) _ assms(8-10,2)] by fastforce
qed

lemma demo_sim_start:
  "\<exists>reg w0. runSimulation tape_rand demo_sim_config demo_stations 4 (\<lambda>i. int i) = Some w0
     \<and> list_all (seeded reg reg) demo_stations \<and> list_all fresh demo_stations \<and> 0 < length (si_groups w0)"
proof -
  have d: "distinct (map st_ID demo_stations)" "int (length demo_stations) = 2"
    using demo_stations_ok by (simp_all add: roster_ok_def demo_sim_config_def)
  from loaded_seed [OF d(1) demo_serves] obtain snp where s: "\<forall>st\<in>set demo_stations. registry_has \<lparr>snap = snp\<rparr> st" by blast
  from d(2) have ne: "demo_stations \<noteq> []" by auto
  then obtain w0 where w0: "runSimulation tape_rand demo_sim_config demo_stations 4 (\<lambda>i. int i) = Some w0"
    using runSimulation_starts by blast
  obtain sts1 gs es clk where g: "partition_stations sts1 4 = Some gs" "w0 = init_sim tape_rand demo_sim_config gs clk es"
    using w0 by (auto simp: runSimulation_def case_prod_beta Let_def)
  have "gs \<noteq> []" using partition_stations_Some [OF g(1)] by auto
  then have "0 < length (si_groups w0)" by (simp add: g(2) init_sim_def)
  then show ?thesis using w0 roster_seeded [OF demo_stations_ok s s] by blast
qed

lemma demo_cadence: "cadence_ok demo_sim_config"
  by (simp add: cadence_ok_def demo_sim_config_def)

lemma demo_in_time: "in_time 1" "in_time 60000000000"
  by (simp_all add: in_time_def go_int64_min_def)

theorem simulation_never_panics_witness:
  "\<exists>w0. runSimulation tape_rand demo_sim_config demo_stations 4 (\<lambda>i. int i) = Some w0
     \<and> worker_tick tape_rand demo_sim_config 0 60000000000 w0 \<noteq> None"
proof -
  from demo_sim_start obtain reg w0 where w0: "runSimulation tape_rand demo_sim_config demo_stations 4 (\<lambda>i. int i) = Some w0"
    "list_all (seeded reg reg) demo_stations" "list_all fresh demo_stations" "0 < length (si_groups w0)" by blast
  have t: "in_time (int 1)" by (simp add: demo_in_time(1))
  have "worker_tick tape_rand demo_sim_config 0 60000000000 w0 \<noteq> None"
    by (rule simulation_never_panics [OF tape.rand_source_axioms demo_cadence w0(2,3,1) t run_start w0(4) _ demo_in_time(2)]) simp
  then show ?thesis using w0(1) by blast
qed

text \<open>
  C32: The counter of active sessions is exact: in every reachable state it is the number of connectors
  that have a session.
\<close>

theorem active_sessions_exact:
  assumes "rand_source R" "cadence_ok cfg" "list_all (seeded reg reg') sts" "list_all fresh sts"
    and "runSimulation R cfg sts cpus clk = Some w0" "in_time (clk 1)" "sim_run R cfg w0 w"
  shows "si_counter w = sum_list (map (\<lambda>(g, s, l). \<Sum>st\<leftarrow>g. \<Sum>c\<leftarrow>st_Connectors st. of_bool (cn_session c \<noteq> None)) (si_groups w))"
proof -
  have "sim_ok reg reg' w"
    using rand_source.sim_run_ok [OF assms(1,7) rand_source.runSimulation_ok [OF assms(1,5,3,4,6)] assms(2)] .
  then show ?thesis by (simp add: sim_ok_def sim_active_def active_def charging_def [abs_def])
qed

theorem active_sessions_exact_witness:
  "\<exists>w0. runSimulation tape_rand demo_sim_config demo_stations 4 (\<lambda>i. int i) = Some w0
     \<and> si_counter w0 = sum_list (map (\<lambda>(g, s, l). \<Sum>st\<leftarrow>g. \<Sum>c\<leftarrow>st_Connectors st. of_bool (cn_session c \<noteq> None)) (si_groups w0))"
proof -
  from demo_sim_start obtain reg w0 where w0: "runSimulation tape_rand demo_sim_config demo_stations 4 (\<lambda>i. int i) = Some w0"
    "list_all (seeded reg reg) demo_stations" "list_all fresh demo_stations" "0 < length (si_groups w0)" by blast
  have t: "in_time (int 1)" by (simp add: demo_in_time(1))
  show ?thesis using w0(1) active_sessions_exact [OF tape.rand_source_axioms demo_cadence w0(2,3,1) t run_start] by blast
qed

text \<open>
  \<^verbatim>\<open>partition\<close> covers the roster: the groups, in order, are the stations, none is empty and there
  are at most as many as requested; only without stations it fails.
\<close>

theorem partition_stations_ok:
  "case partition_stations xs n of None \<Rightarrow> xs = []
   | Some gs \<Rightarrow> concat gs = xs \<and> [] \<notin> set gs \<and> int (length gs) \<le> max 1 n"
  using partition_stations_None [of xs n] partition_stations_Some [of xs n] by (cases "partition_stations xs n") auto

subsection \<open>The initial statuses\<close>

lemma statusChange_frame:
  "statusChange R (st\<lparr>st_nextHeartbeatAt := t, st_Connectors := cs\<rparr>) (c\<lparr>cn_status := x, cn_idleUntil := i\<rparr>) now status s =
     statusChange R st c now status s"
  by (simp add: statusChange_def baseEvent_def)

lemma init_connectors_mem:
  "c \<in> set cs \<Longrightarrow> \<exists>i. c\<lparr>cn_status := ''Available'', cn_idleUntil := i\<rparr> \<in> set (fst (init_connectors R now cs s))"
  by (induction cs arbitrary: s) (fastforce simp: case_prod_beta Let_def)+

lemma initSchedules_mem:
  "st \<in> set sts \<Longrightarrow> \<exists>t cs s'. st\<lparr>st_nextHeartbeatAt := t, st_Connectors := cs\<rparr> \<in> set (fst (initSchedules R now sts s))
     \<and> cs = fst (init_connectors R now (st_Connectors st) s')"
  by (induction sts arbitrary: s) (fastforce simp: case_prod_beta Let_def)+

lemma initial_statuses_mem:
  "c \<in> set cs \<Longrightarrow> \<exists>s'. fst (statusChange R st c now ''Available'' s') \<in> set (fst (initial_statuses R st now cs s))"
  by (induction cs arbitrary: s) (fastforce simp: case_prod_beta Let_def)+

lemma emitInitialStatuses_mem:
  "st \<in> set sts \<Longrightarrow> c \<in> set (st_Connectors st) \<Longrightarrow>
     \<exists>s'. fst (statusChange R st c now ''Available'' s') \<in> set (fst (emitInitialStatuses R now sts s))"
proof (induction sts arbitrary: s)
  case (Cons a sts)
  then show ?case
    using initial_statuses_mem [of c "st_Connectors st" R st now s] by (fastforce simp: case_prod_beta Let_def)
qed simp

lemma runSimulation_announces:
  assumes run: "runSimulation R cfg sts cpus clk = Some w0" and st: "st \<in> set sts" and c: "c \<in> set (st_Connectors st)"
  shows "\<exists>s. fst (statusChange R st c (clk 1) ''Available'' s) \<in> set (si_sent w0)"
proof -
  define s0 where "s0 = r_New R (wrap64 (sc_Seed (sm_Simulator cfg) + 7))"
  obtain sts1 s1 where i: "initSchedules R (clk 0) sts s0 = (sts1, s1)" by fastforce
  obtain es s2 where e: "emitInitialStatuses R (clk 1) sts1 s1 = (es, s2)" by fastforce
  from run have w0: "si_sent w0 = es"
    by (auto simp: runSimulation_def s0_def [symmetric] i e init_sim_def simp del: One_nat_def)
  obtain t cs where st': "st\<lparr>st_nextHeartbeatAt := t, st_Connectors := cs\<rparr> \<in> set sts1"
    and c': "\<exists>i. c\<lparr>cn_status := ''Available'', cn_idleUntil := i\<rparr> \<in> set cs"
    using initSchedules_mem [OF st, of R "clk 0" s0] init_connectors_mem [OF c, of R "clk 0"] i by fastforce
  then obtain i where "c\<lparr>cn_status := ''Available'', cn_idleUntil := i\<rparr> \<in> set (st_Connectors (st\<lparr>st_nextHeartbeatAt := t, st_Connectors := cs\<rparr>))"
    by auto
  from emitInitialStatuses_mem [OF st' this, of R "clk 1" s1] show ?thesis
    unfolding statusChange_frame w0 by (simp add: e del: One_nat_def)
qed

lemma sim_run_sent: "sim_run R cfg w0 w \<Longrightarrow> set (si_sent w0) \<subseteq> set (si_sent w)"
proof (induction rule: sim_run.induct)
  case (run_tick w i now w')
  have "set (si_sent w) \<subseteq> set (si_sent w')"
    using run_tick.hyps(5) by (auto simp: worker_tick_def Let_def split: prod.splits if_splits option.splits)
  then show ?case using run_tick.IH by blast
qed simp

text \<open>
  Every connector has a defined first state: before the workers start, each connector of each
  station has been announced as available at the time of the burst, and the announcement stays among the
  events sent in every later state.
\<close>

theorem every_connector_announced:
  assumes "runSimulation R cfg sts cpus clk = Some w0" "sim_run R cfg w0 w" "st \<in> set sts" "c \<in> set (st_Connectors st)"
  shows "\<exists>e\<in>set (si_sent w). EventType e = ''STATUS_CHANGE'' \<and> StationID e = st_ID st \<and> ConnectorID e = cn_ID c
    \<and> Status e = ''Available'' \<and> Timestamp e = format_ms (clk 1)"
proof -
  obtain s where s: "fst (statusChange R st c (clk 1) ''Available'' s) \<in> set (si_sent w)"
    using runSimulation_announces [OF assms(1,3,4)] sim_run_sent [OF assms(2)] by blast
  show ?thesis
    by (rule bexI [OF _ s]) (simp add: statusChange_def baseEvent_def case_prod_beta Let_def split: option.split)
qed

theorem every_connector_announced_witness:
  "\<exists>w0 st. runSimulation tape_rand demo_sim_config demo_stations 4 (\<lambda>i. int i) = Some w0 \<and> st \<in> set demo_stations
     \<and> (\<forall>c\<in>set (st_Connectors st). \<exists>e\<in>set (si_sent w0). EventType e = ''STATUS_CHANGE'' \<and> StationID e = st_ID st
          \<and> ConnectorID e = cn_ID c \<and> Status e = ''Available'' \<and> Timestamp e = format_ms (int 1))"
proof -
  from demo_sim_start obtain w0 where w0: "runSimulation tape_rand demo_sim_config demo_stations 4 (\<lambda>i. int i) = Some w0" by blast
  have "demo_stations \<noteq> []" using demo_stations_ok by (auto simp: roster_ok_def demo_sim_config_def)
  then obtain st where "st \<in> set demo_stations" by (meson list.set_sel(1))
  then show ?thesis using w0 every_connector_announced [OF w0 run_start] by blast
qed

subsection \<open>The simulated clock\<close>

lemma rnd_small:
  assumes "0 \<le> q" "rnd_val q \<le> 2 powi 62"
  shows "rnd q = Fin (rnd_val q)"
proof -
  have "q \<le> 2 powi 63"
  proof (rule ccontr)
    assume "\<not> q \<le> 2 powi 63"
    then have "2 powi 63 \<le> rnd_val q" using rnd_val_mono [of "2 powi 63" q] rnd_val_exact_pos [of "2 powi 63" 1 63] by simp
    moreover have "(2 :: rat) powi 62 < 2 powi 63" by simp
    ultimately show False using assms(2) by linarith
  qed
  then show ?thesis using assms(1) by (intro rnd_Fin [of q 63]) simp_all
qed

text \<open>
  C34: The simulated clock never runs backwards: as long as the accelerated time at the later reading
  is below \<open>2\<^sup>6\<^sup>2\<close> nanoseconds, an earlier reading of the wall clock gives no later simulated time,
  and none before the start.
\<close>

theorem simNow_mono:
  assumes "0 \<le> a" "a \<le> b" "b \<le> 2 ^ 62" "in_range 0 accel hi" "in_range 0 (f64_of_int b * accel) (2 ^ 62)"
  shows "base \<le> simNow base accel a \<and> simNow base accel a \<le> simNow base accel b"
proof -
  obtain k where k: "accel = Fin k" "0 \<le> k" using assms(4) by (auto simp: in_range_iff)
  have fin: "f64_of_int n = Fin (rnd_val (of_int n))" "0 \<le> rnd_val (of_int n)" if "0 \<le> n" "n \<le> b" for n
  proof -
    have "(of_int n :: rat) \<le> of_int (2 ^ 62)" using that assms(3) by (simp only: of_int_le_iff)
    then have "rnd_val (of_int n) \<le> 2 powi 62"
      using rnd_val_mono [of "of_int n" "2 powi 62"] rnd_val_exact_pos [of "2 powi 62" 1 62] by simp
    then show "f64_of_int n = Fin (rnd_val (of_int n))" unfolding f64_of_int_def using that(1) by (intro rnd_small) simp_all
    show "0 \<le> rnd_val (of_int n)" using that(1) by (simp add: rnd_val_nonneg)
  qed
  define A B where "A = rnd_val (rnd_val (of_int a) * k)" and "B = rnd_val (rnd_val (of_int b) * k)"
  have "rnd_val (of_int a) \<le> rnd_val (of_int b)" using assms(2) by (intro rnd_val_mono) simp
  then have AB: "0 \<le> A" "A \<le> B"
    using k(2) fin(2) [of a] assms by (auto simp: A_def B_def intro!: rnd_val_nonneg rnd_val_mono mult_right_mono)
  obtain y where y: "rnd (rnd_val (of_int b) * k) = Fin y" "y \<le> 2 ^ 62"
    using assms(5) fin(1) [of b] assms(1,2) by (auto simp: k(1) in_range_iff)
  then have B: "y = B" by (auto simp: rnd_def Let_def B_def split: if_splits)
  then have "A \<le> 2 powi 62" using AB y(2) by simp
  then have acc: "f64_of_int a * accel = Fin A" "f64_of_int b * accel = Fin B"
    using fin [of a] fin(1) [of b] assms(1,2) y(1) B k rnd_small [of "rnd_val (of_int a) * k"] by (simp_all add: A_def)
  have "\<lfloor>A\<rfloor> \<le> \<lfloor>B\<rfloor>" "0 \<le> \<lfloor>A\<rfloor>" using AB by (simp_all add: floor_mono)
  moreover have "\<lfloor>B\<rfloor> \<le> 2 ^ 62" using y(2) B by (simp add: floor_le_iff)
  ultimately show ?thesis
    using AB by (simp add: simNow_def acc Let_def go_int64_min_def go_int64_max_def)
qed

theorem simNow_mono_witness:
  "(7 :: int) \<le> simNow 7 (Fin 60) 0 \<and> simNow 7 (Fin 60) 0 \<le> simNow 7 (Fin 60) 1000"
proof -
  have "f64_of_int 1000 = Fin 1000" using f64_of_int_exact [of 1000] by simp
  moreover have "in_range 0 (rnd 60000) 60000" by (rule in_range_rnd) simp_all
  ultimately have "in_range 0 (f64_of_int 1000 * Fin 60) (2 ^ 62)" by (simp add: in_range_iff) (auto intro: order_trans)
  from simNow_mono [OF _ _ _ _ this, of 0 60 7] show ?thesis by (simp add: in_range_iff)
qed

subsection \<open>Peak pricing\<close>

lemma PeakMult_premium: "Fin 1 < tf_PeakMult (tariffByID tid) \<longleftrightarrow> tid = ''peak-rate-v2''"
proof -
  have "representable (5 / 4)"
    unfolding representable_def by (rule exI [of _ 5], rule exI [of _ "- 2"]) (simp add: power_int_def power2_eq_square)
  moreover have "(5 / 4 :: rat) \<le> 2 powi 1000" using powi2_le_iff [of 1 1000] by simp
  ultimately have "anchor (5 / 4)" by (simp add: anchor_def)
  then have "in_range (5 / 4) (rnd (135 / 100)) 2" by (intro in_range_rnd) simp_all
  then obtain x where x: "rnd (27 / 20) = Fin x" "1 < x" by (auto simp: in_range_iff)
  have "in_range (1 / 2) (rnd (80 / 100)) 1" by (intro in_range_rnd) simp_all
  then obtain y where y: "rnd (4 / 5) = Fin y" "y \<le> 1" by (auto simp: in_range_iff)
  show ?thesis
    using x(2) y(2) by (simp add: tariffByID_def indexTariffs_def tariffCatalog_def x(1) y(1) zero_f64)
qed

text \<open>
  A peak-priced stop is a premium: a \<^verbatim>\<open>SESSION_STOP\<close> carries the flag iff it falls in a configured
  peak window and its tariff charges more than its base price there, which of the catalog only
  \<^verbatim>\<open>peak-rate-v2\<close> does; the connector is left without a session, and only without a session the
  stop panics.
\<close>

theorem stopSession_peak_flag:
  "case stopSession R cfg st c now s of None \<Rightarrow> cn_session c = None
   | Some (e, c', s') \<Rightarrow> (IsPeakPriced e \<longleftrightarrow> inPeakWindow (Hour now) cfg \<and> TariffID e = ''peak-rate-v2'')
       \<and> cn_session c' = None \<and> cn_status c' = ''Available''"
  by (simp add: stopSession_def case_prod_beta Let_def PeakMult_premium charge_def split: option.split)

end
