(* ===== verification/DelayQueue.thy ===== *)
theory DelayQueue
  imports Prelude
begin

text \<open>
  \<^verbatim>\<open>simulator/delayqueue.go\<close>: the queue of events held back. \<^verbatim>\<open>container/heap\<close> is the
  standard library's binary heap on a slice, translated with its sift loops; a slice is a list and
  \<^verbatim>\<open>Less\<close> compares \<^verbatim>\<open>fireAt\<close>. The worker and the goroutines that push form a transition system,
  in which a push is two steps (the heap under the lock, then the wake-up signal), as in the code.
  Shown: the heap operations implement a priority queue (a locale, with a multiset as the
  abstraction), \<^verbatim>\<open>popDue\<close> returns exactly the due events in order, no event is lost, duplicated
  or written early, and a parked worker never misses an earlier deadline.
\<close>

record 'm delayedMsg =
  fireAt :: instant
  dmsg :: 'm
  deventType :: string

type_synonym 'm delayHeap = "'m delayedMsg list"

definition Less :: "'m delayHeap \<Rightarrow> nat \<Rightarrow> nat \<Rightarrow> bool" where
  "Less h i j \<longleftrightarrow> fireAt (h ! i) < fireAt (h ! j)"

definition Swap :: "nat \<Rightarrow> nat \<Rightarrow> 'm delayHeap \<Rightarrow> 'm delayHeap" where
  "Swap i j h = h[i := h ! j, j := h ! i]"

subsection \<open>container/heap\<close>

function heap_up :: "nat \<Rightarrow> 'm delayHeap \<Rightarrow> 'm delayHeap" where
  "heap_up j h =
     (let i = (j - 1) div 2
      in if i = j \<or> \<not> Less h j i then h else heap_up i (Swap i j h))"
  by pat_completeness auto
termination by (relation "measure fst") auto

declare heap_up.simps [simp del]

function heap_down :: "nat \<Rightarrow> nat \<Rightarrow> 'm delayHeap \<Rightarrow> 'm delayHeap" where
  "heap_down n i h =
     (let j1 = 2 * i + 1
      in if n \<le> j1 then h
         else let j2 = j1 + 1; j = (if j2 < n \<and> Less h j2 j1 then j2 else j1)
              in if \<not> Less h j i then h else heap_down n j (Swap i j h))"
  by pat_completeness auto
termination by (relation "measure (\<lambda>(n, i, h). n - i)") (auto simp: Let_def split: if_splits)

declare heap_down.simps [simp del]

definition heap_Push :: "'m delayedMsg \<Rightarrow> 'm delayHeap \<Rightarrow> 'm delayHeap" where
  "heap_Push d h = (let h = h @ [d] in heap_up (length h - 1) h)"

text \<open>On an empty heap Go's \<^verbatim>\<open>Pop\<close> panics; the queue never calls it there.\<close>

definition heap_Pop :: "'m delayHeap \<Rightarrow> ('m delayedMsg \<times> 'm delayHeap) option" where
  "heap_Pop h = (if h = [] then None
     else let n = length h - 1; h = heap_down n 0 (Swap 0 n h) in Some (h ! n, take n h))"

subsection \<open>The queue's operations\<close>

definition nextDeadline :: "'m delayHeap \<Rightarrow> instant option" where
  "nextDeadline q = (if q = [] then None else Some (fireAt (q ! 0)))"

lemma length_Swap [simp]: "length (Swap i j h) = length h"
  by (simp add: Swap_def)

lemma length_heap_down [simp]: "length (heap_down n i h) = length h"
  by (induction n i h rule: heap_down.induct) (subst heap_down.simps, simp add: Let_def)

lemma length_heap_up [simp]: "length (heap_up j h) = length h"
  by (induction j h rule: heap_up.induct) (subst heap_up.simps, simp add: Let_def)

lemma heap_Pop_None [simp]: "heap_Pop h = None \<longleftrightarrow> h = []"
  by (simp add: heap_Pop_def Let_def)

lemma heap_Pop_length: "heap_Pop h = Some (d, h') \<Longrightarrow> length h = Suc (length h')"
  by (auto simp: heap_Pop_def Let_def split: if_splits)

function popDue :: "instant \<Rightarrow> 'm delayHeap \<Rightarrow> 'm delayedMsg list \<times> 'm delayHeap" where
  "popDue now q =
     (if q \<noteq> [] \<and> \<not> now < fireAt (q ! 0)
      then (case heap_Pop q of
              None \<Rightarrow> ([], q)
            | Some (d, q') \<Rightarrow> (case popDue now q' of (due, q'') \<Rightarrow> (d # due, q'')))
      else ([], q))"
  by pat_completeness auto
termination by (relation "measure (\<lambda>(now, q). length q)") (auto dest: heap_Pop_length)

declare popDue.simps [simp del]

subsection \<open>The heap property\<close>

definition parent :: "nat \<Rightarrow> nat" where
  "parent i = (i - 1) div 2"

definition ordered_at :: "'m delayHeap \<Rightarrow> nat \<Rightarrow> bool" where
  "ordered_at h i \<longleftrightarrow> fireAt (h ! parent i) \<le> fireAt (h ! i)"

definition heap_upto :: "nat \<Rightarrow> 'm delayHeap \<Rightarrow> bool" where
  "heap_upto n h \<longleftrightarrow> (\<forall>i. 0 < i \<longrightarrow> i < n \<longrightarrow> ordered_at h i)"

abbreviation is_heap :: "'m delayHeap \<Rightarrow> bool" where
  "is_heap h \<equiv> heap_upto (length h) h"

lemma parent_less: "0 < i \<Longrightarrow> parent i < i"
  by (auto simp: parent_def)

lemma parent_le: "parent i \<le> i"
  by (auto simp: parent_def)

lemma parent_fix: "parent i = i \<longleftrightarrow> i = 0"
  by (auto simp: parent_def)

lemma parent_child: "0 < k \<Longrightarrow> parent k = i \<longleftrightarrow> k = 2 * i + 1 \<or> k = 2 * i + 2"
  by (auto simp: parent_def)

lemma heap_uptoD: "heap_upto n h \<Longrightarrow> 0 < i \<Longrightarrow> i < n \<Longrightarrow> fireAt (h ! parent i) \<le> fireAt (h ! i)"
  by (simp add: heap_upto_def ordered_at_def)

lemma heap_root_min: "heap_upto n h \<Longrightarrow> i < n \<Longrightarrow> fireAt (h ! 0) \<le> fireAt (h ! i)"
proof (induction i rule: less_induct)
  case (less i)
  show ?case
  proof (cases "i = 0")
    case False
    then have p: "parent i < i" by (simp add: parent_less)
    then have "fireAt (h ! 0) \<le> fireAt (h ! parent i)" using less by simp
    also have "\<dots> \<le> fireAt (h ! i)" using less.prems False by (simp add: heap_uptoD)
    finally show ?thesis .
  qed simp
qed

lemma mset_Swap: "i < length h \<Longrightarrow> j < length h \<Longrightarrow> mset (Swap i j h) = mset h"
  unfolding Swap_def by (simp add: mset_swap)

lemma nth_Swap:
  "i < length h \<Longrightarrow> j < length h \<Longrightarrow> k < length h \<Longrightarrow>
     Swap i j h ! k = (if k = i then h ! j else if k = j then h ! i else h ! k)"
  by (simp add: Swap_def nth_list_update)

text \<open>The sift loops, unfolded once, over \<^const>\<open>parent\<close>.\<close>

lemma heap_up_stop: "j = 0 \<or> ordered_at h j \<Longrightarrow> heap_up j h = h"
  by (subst heap_up.simps) (auto simp: Let_def Less_def ordered_at_def parent_def)

lemma heap_up_step:
  "0 < j \<Longrightarrow> \<not> ordered_at h j \<Longrightarrow> heap_up j h = heap_up (parent j) (Swap (parent j) j h)"
  by (subst heap_up.simps) (auto simp: Let_def Less_def ordered_at_def parent_def)

lemma mset_heap_up: "j < length h \<Longrightarrow> mset (heap_up j h) = mset h"
proof (induction j arbitrary: h rule: less_induct)
  case (less j)
  show ?case
  proof (cases "j = 0 \<or> ordered_at h j")
    case False
    then have p: "parent j < j" by (simp add: parent_less)
    then show ?thesis using less False by (simp add: heap_up_step mset_Swap)
  qed (simp add: heap_up_stop)
qed

text \<open>Sifting up: the heap is in order except between \<open>j\<close> and its parent.\<close>

definition up_inv :: "'m delayHeap \<Rightarrow> nat \<Rightarrow> bool" where
  "up_inv h j \<longleftrightarrow> (\<forall>i. 0 < i \<longrightarrow> i < length h \<longrightarrow> i \<noteq> j \<longrightarrow> ordered_at h i)
     \<and> (\<forall>c. 0 < j \<longrightarrow> 0 < c \<longrightarrow> c < length h \<longrightarrow> parent c = j \<longrightarrow> fireAt (h ! parent j) \<le> fireAt (h ! c))"

lemma up_inv_swap:
  assumes "up_inv h j" "j < length h" "0 < j" "\<not> ordered_at h j"
  shows "up_inv (Swap (parent j) j h) (parent j)"
proof -
  let ?p = "parent j" and ?h = "Swap (parent j) j h"
  have p: "?p < length h" "?p < j" using assms(2) parent_less [OF assms(3)] by auto
  note nth = nth_Swap [OF p(1) assms(2)]
  have lt: "fireAt (h ! j) < fireAt (h ! ?p)" using assms(4) by (simp add: ordered_at_def)
  have ord: "fireAt (h ! parent i) \<le> fireAt (h ! i)" if "0 < i" "i < length h" "i \<noteq> j" for i
    using assms(1) that by (auto simp: up_inv_def ordered_at_def)
  have ch: "fireAt (h ! ?p) \<le> fireAt (h ! c)" if "0 < c" "c < length h" "parent c = j" for c
    using assms(1,3) that by (auto simp: up_inv_def)
  have 1: "ordered_at ?h i" if i: "0 < i" "i < length h" "i \<noteq> ?p" for i
  proof (cases "i = j")
    case True
    then show ?thesis using p lt assms(2) by (simp add: ordered_at_def nth)
  next
    case False
    have pi: "parent i < length h" using i parent_le [of i] by linarith
    show ?thesis
      using ord [of i] ch [of i] i False pi lt p(2) by (auto simp: ordered_at_def nth)
  qed
  have 2: "fireAt (?h ! parent ?p) \<le> fireAt (?h ! c)" if c: "0 < ?p" "0 < c" "c < length h" "parent c = ?p" for c
  proof -
    have "parent ?p < ?p" "?p < c" using parent_less [OF c(1)] parent_less [OF c(2)] c(4) by auto
    then have pp: "parent ?p < length h" "parent ?p \<noteq> ?p" "parent ?p \<noteq> j" "c \<noteq> ?p" using p c by auto
    have up: "fireAt (h ! parent ?p) \<le> fireAt (h ! ?p)" using ord [of ?p] c(1) p by simp
    show ?thesis using ord [of c] c pp up by (auto simp: nth)
  qed
  show ?thesis using 1 2 by (simp add: up_inv_def)
qed

lemma heap_up_heap: "up_inv h j \<Longrightarrow> j < length h \<Longrightarrow> is_heap (heap_up j h)"
proof (induction j arbitrary: h rule: less_induct)
  case (less j)
  show ?case
  proof (cases "j = 0 \<or> ordered_at h j")
    case True
    then show ?thesis using less.prems by (auto simp: heap_up_stop heap_upto_def up_inv_def)
  next
    case False
    then have p: "parent j < j" by (simp add: parent_less)
    then show ?thesis using less.IH [OF p up_inv_swap [OF less.prems]] False less.prems
      by (simp add: heap_up_step)
  qed
qed

text \<open>Sifting down the first \<open>n\<close> cells: in order except between \<open>i\<close> and its children.\<close>

definition down_inv :: "nat \<Rightarrow> 'm delayHeap \<Rightarrow> nat \<Rightarrow> bool" where
  "down_inv n h i \<longleftrightarrow> (\<forall>k. 0 < k \<longrightarrow> k < n \<longrightarrow> parent k \<noteq> i \<longrightarrow> ordered_at h k)
     \<and> (\<forall>k. 0 < i \<longrightarrow> 0 < k \<longrightarrow> k < n \<longrightarrow> parent k = i \<longrightarrow> fireAt (h ! parent i) \<le> fireAt (h ! k))"

definition least_child :: "nat \<Rightarrow> 'm delayHeap \<Rightarrow> nat \<Rightarrow> nat" where
  "least_child n h i = 
     (if 2 * i + 1 + 1 < n \<and> Less h (2 * i + 1 + 1) (2 * i + 1) then 2 * i + 1 + 1 else 2 * i + 1)"

lemma least_child:
  assumes "2 * i + 1 < n"
  shows "least_child n h i < n" "parent (least_child n h i) = i" "i < least_child n h i"
  using assms by (auto simp: least_child_def parent_def)

lemma least_child_le:
  "2 * i + 1 < n \<Longrightarrow> 0 < k \<Longrightarrow> k < n \<Longrightarrow> parent k = i \<Longrightarrow>
     fireAt (h ! least_child n h i) \<le> fireAt (h ! k)"
  by (auto simp: least_child_def Less_def parent_child)

lemma heap_down_unfold:
  "heap_down n i h =
     (if n \<le> 2 * i + 1 then h
      else if \<not> Less h (least_child n h i) i then h
      else heap_down n (least_child n h i) (Swap i (least_child n h i) h))"
  by (subst heap_down.simps) (simp only: Let_def least_child_def)

lemma heap_down_stop:
  "n \<le> 2 * i + 1 \<or> ordered_at h (least_child n h i) \<Longrightarrow> heap_down n i h = h"
proof (cases "n \<le> 2 * i + 1")
  case False
  assume "n \<le> 2 * i + 1 \<or> ordered_at h (least_child n h i)"
  then have "\<not> Less h (least_child n h i) i"
    using False least_child(2) [of i n h] by (simp add: ordered_at_def Less_def)
  then show ?thesis using False by (subst heap_down_unfold) simp
qed (subst heap_down.simps, simp)

lemma heap_down_step:
  assumes "2 * i + 1 < n" "\<not> ordered_at h (least_child n h i)"
  shows "heap_down n i h = heap_down n (least_child n h i) (Swap i (least_child n h i) h)"
proof -
  have "Less h (least_child n h i) i"
    using assms least_child(2) [of i n h] by (simp add: ordered_at_def Less_def)
  then show ?thesis using assms(1) by (subst heap_down_unfold) simp
qed

lemma down_inv_swap:
  assumes inv: "down_inv n h i" and n: "n \<le> length h" "2 * i + 1 < n"
    and less: "\<not> ordered_at h (least_child n h i)"
  shows "down_inv n (Swap i (least_child n h i) h) (least_child n h i)"
proof -
  let ?j = "least_child n h i" and ?h = "Swap i (least_child n h i) h"
  note j = least_child [OF n(2), of h] and le = least_child_le [OF n(2), of _ h]
  have len: "i < length h" "?j < length h" using j n by auto
  note nth = nth_Swap [OF len]
  have lt: "fireAt (h ! ?j) < fireAt (h ! i)" using less j(2) by (simp add: ordered_at_def)
  have ord: "fireAt (h ! parent k) \<le> fireAt (h ! k)" if "0 < k" "k < n" "parent k \<noteq> i" for k
    using inv that by (simp add: down_inv_def ordered_at_def)
  have 1: "ordered_at ?h k" if k: "0 < k" "k < n" "parent k \<noteq> ?j" for k
  proof -
    have pk: "parent k < length h" "k < length h" "parent k < k"
      using k n parent_less [OF k(1)] by auto
    show ?thesis
    proof (cases "parent k = i")
      case True
      then show ?thesis using pk le [OF k(1,2)] lt by (auto simp: ordered_at_def nth)
    next
      case False
      have "fireAt (h ! parent i) \<le> fireAt (h ! ?j)" if "0 < i" using inv that j by (simp add: down_inv_def)
      then show ?thesis using False pk k j ord [OF k(1,2) False] by (auto simp: ordered_at_def nth)
    qed
  qed
  have 2: "fireAt (?h ! parent ?j) \<le> fireAt (?h ! k)" if k: "0 < k" "k < n" "parent k = ?j" for k
  proof -
    have "?j < k" using parent_less [OF k(1)] k(3) by simp
    then show ?thesis using ord [OF k(1,2)] k j n len by (auto simp: nth)
  qed
  show ?thesis using 1 2 by (simp add: down_inv_def)
qed

lemma heap_down_correct:
  "down_inv n h i \<Longrightarrow> n \<le> length h \<Longrightarrow> heap_upto n (heap_down n i h) \<and> mset (heap_down n i h) = mset h
     \<and> (\<forall>k. n \<le> k \<longrightarrow> k < length h \<longrightarrow> heap_down n i h ! k = h ! k)"
proof (induction "n - i" arbitrary: i h rule: less_induct)
  case less
  show ?case
  proof (cases "n \<le> 2 * i + 1 \<or> ordered_at h (least_child n h i)")
    case True
    have "ordered_at h k" if k: "0 < k" "k < n" for k
    proof (cases "parent k = i")
      case True': True
      then have n: "2 * i + 1 < n" using k by (auto simp: parent_child)
      then have "ordered_at h (least_child n h i)" using True by simp
      then show ?thesis using least_child(2) [OF n, of h] least_child_le [OF n k True', of h] True'
        by (simp add: ordered_at_def)
    qed (use less.prems k in \<open>simp add: down_inv_def\<close>)
    then show ?thesis using True by (simp add: heap_down_stop heap_upto_def)
  next
    case False
    then have n: "2 * i + 1 < n" by simp
    note j = least_child [OF n, of h]
    show ?thesis
      using less.hyps [of "least_child n h i" "Swap i (least_child n h i) h"] less.prems n j False
        down_inv_swap [OF less.prems n]
      by (simp add: heap_down_step mset_Swap nth_Swap)
  qed
qed

subsection \<open>A priority queue\<close>

text \<open>
  The contract of \<^verbatim>\<open>container/heap\<close>: the queue is a multiset, \<open>delmin\<close> removes one of its
  least elements, \<open>peek\<close> shows its key.
\<close>

locale pqueue =
  fixes invar :: "'q \<Rightarrow> bool" and bag :: "'q \<Rightarrow> 'e multiset" and key :: "'e \<Rightarrow> 'k::linorder"
    and insrt :: "'e \<Rightarrow> 'q \<Rightarrow> 'q" and delmin :: "'q \<Rightarrow> ('e \<times> 'q) option" and peek :: "'q \<Rightarrow> 'k option"
  assumes invar_insrt: "invar q \<Longrightarrow> invar (insrt e q)"
    and bag_insrt: "invar q \<Longrightarrow> bag (insrt e q) = add_mset e (bag q)"
    and delmin_None: "delmin q = None \<longleftrightarrow> bag q = {#}"
    and delmin_invar: "invar q \<Longrightarrow> delmin q = Some (e, q') \<Longrightarrow> invar q'"
    and delmin_bag: "invar q \<Longrightarrow> delmin q = Some (e, q') \<Longrightarrow> bag q = add_mset e (bag q')"
    and delmin_min: "invar q \<Longrightarrow> delmin q = Some (e, q') \<Longrightarrow> f \<in># bag q \<Longrightarrow> key e \<le> key f"
    and peek_delmin: "invar q \<Longrightarrow> peek q = map_option (\<lambda>(e, _). key e) (delmin q)"
begin

lemma peek_min: "invar q \<Longrightarrow> e \<in># bag q \<Longrightarrow> \<exists>k. peek q = Some k \<and> k \<le> key e"
  using delmin_None [of q] delmin_min [of q] by (cases "delmin q") (auto simp: peek_delmin)

lemma peek_in: "invar q \<Longrightarrow> peek q = Some k \<Longrightarrow> \<exists>e. e \<in># bag q \<and> key e = k"
  using delmin_bag [of q] by (fastforce simp: peek_delmin)

end

text \<open>A client that extracts while the least key is at most a bound.\<close>

locale pqueue_drain = pqueue invar bag key insrt delmin peek
  for invar :: "'q \<Rightarrow> bool" and bag :: "'q \<Rightarrow> 'e multiset" and key :: "'e \<Rightarrow> 'k::linorder"
    and insrt :: "'e \<Rightarrow> 'q \<Rightarrow> 'q" and delmin :: "'q \<Rightarrow> ('e \<times> 'q) option" and peek :: "'q \<Rightarrow> 'k option" +
  fixes drain :: "'k \<Rightarrow> 'q \<Rightarrow> 'e list \<times> 'q"
  assumes drain_stop: "invar q \<Longrightarrow> (\<And>k. peek q = Some k \<Longrightarrow> b < k) \<Longrightarrow> drain b q = ([], q)"
    and drain_step: "invar q \<Longrightarrow> delmin q = Some (e, q') \<Longrightarrow> key e \<le> b \<Longrightarrow>
      drain b q = (case drain b q' of (es, q'') \<Rightarrow> (e # es, q''))"
begin

lemma drain_correct:
  "invar q \<Longrightarrow> drain b q = (es, q') \<Longrightarrow>
     invar q' \<and> bag q = mset es + bag q' \<and> sorted (map key es)
     \<and> (\<forall>e\<in>set es. key e \<le> b) \<and> (\<forall>e. e \<in># bag q' \<longrightarrow> b < key e)"
proof (induction "size (bag q)" arbitrary: q es rule: less_induct)
  case less
  show ?case
  proof (cases "delmin q")
    case None
    then have "drain b q = ([], q)" using less.prems(1) by (intro drain_stop) (auto simp: peek_delmin)
    then show ?thesis using None less.prems by (auto simp: delmin_None)
  next
    case (Some x)
    obtain e q1 where x: "delmin q = Some (e, q1)" using Some by (cases x) auto
    note q1 = delmin_invar [OF less.prems(1) x] delmin_bag [OF less.prems(1) x]
    note le = delmin_min [OF less.prems(1) x]
    show ?thesis
    proof (cases "key e \<le> b")
      case False
      then have "es = []" "q' = q"
        using less.prems drain_stop [of q b] by (auto simp: peek_delmin x)
      then show ?thesis using False le less.prems(1) by (auto simp: not_le intro: less_le_trans)
    next
      case True
      obtain fs where d: "drain b q1 = (fs, q')" "es = e # fs"
        using less.prems(2) drain_step [OF less.prems(1) x True] by (auto split: prod.splits)
      have "size (bag q1) < size (bag q)" by (simp add: q1)
      note IH = less.hyps [OF this q1(1) d(1)]
      have "key e \<le> key f" if "f \<in> set fs" for f using le [of f] IH that by (auto simp: q1)
      then show ?thesis using IH True d q1(2) by auto
    qed
  qed
qed

end

lemma up_inv_snoc: "is_heap h \<Longrightarrow> up_inv (h @ [d]) (length h)"
proof -
  assume h: "is_heap h"
  have "ordered_at (h @ [d]) i" if "0 < i" "i < length h" for i
    using h that parent_less [OF that(1)] by (simp add: heap_upto_def ordered_at_def nth_append)
  moreover have "parent c \<noteq> length h" if "0 < c" "c < Suc (length h)" for c
    using parent_less [OF that(1)] that(2) by simp
  ultimately show ?thesis by (simp add: up_inv_def)
qed

lemma heap_Push_heap: "is_heap h \<Longrightarrow> is_heap (heap_Push d h)"
  using heap_up_heap [OF up_inv_snoc] by (simp add: heap_Push_def)

lemma heap_Push_mset: "mset (heap_Push d h) = add_mset d (mset h)"
  by (simp add: heap_Push_def mset_heap_up)

lemma down_inv_root: "is_heap h \<Longrightarrow> h \<noteq> [] \<Longrightarrow> down_inv (length h - 1) (Swap 0 (length h - 1) h) 0"
proof -
  assume h: "is_heap h" "h \<noteq> []"
  have "ordered_at (Swap 0 (length h - 1) h) k" if "0 < k" "k < length h - 1" "parent k \<noteq> 0" for k
    using heap_uptoD [OF h(1) that(1)] that parent_less [OF that(1)] h(2)
    by (simp add: ordered_at_def nth_Swap)
  then show ?thesis by (simp add: down_inv_def)
qed

lemma heap_Pop_correct:
  assumes h: "is_heap h" and p: "heap_Pop h = Some (d, h')"
  shows "is_heap h' \<and> d = h ! 0 \<and> mset h = add_mset d (mset h')"
proof -
  define n where "n = length h - 1"
  define g where "g = heap_down n 0 (Swap 0 n h)"
  have ne: "h \<noteq> []" and d: "d = g ! n" "h' = take n g"
    using p by (auto simp: heap_Pop_def Let_def n_def g_def split: if_splits)
  then have n: "n < length h" "length h = Suc n" by (auto simp: n_def)
  have c: "heap_upto n g" "mset g = mset h" "g ! n = h ! 0"
    using heap_down_correct [OF down_inv_root [OF h ne]] n ne
    by (auto simp: g_def n_def [symmetric] mset_Swap nth_Swap)
  have len: "length g = Suc n" by (simp add: g_def n)
  then have "mset g = mset (take n g @ [g ! n])" by (simp add: take_Suc_conv_app_nth [symmetric])
  then have "mset g = add_mset (g ! n) (mset (take n g))" by simp
  moreover have "ordered_at (take n g) i" if "0 < i" "i < n" for i
    using heap_uptoD [OF c(1) that] parent_less [OF that(1)] that by (simp add: ordered_at_def)
  then have "heap_upto n (take n g)" by (simp add: heap_upto_def)
  ultimately show ?thesis using c d len by simp
qed

interpretation dheap: pqueue is_heap mset fireAt heap_Push heap_Pop nextDeadline
proof
  show "heap_Pop q = None \<longleftrightarrow> mset q = {#}" for q :: "'m delayHeap"
    by simp
  show "fireAt e \<le> fireAt f" if a: "is_heap q" "heap_Pop q = Some (e, q')" "f \<in># mset q"
    for q :: "'m delayHeap" and e q' f
  proof -
    obtain k where "k < length q" "f = q ! k" using a(3) by (auto simp: in_set_conv_nth)
    then show ?thesis using heap_root_min [OF a(1)] heap_Pop_correct [OF a(1,2)] by simp
  qed
  show "nextDeadline q = map_option (\<lambda>(e, _). fireAt e) (heap_Pop q)" if "is_heap q" for q :: "'m delayHeap"
    using heap_Pop_correct [OF that] by (cases "heap_Pop q") (auto simp: nextDeadline_def)
qed (use heap_Push_heap heap_Push_mset heap_Pop_correct in blast)+

interpretation dqueue: pqueue_drain is_heap mset fireAt heap_Push heap_Pop nextDeadline popDue
proof
  show "popDue b q = ([], q)" if "is_heap q" "\<And>k. nextDeadline q = Some k \<Longrightarrow> b < k" for q :: "'m delayHeap" and b
    using that(2) by (subst popDue.simps) (auto simp: nextDeadline_def)
  show "popDue b q = (case popDue b q' of (es, q'') \<Rightarrow> (e # es, q''))"
    if "is_heap q" "heap_Pop q = Some (e, q')" "fireAt e \<le> b" for q :: "'m delayHeap" and e q' b
    using that heap_Pop_correct [OF that(1,2)] by (subst popDue.simps) auto
qed

text \<open>
  C28:  \<^verbatim>\<open>popDue\<close> on a heap returns every event due at \<open>now\<close>, earliest first, keeps the later ones
  on a heap, and loses and duplicates nothing.
\<close>

theorem popDue_correct:
  assumes "is_heap q"
  shows "let (due, q') = popDue now q
         in is_heap q' \<and> mset q = mset due + mset q' \<and> sorted (map fireAt due)
            \<and> mset due = filter_mset (\<lambda>d. fireAt d \<le> now) (mset q)
            \<and> mset q' = filter_mset (\<lambda>d. now < fireAt d) (mset q)"
proof -
  obtain due q' where d: "popDue now q = (due, q')" by fastforce
  note c = dqueue.drain_correct [OF assms d]
  have "filter_mset (\<lambda>d. fireAt d \<le> now) (mset due) = mset due"
    "filter_mset (\<lambda>d. now < fireAt d) (mset q') = mset q'"
    using c by (auto simp: filter_mset_eq_conv)
  moreover have "filter_mset (\<lambda>d. fireAt d \<le> now) (mset q') = {#}"
    "filter_mset (\<lambda>d. now < fireAt d) (mset due) = {#}"
    using c by (auto simp: multiset_eq_iff not_in_iff leD not_le count_eq_zero_iff)
  ultimately show ?thesis using c d by simp
qed

definition demo_delayed :: "instant \<Rightarrow> unit delayedMsg" where
  "demo_delayed t = \<lparr>fireAt = t, dmsg = (), deventType = ''METER_UPDATE''\<rparr>"

lemma heap_upto_code [code]: "heap_upto n h \<longleftrightarrow> list_all (ordered_at h) [1..<n]"
  by (auto simp: heap_upto_def list_all_iff)

theorem popDue_correct_witness:
  "is_heap (map demo_delayed [1, 3, 2]) \<and> map fireAt (fst (popDue 2 (map demo_delayed [1, 3, 2]))) = [1, 2]
   \<and> mset (snd (popDue 2 (map demo_delayed [1, 3, 2])))
     = filter_mset (\<lambda>d. 2 < fireAt d) (mset (map demo_delayed [1, 3, 2]))"
proof -
  have h: "is_heap (map demo_delayed [1, 3, 2])" by code_simp
  have "map fireAt (fst (popDue 2 (map demo_delayed [1, 3, 2]))) = [1, 2]" by code_simp
  with h show ?thesis using popDue_correct [OF h, of 2] unfolding Let_def case_prod_beta by blast
qed

subsection \<open>The worker\<close>

text \<open>
  One worker goroutine and any number of pushing ones. A push takes the lock for the heap, then
  signals after unlocking; \<open>signals\<close> counts the pushes between the two. The worker reads the
  earliest deadline, re-arms or stops its timer, parks in the select, and goes on when the wake
  channel has a token or the timer fires; \<open>written\<close> records each write with the clock.
\<close>

datatype 'm dqPhase = Top | Read "instant option" | Parked | Writing "'m delayedMsg list" | Returned

record 'm delayQueue =
  dq_h :: "'m delayHeap"
  dq_wake :: bool
  dq_signals :: nat
  dq_timer :: "instant option"
  dq_phase :: "'m dqPhase"
  dq_clock :: instant
  dq_pushed :: "'m delayedMsg list"
  dq_written :: "(instant \<times> 'm delayedMsg) list"

definition newDelayQueue :: "instant \<Rightarrow> 'm delayQueue" where
  "newDelayQueue now = \<lparr>dq_h = [], dq_wake = False, dq_signals = 0, dq_timer = Some (now + 3600000000000),
     dq_phase = Top, dq_clock = now, dq_pushed = [], dq_written = []\<rparr>"

inductive dq_push :: "'m delayQueue \<Rightarrow> 'm delayQueue \<Rightarrow> bool" where
  push_heap: "dq_push q (q\<lparr>dq_h := heap_Push d (dq_h q), dq_signals := Suc (dq_signals q),
     dq_pushed := dq_pushed q @ [d]\<rparr>)"
| push_signal: "dq_signals q = Suc n \<Longrightarrow> dq_push q (q\<lparr>dq_signals := n, dq_wake := True\<rparr>)"

inductive dq_worker :: "'m delayQueue \<Rightarrow> 'm delayQueue \<Rightarrow> bool" where
  read: "dq_phase q = Top \<Longrightarrow> dq_worker q (q\<lparr>dq_phase := Read (nextDeadline (dq_h q))\<rparr>)"
| arm: "dq_phase q = Read dl \<Longrightarrow> dq_worker q (q\<lparr>dq_timer := dl, dq_phase := Parked\<rparr>)"
| woke: "dq_phase q = Parked \<Longrightarrow> dq_wake q \<Longrightarrow> dq_worker q (q\<lparr>dq_wake := False, dq_phase := Top\<rparr>)"
| fired: "dq_phase q = Parked \<Longrightarrow> dq_timer q = Some dl \<Longrightarrow> dl \<le> dq_clock q \<Longrightarrow>
    popDue (dq_clock q) (dq_h q) = (due, h') \<Longrightarrow>
    dq_worker q (q\<lparr>dq_h := h', dq_timer := None, dq_phase := Writing due\<rparr>)"
| write_one: "dq_phase q = Writing (d # ds) \<Longrightarrow>
    dq_worker q (q\<lparr>dq_phase := Writing ds, dq_written := dq_written q @ [(dq_clock q, d)]\<rparr>)"
| write_end: "dq_phase q = Writing [] \<Longrightarrow> dq_worker q (q\<lparr>dq_phase := Top\<rparr>)"

inductive dq_env :: "'m delayQueue \<Rightarrow> 'm delayQueue \<Rightarrow> bool" where
  tick: "dq_clock q \<le> t \<Longrightarrow> dq_env q (q\<lparr>dq_clock := t\<rparr>)"
| cancel: "dq_phase q = Parked \<Longrightarrow> dq_env q (q\<lparr>dq_phase := Returned\<rparr>)"

inductive dq_reach :: "instant \<Rightarrow> 'm delayQueue \<Rightarrow> bool" for now where
  dq_start: "dq_reach now (newDelayQueue now)"
| dq_next: "dq_reach now q \<Longrightarrow> dq_push q q' \<or> dq_worker q q' \<or> dq_env q q' \<Longrightarrow> dq_reach now q'"

fun in_flight :: "'m dqPhase \<Rightarrow> 'm delayedMsg list" where
  "in_flight (Writing ds) = ds"
| "in_flight _ = []"

fun sees :: "'m delayQueue \<Rightarrow> instant option \<Rightarrow> bool" where
  "sees q dl \<longleftrightarrow> dq_wake q \<or> 0 < dq_signals q \<or> dl = nextDeadline (dq_h q)"

definition dq_inv :: "'m delayQueue \<Rightarrow> bool" where
  "dq_inv q \<longleftrightarrow> is_heap (dq_h q)
     \<and> mset (dq_pushed q) = mset (dq_h q) + mset (in_flight (dq_phase q)) + mset (map snd (dq_written q))
     \<and> (\<forall>(t, d)\<in>set (dq_written q). fireAt d \<le> t)
     \<and> (\<forall>d\<in>set (in_flight (dq_phase q)). fireAt d \<le> dq_clock q)
     \<and> (dq_phase q = Parked \<longrightarrow> sees q (dq_timer q))
     \<and> (\<forall>dl. dq_phase q = Read dl \<longrightarrow> sees q dl)"

lemma dq_inv_init: "dq_inv (newDelayQueue now)"
  by (simp add: dq_inv_def newDelayQueue_def heap_upto_def)

lemma dq_inv_push: "dq_push q q' \<Longrightarrow> dq_inv q \<Longrightarrow> dq_inv q'"
  by (induction rule: dq_push.induct) (auto simp: dq_inv_def heap_Push_heap heap_Push_mset)

lemma dq_inv_env: "dq_env q q' \<Longrightarrow> dq_inv q \<Longrightarrow> dq_inv q'"
  by (induction rule: dq_env.induct) (auto simp: dq_inv_def)

lemma dq_inv_worker: "dq_worker q q' \<Longrightarrow> dq_inv q \<Longrightarrow> dq_inv q'"
proof (induction rule: dq_worker.induct)
  case (fired q dl due h')
  then have "is_heap (dq_h q)" by (simp add: dq_inv_def)
  then show ?case using dqueue.drain_correct [OF _ fired.hyps(4)] fired by (simp add: dq_inv_def)
qed (auto simp: dq_inv_def)

lemma dq_reach_inv: "dq_reach now q \<Longrightarrow> dq_inv q"
  by (induction rule: dq_reach.induct) (auto intro: dq_inv_init dest: dq_inv_push dq_inv_env dq_inv_worker)

subsection \<open>What the worker guarantees\<close>

text \<open>
  C27:  in every reachable state each pushed event is exactly once on the heap, in the batch being
  written or written, and none was written before its \<^verbatim>\<open>fireAt\<close>.
\<close>

theorem delayed_exactly_once:
  assumes "dq_reach now q"
  shows "mset (dq_pushed q) = mset (dq_h q) + mset (in_flight (dq_phase q)) + mset (map snd (dq_written q))
     \<and> (\<forall>(t, d)\<in>set (dq_written q). fireAt d \<le> t)"
  using dq_reach_inv [OF assms] by (simp add: dq_inv_def)

text \<open>The steps of a run, for the witnesses: one push, signalled, written when due.\<close>

definition demo_pushed :: "unit delayQueue" where
  "demo_pushed = (newDelayQueue 0)\<lparr>dq_h := [demo_delayed 5], dq_signals := 1, dq_pushed := [demo_delayed 5]\<rparr>"

definition demo_parked :: "unit delayQueue" where
  "demo_parked = demo_pushed\<lparr>dq_signals := 0, dq_wake := True, dq_timer := None, dq_phase := Parked\<rparr>"

definition demo_due :: "unit delayQueue" where
  "demo_due = demo_parked\<lparr>dq_clock := 6\<rparr>"

lemma demo_parked_reach: "dq_reach 0 demo_parked"
proof -
  have "dq_reach 0 ((newDelayQueue 0 :: unit delayQueue)\<lparr>dq_phase := Read None\<rparr>)" (is "dq_reach 0 ?a")
    using dq_worker.read [of "newDelayQueue 0"] by (intro dq_next [OF dq_start] disjI2 disjI1) (simp add: newDelayQueue_def nextDeadline_def)
  then have "dq_reach 0 (?a\<lparr>dq_timer := None, dq_phase := Parked\<rparr>)" (is "dq_reach 0 ?b")
    by (rule dq_next) (rule disjI2, rule disjI1, rule dq_worker.arm, simp)
  then have "dq_reach 0 (?b\<lparr>dq_h := heap_Push (demo_delayed 5) (dq_h ?b), dq_signals := Suc (dq_signals ?b),
     dq_pushed := dq_pushed ?b @ [demo_delayed 5]\<rparr>)" (is "dq_reach 0 ?c")
    by (rule dq_next) (rule disjI1, rule dq_push.push_heap)
  then have "dq_reach 0 (?c\<lparr>dq_signals := 0, dq_wake := True\<rparr>)"
    by (rule dq_next) (rule disjI1, rule dq_push.push_signal, simp add: newDelayQueue_def)
  moreover have "heap_Push (demo_delayed 5) [] = [demo_delayed 5]"
    by (simp add: heap_Push_def heap_up_stop)
  ultimately show ?thesis by (simp add: demo_parked_def demo_pushed_def newDelayQueue_def)
qed

lemma demo_due_reach: "dq_reach 0 demo_due"
  using dq_env.tick [of demo_parked 6]
  by (intro dq_next [OF demo_parked_reach] disjI2) (simp add: demo_due_def demo_parked_def demo_pushed_def newDelayQueue_def)

lemmas demo_dq_simps = demo_due_def demo_parked_def demo_pushed_def newDelayQueue_def

theorem delayed_exactly_once_witness: "mset (dq_pushed demo_due) = {#demo_delayed 5#} + {#} + {#}"
  using delayed_exactly_once [OF demo_due_reach] by (simp add: demo_dq_simps)

text \<open>
   no wake-up is lost. While the worker is parked and an event waits on the heap, either its
  wake channel holds a token, or a push is about to signal, or its timer is armed for that event's
  \<^verbatim>\<open>fireAt\<close> or earlier.
\<close>

theorem worker_never_oversleeps:
  assumes "dq_reach now q" "dq_phase q = Parked" "d \<in> set (dq_h q)"
  shows "dq_wake q \<or> 0 < dq_signals q \<or> (\<exists>t. dq_timer q = Some t \<and> t \<le> fireAt d)"
  using dq_reach_inv [OF assms(1)] dheap.peek_min [of "dq_h q" d] assms(2,3) by (auto simp: dq_inv_def)

theorem worker_never_oversleeps_witness: "demo_delayed 5 \<in> set (dq_h demo_parked) \<and> dq_wake demo_parked"
  using worker_never_oversleeps [OF demo_parked_reach, of "demo_delayed 5"] by (simp add: demo_dq_simps)

text \<open>A measure that every step of the worker decreases.\<close>

definition due_count :: "'m delayQueue \<Rightarrow> nat" where
  "due_count q = length (filter (\<lambda>d. fireAt d \<le> dq_clock q) (dq_h q))"

definition is_due :: "instant \<Rightarrow> instant option \<Rightarrow> bool" where
  "is_due now dl \<longleftrightarrow> (case dl of None \<Rightarrow> False | Some t \<Rightarrow> t \<le> now)"

fun timer_rank :: "'m delayQueue \<Rightarrow> 'm dqPhase \<Rightarrow> nat" where
  "timer_rank q Parked = of_bool (is_due (dq_clock q) (dq_timer q))"
| "timer_rank q (Read dl) = of_bool (is_due (dq_clock q) dl)"
| "timer_rank q _ = of_bool (0 < due_count q)"

fun phase_rank :: "'m dqPhase \<Rightarrow> nat" where
  "phase_rank (Writing ds) = 3 + length ds"
| "phase_rank Top = 2"
| "phase_rank (Read _) = 1"
| "phase_rank _ = 0"

definition worker_rank :: "'m delayQueue \<Rightarrow> nat \<times> nat \<times> nat \<times> nat" where
  "worker_rank q = (of_bool (dq_wake q), due_count q, timer_rank q (dq_phase q), phase_rank (dq_phase q))"

abbreviation rank_less :: "((nat \<times> nat \<times> nat \<times> nat) \<times> (nat \<times> nat \<times> nat \<times> nat)) set" where
  "rank_less \<equiv> less_than <*lex*> less_than <*lex*> less_than <*lex*> less_than"

lemma due_count_0: "due_count q = 0 \<longleftrightarrow> (\<forall>d\<in>set (dq_h q). dq_clock q < fireAt d)"
  by (auto simp: due_count_def filter_empty_conv not_le)

lemma is_due_next: "is_heap (dq_h q) \<Longrightarrow> is_due (dq_clock q) (nextDeadline (dq_h q)) \<longleftrightarrow> 0 < due_count q"
  using dheap.peek_in [of "dq_h q"] dheap.peek_min [of "dq_h q"] due_count_0 [of q]
  by (fastforce simp: is_due_def split: option.splits)

lemma worker_step_rank: "dq_worker q q' \<Longrightarrow> dq_inv q \<Longrightarrow> (worker_rank q', worker_rank q) \<in> rank_less"
proof (induction rule: dq_worker.induct)
  case (read q)
  then show ?case
    using is_due_next [of q] by (simp add: worker_rank_def dq_inv_def due_count_def)
next
  case (fired q dl due h')
  then have h: "is_heap (dq_h q)" by (simp add: dq_inv_def)
  note d = dqueue.drain_correct [OF h fired.hyps(4)]
  then have "due_count (q\<lparr>dq_h := h', dq_timer := None, dq_phase := Writing due\<rparr>) = 0"
    by (auto simp: due_count_0)
  then show ?case using fired.hyps by (auto simp: worker_rank_def is_due_def)
qed (auto simp: worker_rank_def due_count_def is_due_def)

lemma worker_run_inv: "dq_worker\<^sup>*\<^sup>* q q' \<Longrightarrow> dq_inv q \<Longrightarrow> dq_inv q'"
  by (induction rule: rtranclp_induct) (auto dest: dq_inv_worker)

lemma worker_keeps: "dq_worker q q' \<Longrightarrow>
    dq_signals q' = dq_signals q \<and> dq_clock q' = dq_clock q \<and> dq_pushed q' = dq_pushed q
    \<and> (dq_phase q' = Returned \<longrightarrow> dq_phase q = Returned)"
  by (induction rule: dq_worker.induct) auto

lemma worker_run_keeps: "dq_worker\<^sup>*\<^sup>* q q' \<Longrightarrow>
    dq_signals q' = dq_signals q \<and> dq_clock q' = dq_clock q \<and> dq_pushed q' = dq_pushed q
    \<and> (dq_phase q' = Returned \<longrightarrow> dq_phase q = Returned)"
  by (induction rule: rtranclp_induct) (auto dest: worker_keeps)

lemma worker_stuck:
  assumes "\<And>q'. \<not> dq_worker q q'" "dq_phase q \<noteq> Returned"
  shows "dq_phase q = Parked \<and> \<not> dq_wake q \<and> \<not> is_due (dq_clock q) (dq_timer q)"
proof (cases "dq_phase q")
  case Parked
  have "\<not> t \<le> dq_clock q" if "dq_timer q = Some t" for t
    using assms(1) dq_worker.fired [OF Parked that] by (cases "popDue (dq_clock q) (dq_h q)") blast
  then show ?thesis
    using assms(1) dq_worker.woke [OF Parked] Parked by (auto simp: is_due_def split: option.splits)
next
  case (Writing ds)
  then show ?thesis using assms(1) dq_worker.write_one dq_worker.write_end by (cases ds) blast+
qed (use assms dq_worker.read dq_worker.arm in blast)+

text \<open>
  C26:  no due event waits for ever. When no push is between its two steps and no further push comes,
  the worker's own steps cannot go on for ever, and when they stop, every pushed event that is due
  has been written.
\<close>

theorem worker_drains:
  assumes "dq_reach now q" "dq_signals q = 0" "dq_phase q \<noteq> Returned"
  shows "(\<nexists>f. f 0 = q \<and> (\<forall>n. dq_worker (f n) (f (Suc n))))
     \<and> (\<forall>q'. dq_worker\<^sup>*\<^sup>* q q' \<and> (\<forall>q''. \<not> dq_worker q' q'') \<longrightarrow>
          (\<forall>d\<in>set (dq_pushed q). fireAt d \<le> dq_clock q \<longrightarrow> d \<in> snd ` set (dq_written q')))"
proof (intro conjI allI impI)
  have inv: "dq_inv q" using assms(1) by (rule dq_reach_inv)
  show "\<nexists>f. f 0 = q \<and> (\<forall>n. dq_worker (f n) (f (Suc n)))"
  proof (intro notI, elim exE conjE)
    fix f assume f: "f 0 = q" "\<forall>n. dq_worker (f n) (f (Suc n))"
    have "dq_inv (f n)" for n by (induction n) (use f inv dq_inv_worker in auto)
    then have "\<forall>n. (worker_rank (f (Suc n)), worker_rank (f n)) \<in> rank_less"
      using f(2) worker_step_rank by blast
    then have "\<exists>g. \<forall>n. (g (Suc n), g n) \<in> rank_less" by (rule exI [of _ "\<lambda>n. worker_rank (f n)"])
    moreover have "wf rank_less" by blast
    ultimately show False unfolding wf_iff_no_infinite_down_chain by blast
  qed
next
  fix q' assume run: "dq_worker\<^sup>*\<^sup>* q q' \<and> (\<forall>q''. \<not> dq_worker q' q'')"
  then have q': "dq_inv q'" using worker_run_inv dq_reach_inv [OF assms(1)] by blast
  have k: "dq_signals q' = 0" "dq_clock q' = dq_clock q" "dq_pushed q' = dq_pushed q" "dq_phase q' \<noteq> Returned"
    using worker_run_keeps [of q q'] run assms by auto
  have p: "dq_phase q' = Parked" "\<not> dq_wake q'" "\<not> is_due (dq_clock q') (dq_timer q')"
    using worker_stuck [of q'] run k(4) by auto
  then have "due_count q' = 0" using q' k(1) is_due_next [of q'] by (auto simp: dq_inv_def)
  moreover have "mset (dq_pushed q') = mset (dq_h q') + mset (map snd (dq_written q'))"
    using q' p(1) by (simp add: dq_inv_def)
  then have "set (dq_pushed q') = set (dq_h q') \<union> snd ` set (dq_written q')"
    by (metis set_mset_mset set_mset_union set_map)
  ultimately show "\<forall>d\<in>set (dq_pushed q). fireAt d \<le> dq_clock q \<longrightarrow> d \<in> snd ` set (dq_written q')"
    using k by (auto simp: due_count_0)
qed

theorem worker_drains_witness:
  "demo_delayed 5 \<in> set (dq_pushed demo_due) \<and> fireAt (demo_delayed 5) \<le> dq_clock demo_due
   \<and> (\<nexists>f. f 0 = demo_due \<and> (\<forall>n. dq_worker (f n) (f (Suc n))))"
  using worker_drains [OF demo_due_reach] by (simp add: demo_dq_simps demo_delayed_def)

end
