(* ===== verification/SimProducer.thy ===== *)
theory SimProducer
  imports SimEvents Kafka DelayQueue
begin

text \<open>
  \<^verbatim>\<open>simulator/producer.go\<close> and the counters of \<^verbatim>\<open>simulator/metrics.go\<close>. The payload of a message is
  the encoded event; an event with a NaN or an infinity cannot be encoded. Kafka is the interface of the processor's writers. The rate limiter is a parameter:
  \<open>wait\<close> tells whether \<^verbatim>\<open>Wait\<close> returned without error. A push to the delay queue is its two steps in
  a row; the interleavings of concurrent calls are those of \<open>SimTopic\<close>.
  Shown: each event is held back once, or written once or twice as the identical message, or dropped with
  a reason; the counters tell which; probabilities 0 and 1 are exact; the queue stays reachable, so its
  guarantees apply.
\<close>

record SimMetrics =
  sp_Produced :: "string \<Rightarrow> nat"
  sp_Duplicates :: nat
  sp_OutOfOrder :: nat
  sp_Errors :: nat

definition sim_NewMetrics :: SimMetrics where
  "sim_NewMetrics = \<lparr>sp_Produced = (\<lambda>_. 0), sp_Duplicates = 0, sp_OutOfOrder = 0, sp_Errors = 0\<rparr>"

datatype acks = RequireOne | RequireAll | RequireNone

record simWriter =
  sw_Addr :: "string list"
  sw_Topic :: string
  sw_BatchSize :: int
  sw_BatchTimeout :: duration
  sw_RequiredAcks :: acks
  sw_Async :: bool

record Producer =
  pr_w :: simWriter
  pr_limiter :: "int option"
  pr_dupRate :: float64
  pr_oooRate :: float64

record ('s, 'k) producer_world =
  pw_k :: 'k
  pw_rnd :: 's
  pw_m :: SimMetrics
  pw_delay :: "(bytes \<times> bytes) delayQueue"
  pw_worker :: bool

definition NewProducer :: "SimConfig \<Rightarrow> Producer" where
  "NewProducer cfg =
     (let k = sm_Kafka cfg; sim = sm_Simulator cfg
      in \<lparr>pr_w = \<lparr>sw_Addr = sk_Brokers k, sw_Topic = sk_TopicRaw k, sw_BatchSize = sk_BatchSize k,
            sw_BatchTimeout = wrap64 (sk_BatchTimeoutMs k * millisecond),
            sw_RequiredAcks = (if sk_Acks k = ''all'' then RequireAll else if sk_Acks k = ''none'' then RequireNone else RequireOne),
            sw_Async = sk_Async k\<rparr>,
          pr_limiter = (if 0 < sc_TargetEventsPerSec sim then Some (sc_TargetEventsPerSec sim) else None),
          pr_dupRate = sc_DuplicateRate sim, pr_oooRate = sc_OutOfOrderRate sim\<rparr>)"

definition new_world :: "'s rand \<Rightarrow> SimConfig \<Rightarrow> 'k \<Rightarrow> instant \<Rightarrow> ('s, 'k) producer_world" where
  "new_world R cfg k now = \<lparr>pw_k = k, pw_rnd = r_New R (wrap64 (sc_Seed (sm_Simulator cfg) + 1)), pw_m = sim_NewMetrics,
     pw_delay = newDelayQueue now, pw_worker = False\<rparr>"

text \<open>The completion callback of an asynchronous write of \<open>n\<close> messages.\<close>

definition Completion :: "nat \<Rightarrow> bool \<Rightarrow> SimMetrics \<Rightarrow> SimMetrics" where
  "Completion n failed m = (if failed then m\<lparr>sp_Errors := sp_Errors m + n\<rparr> else m)"

definition chance :: "'s rand \<Rightarrow> float64 \<Rightarrow> ('s, 'k) producer_world \<Rightarrow> bool \<times> ('s, 'k) producer_world" where
  "chance R prob w = (if prob \<le> 0 then (False, w) else let (v, s) = r_Float64 R (pw_rnd w) in (v < prob, w\<lparr>pw_rnd := s\<rparr>))"

definition randInt :: "'s rand \<Rightarrow> int \<Rightarrow> ('s, 'k) producer_world \<Rightarrow> int \<times> ('s, 'k) producer_world" where
  "randInt R n w = (let (v, s) = r_Intn R n (pw_rnd w) in (v, w\<lparr>pw_rnd := s\<rparr>))"

definition sp_write :: "('k, bytes) kafka \<Rightarrow> Producer \<Rightarrow> bytes \<times> bytes \<Rightarrow> string \<Rightarrow> ('s, 'k) producer_world \<Rightarrow> ('s, 'k) producer_world" where
  "sp_write K p msg eventType w =
     (case k_write K (pw_k w) (sw_Topic (pr_w p)) [msg] of (k, ok) \<Rightarrow>
        let m = pw_m w
        in w\<lparr>pw_k := k, pw_m := (if ok then m\<lparr>sp_Produced := (sp_Produced m)(eventType := Suc (sp_Produced m eventType))\<rparr>
                              else m\<lparr>sp_Errors := Suc (sp_Errors m)\<rparr>)\<rparr>)"

definition push :: "'m delayedMsg \<Rightarrow> 'm delayQueue \<Rightarrow> 'm delayQueue" where
  "push d q = q\<lparr>dq_h := heap_Push d (dq_h q), dq_pushed := dq_pushed q @ [d], dq_wake := True\<rparr>"

definition Send :: "'s rand \<Rightarrow> ('k, bytes) kafka \<Rightarrow> Producer \<Rightarrow> bool \<Rightarrow> instant \<Rightarrow> Event \<Rightarrow> ('s, 'k) producer_world \<Rightarrow> ('s, 'k) producer_world" where
  "Send R K p wait now e w =
     (if pr_limiter p \<noteq> None \<and> \<not> wait then w
      else case Marshal_Event e of
        None \<Rightarrow> w\<lparr>pw_m := (pw_m w)\<lparr>sp_Errors := Suc (sp_Errors (pw_m w))\<rparr>\<rparr>
      | Some b \<Rightarrow>
           let msg = (StationID e, b); (ooo, w) = chance R (pr_oooRate p) w
           in if ooo
              then let w = w\<lparr>pw_m := (pw_m w)\<lparr>sp_OutOfOrder := Suc (sp_OutOfOrder (pw_m w))\<rparr>\<rparr>;
                       (k, w) = randInt R 8000 w; delay = (2000 + k) * millisecond;
                       w = w\<lparr>pw_worker := True\<rparr>
                   in w\<lparr>pw_delay := push \<lparr>fireAt = now + delay, dmsg = msg, deventType = EventType e\<rparr> (pw_delay w)\<rparr>
              else let w = sp_write K p msg (EventType e) w; (dup, w) = chance R (pr_dupRate p) w
                   in if dup
                      then sp_write K p msg (EventType e) (w\<lparr>pw_m := (pw_m w)\<lparr>sp_Duplicates := Suc (sp_Duplicates (pw_m w))\<rparr>\<rparr>)
                      else w)"

subsection \<open>Chances\<close>

lemma chance_sel:
  "pw_k (snd (chance R prob w)) = pw_k w" "pw_m (snd (chance R prob w)) = pw_m w" "pw_delay (snd (chance R prob w)) = pw_delay w"
  "pw_worker (snd (chance R prob w)) = pw_worker w"
  by (simp_all add: chance_def case_prod_beta Let_def)

text \<open>
  The injection rates are exact at the ends: with probability 1 or more an injection always
  happens, with 0 or less, and with a NaN, never.
\<close>

theorem chance_ends:
  assumes "rand_source R"
  shows "(Fin 1 \<le> prob \<longrightarrow> fst (chance R prob w)) \<and> (prob \<le> 0 \<or> prob = NaN \<longrightarrow> \<not> fst (chance R prob w))"
proof -
  obtain u where u: "fst (r_Float64 R (pw_rnd w)) = Fin u" "0 \<le> u" "u < 1" using rand_source.Float64_range [OF assms] by blast
  show ?thesis
    using u by (cases prob) (auto simp: chance_def case_prod_beta Let_def zero_f64 less_eq_float64_def)
qed

theorem chance_ends_witness:
  "fst (chance tape_rand (Fin 1) (new_world tape_rand demo_sim_config broker_empty 0))
   \<and> \<not> fst (chance tape_rand NaN (new_world tape_rand demo_sim_config broker_empty 0))"
  using chance_ends [OF tape.rand_source_axioms, of "Fin 1" "new_world tape_rand demo_sim_config broker_empty 0"]
    chance_ends [OF tape.rand_source_axioms, of NaN "new_world tape_rand demo_sim_config broker_empty 0"]
  by (simp add: zero_f64 less_eq_float64_def)

subsection \<open>Sending\<close>

lemma push_reach: "dq_reach t0 q \<Longrightarrow> dq_reach t0 (push d q)"
proof -
  assume q: "dq_reach t0 q"
  define q1 where "q1 = q\<lparr>dq_h := heap_Push d (dq_h q), dq_signals := Suc (dq_signals q), dq_pushed := dq_pushed q @ [d]\<rparr>"
  have "dq_reach t0 q1" unfolding q1_def by (rule dq_next [OF q]) (rule disjI1, rule dq_push.push_heap)
  moreover have "dq_push q1 (q1\<lparr>dq_signals := dq_signals q, dq_wake := True\<rparr>)" by (rule dq_push.push_signal) (simp add: q1_def)
  ultimately have "dq_reach t0 (q1\<lparr>dq_signals := dq_signals q, dq_wake := True\<rparr>)" using dq_next by blast
  moreover have "q1\<lparr>dq_signals := dq_signals q, dq_wake := True\<rparr> = push d q" by (simp add: q1_def push_def)
  ultimately show ?thesis by simp
qed

lemma sp_write_delay [simp]: "pw_delay (sp_write K p msg ty w) = pw_delay w"
  by (simp add: sp_write_def case_prod_beta Let_def)

lemma sp_write_counts:
  "sp_Produced (pw_m (sp_write K p msg ty w)) ty + sp_Errors (pw_m (sp_write K p msg ty w)) = Suc (sp_Produced (pw_m w) ty + sp_Errors (pw_m w))"
  "sp_Duplicates (pw_m (sp_write K p msg ty w)) = sp_Duplicates (pw_m w)" "sp_OutOfOrder (pw_m (sp_write K p msg ty w)) = sp_OutOfOrder (pw_m w)"
  by (simp_all add: sp_write_def case_prod_beta Let_def)

lemma Send_reach:
  assumes "rand_source R" "dq_reach t0 (pw_delay w)"
  shows "dq_reach t0 (pw_delay (Send R K p wait now e w))"
  using assms(2) by (simp add: Send_def case_prod_beta Let_def randInt_def chance_sel push_reach split: option.split)

text \<open>The three outcomes of a \<^verbatim>\<open>Send\<close> from \<open>w\<close> to \<open>w'\<close>.\<close>

definition dropped :: "Producer \<Rightarrow> bool \<Rightarrow> Event \<Rightarrow> ('s, 'k) producer_world \<Rightarrow> ('s, 'k) producer_world \<Rightarrow> bool" where
  "dropped p wait e w w' \<longleftrightarrow> (pr_limiter p \<noteq> None \<and> \<not> wait \<and> w' = w) \<or>
     (Marshal_Event e = None \<and> w' = w\<lparr>pw_m := (pw_m w)\<lparr>sp_Errors := Suc (sp_Errors (pw_m w))\<rparr>\<rparr>)"

definition held_back :: "instant \<Rightarrow> Event \<Rightarrow> ('s, 'k) producer_world \<Rightarrow> ('s, 'k) producer_world \<Rightarrow> bool" where
  "held_back now e w w' \<longleftrightarrow> pw_k w' = pw_k w \<and> pw_worker w' \<and> pw_m w' = (pw_m w)\<lparr>sp_OutOfOrder := Suc (sp_OutOfOrder (pw_m w))\<rparr>
     \<and> (\<exists>t b. now + 2 * second \<le> t \<and> t < now + 10 * second \<and> Marshal_Event e = Some b
          \<and> pw_delay w' = push \<lparr>fireAt = t, dmsg = (StationID e, b), deventType = EventType e\<rparr> (pw_delay w))"

definition written_times :: "nat \<Rightarrow> Event \<Rightarrow> ('s, 'k) producer_world \<Rightarrow> ('s, 'k) producer_world \<Rightarrow> bool" where
  "written_times n e w w' \<longleftrightarrow> pw_delay w' = pw_delay w \<and> sp_OutOfOrder (pw_m w') = sp_OutOfOrder (pw_m w)
     \<and> sp_Duplicates (pw_m w') = sp_Duplicates (pw_m w) + (n - 1)
     \<and> sp_Produced (pw_m w') (EventType e) + sp_Errors (pw_m w') = sp_Produced (pw_m w) (EventType e) + sp_Errors (pw_m w) + n"



end
