(* ===== verification/SimStart.thy ===== *)
theory SimStart
  imports SimMain SimProducer Metrics
begin

text \<open>
  The start of \<^verbatim>\<open>simulator/main.go\<close>: the configuration, the roster, the two seeding modes and the
  hand-over to \<^const>\<open>runSimulation\<close>. The environment of a process is a \<open>sim_env\<close>; the registry tables
  are passed through. The deployment runs the same image twice on the same configuration file, first
  with \<^verbatim>\<open>SEED_ONLY\<close>, then with \<^verbatim>\<open>SKIP_SEED\<close>.
  Shown: the two processes build the same roster, so that whatever the second one simulates is about
  stations the first one seeded.
\<close>

record sim_env =
  se_yaml :: "bytes \<Rightarrow> SimConfig option"
  se_file :: "bytes option"
  se_SEED_ONLY :: bool
  se_SKIP_SEED :: bool
  se_calls :: "nat \<Rightarrow> nat \<Rightarrow> bool"
  se_cpus :: int
  se_clk :: "nat \<Rightarrow> instant"

record 's running =
  ru_cfg :: SimConfig
  ru_stations :: "Station list"
  ru_server :: metrics_server
  ru_producer :: Producer
  ru_sim :: "'s sim"

text \<open>The simulator serves its metrics without profiling.\<close>

definition sim_StartMetricsServer :: "string \<Rightarrow> metrics_server" where
  "sim_StartMetricsServer listen = \<lparr>ms_Addr = listen, ms_Routes = [''/metrics'']\<rparr>"

datatype 's sim_outcome = SimFatalConfig sim_config_error | SimFatalSeed seed_error | SimSeeded | SimPanics | SimRuns "'s running"

definition simulator_main :: "'s rand \<Rightarrow> sim_env \<Rightarrow> tables \<Rightarrow> tables \<times> 's sim_outcome" where
  "simulator_main R env db =
     (case sim_LoadConfig (se_yaml env) (se_file env) of
        Inl e \<Rightarrow> (db, SimFatalConfig e)
      | Inr cfg \<Rightarrow>
          let (sts, s) = BuildStations R cfg (r_New R (sc_Seed (sm_Simulator cfg)))
          in if se_SEED_ONLY env
             then (case seedWithRetry 30 (se_calls env) 0 sts db of
                     (db, Some e) \<Rightarrow> (db, SimFatalSeed e) | (db, None) \<Rightarrow> (db, SimSeeded))
             else let (db, err) = (if sm_SeedRegistry cfg \<and> \<not> se_SKIP_SEED env
                                   then seedWithRetry 10 (se_calls env) 0 sts db else (db, None));
                      srv = sim_StartMetricsServer (sm_MetricsListen cfg);
                      p = NewProducer cfg
                  in (db, case runSimulation R cfg sts (se_cpus env) (se_clk env) of
                            None \<Rightarrow> SimPanics
                          | Some w \<Rightarrow> SimRuns \<lparr>ru_cfg = cfg, ru_stations = sts, ru_server = srv, ru_producer = p, ru_sim = w\<rparr>))"

definition roster_of :: "'s rand \<Rightarrow> SimConfig \<Rightarrow> Station list" where
  "roster_of R cfg = fst (BuildStations R cfg (r_New R (sc_Seed (sm_Simulator cfg))))"

lemma simulator_main_seeded:
  assumes "simulator_main R env db = (db', SimSeeded)"
  obtains cfg where "sim_LoadConfig (se_yaml env) (se_file env) = Inr cfg" "db' = seeded_tables (roster_of R cfg)"
proof -
  from assms obtain cfg where cfg: "sim_LoadConfig (se_yaml env) (se_file env) = Inr cfg"
    by (auto simp: simulator_main_def split: sum.splits)
  then have "seedWithRetry 30 (se_calls env) 0 (roster_of R cfg) db = (db', None)"
    using assms by (auto simp: simulator_main_def roster_of_def case_prod_beta Let_def prod_eq_iff split: if_splits option.splits)
  then show thesis using that [OF cfg] seedWithRetry_ok [where n = 30 and calls = "se_calls env" and k = 0 and sts = "roster_of R cfg" and db = db] by simp
qed

text \<open>A running simulator leaves the tables alone or reseeds them with the same roster.\<close>

lemma simulator_main_runs:
  assumes "simulator_main R env db = (db', SimRuns r)"
  obtains "sim_LoadConfig (se_yaml env) (se_file env) = Inr (ru_cfg r)" "ru_stations r = roster_of R (ru_cfg r)"
    "runSimulation R (ru_cfg r) (ru_stations r) (se_cpus env) (se_clk env) = Some (ru_sim r)"
    "ru_producer r = NewProducer (ru_cfg r)" "db' = db \<or> db' = seeded_tables (ru_stations r)"
proof -
  from assms obtain cfg where cfg: "sim_LoadConfig (se_yaml env) (se_file env) = Inr cfg"
    by (auto simp: simulator_main_def split: sum.splits)
  have e: "\<not> se_SEED_ONLY env"
    using assms by (auto simp: simulator_main_def cfg case_prod_beta Let_def split: if_splits option.splits prod.splits)
  let ?seed = "if sm_SeedRegistry cfg \<and> \<not> se_SKIP_SEED env then seedWithRetry 10 (se_calls env) 0 (roster_of R cfg) db else (db, None)"
  from assms e have r: "db' = fst ?seed" "ru_cfg r = cfg" "ru_stations r = roster_of R cfg" "ru_producer r = NewProducer cfg"
    "runSimulation R cfg (roster_of R cfg) (se_cpus env) (se_clk env) = Some (ru_sim r)"
    by (auto simp: simulator_main_def cfg roster_of_def case_prod_beta Let_def split: option.splits)
  have "db' = db \<or> db' = seeded_tables (roster_of R cfg)"
    using r(1) seedWithRetry_ok [where n = 10 and calls = "se_calls env" and k = 0 and sts = "roster_of R cfg" and db = db] by (auto split: if_splits prod.splits option.splits)
  then show thesis using that cfg r by simp
qed

text \<open>
  Seeding before simulating fits. After a \<^verbatim>\<open>SEED_ONLY\<close> process has succeeded, a simulator on the
  same configuration file runs on exactly the stations the registry tables hold, whether or not it seeds
  again and however its own seeding ends.
\<close>

theorem seed_only_fits:
  assumes "simulator_main R env db = (db1, SimSeeded)"
    and "simulator_main R env' db1 = (db2, SimRuns r)"
    and "se_yaml env' = se_yaml env" "se_file env' = se_file env"
  shows "db2 = seeded_tables (ru_stations r)"
proof -
  obtain cfg where cfg: "sim_LoadConfig (se_yaml env) (se_file env) = Inr cfg" "db1 = seeded_tables (roster_of R cfg)"
    using simulator_main_seeded [OF assms(1)] by blast
  from assms(2) show ?thesis by (rule simulator_main_runs) (use cfg assms(3,4) in auto)
qed

definition demo_env :: "bool \<Rightarrow> sim_env" where
  "demo_env seed = \<lparr>se_yaml = (\<lambda>_. Some demo_sim_config), se_file = Some [], se_SEED_ONLY = seed, se_SKIP_SEED = True,
     se_calls = (\<lambda>k _. 3 \<le> k), se_cpus = 4, se_clk = (\<lambda>i. int i)\<rparr>"

definition demo_cfg :: SimConfig where
  "demo_cfg = demo_sim_config\<lparr>sm_Simulator := (sm_Simulator demo_sim_config)\<lparr>sc_TimeAcceleration := Fin 1\<rparr>\<rparr>"

lemma demo_env_load: "sim_LoadConfig (se_yaml (demo_env b)) (se_file (demo_env b)) = Inr demo_cfg"
  using demo_sim_load by (simp add: demo_env_def demo_cfg_def)

lemma demo_cfg_ok: "roster_config_ok demo_cfg" "cadence_ok demo_cfg"
  using sim_LoadConfig_config_ok [OF demo_env_load [of True]]
  by (simp_all add: roster_config_ok_def cadence_ok_def) (simp_all add: demo_cfg_def demo_sim_config_def go_int64_max_def)

text \<open>Three attempts to seed fail, the fourth succeeds.\<close>

lemma demo_seeded: "simulator_main R (demo_env True) demo_tables = (seeded_tables (roster_of R demo_cfg), SimSeeded)"
proof -
  have down: "SeedRegistry (\<lambda>_. False) sts db = (db, Some SeedOpen)" for sts db by (simp add: SeedRegistry_def)
  have "seedWithRetry 30 (\<lambda>k _. 3 \<le> k) 0 sts db = (seeded_tables sts, None)" for sts db
    using demo_seed by (simp add: numeral_eq_Suc [of "num.One"] eval_nat_numeral down)
  then show ?thesis
    unfolding simulator_main_def by (simp add: demo_env_load) (simp add: demo_env_def roster_of_def case_prod_beta)
qed

lemma roster_nonempty:
  assumes "roster_config_ok cfg" "rand_source R"
  shows "roster_ok cfg (roster_of R cfg)" "roster_of R cfg \<noteq> []"
proof -
  show r: "roster_ok cfg (roster_of R cfg)"
    unfolding roster_of_def by (rule rand_source.BuildStations_roster [OF assms(2,1) prod.collapse [symmetric]])
  have "1 \<le> sc_StationCount (sm_Simulator cfg)" using assms(1) by (simp add: roster_config_ok_def sim_config_ok_def Let_def)
  then show "roster_of R cfg \<noteq> []" using r by (auto simp: roster_ok_def)
qed

lemma demo_runs:
  assumes "rand_source R"
  shows "\<exists>w. runSimulation R demo_cfg (roster_of R demo_cfg) 4 (\<lambda>i. int i) = Some w \<and> simulator_main R (demo_env False) db =
     (db, SimRuns \<lparr>ru_cfg = demo_cfg, ru_stations = roster_of R demo_cfg,
       ru_server = sim_StartMetricsServer (sm_MetricsListen demo_cfg), ru_producer = NewProducer demo_cfg, ru_sim = w\<rparr>)"
proof -
  obtain w where w: "runSimulation R demo_cfg (roster_of R demo_cfg) 4 (\<lambda>i. int i) = Some w"
    using runSimulation_starts [OF roster_nonempty(2) [OF demo_cfg_ok(1) assms]] by blast
  then show ?thesis
    unfolding simulator_main_def
    by (intro exI [of _ w] conjI) (simp_all add: demo_env_load, simp add: demo_env_def roster_of_def case_prod_beta)
qed

theorem seed_only_fits_witness:
  "\<exists>db2 r. simulator_main tape_rand (demo_env False) (seeded_tables (roster_of tape_rand demo_cfg)) = (db2, SimRuns r)
     \<and> db2 = seeded_tables (ru_stations r)"
proof -
  obtain r where r: "simulator_main tape_rand (demo_env False) (seeded_tables (roster_of tape_rand demo_cfg))
      = (seeded_tables (roster_of tape_rand demo_cfg), SimRuns r)"
    using demo_runs [OF tape.rand_source_axioms] by blast
  have same: "se_yaml (demo_env False) = se_yaml (demo_env True)" "se_file (demo_env False) = se_file (demo_env True)"
    by (simp_all add: demo_env_def)
  from seed_only_fits [OF demo_seeded r same] r show ?thesis by blast
qed

end
