(* ===== verification/SimTopic.thy ===== *)
theory SimTopic
  imports SimProducer
begin

text \<open>
  The producer of the simulator under concurrency: any number of goroutines inside \<^verbatim>\<open>Send\<close>, the worker
  of the delay queue and the completion callback, interleaved at their effects on shared state (the
  locked generator, the counters, the locked heap, the wake channel, the writer). A \<^verbatim>\<open>Send\<close> that the
  rate limiter cancels has no effect and no step.
  Shown: a \<^verbatim>\<open>Send\<close> run alone is the function of \<open>SimProducer\<close>; the raw topic only ever gains encodings of
  events that were handed to \<^verbatim>\<open>Send\<close>; while the error counter is 0 no such event is lost.
\<close>

subsection \<open>The steps\<close>

text \<open>Where a goroutine is inside \<^verbatim>\<open>Send\<close>: before the step that the constructor's name announces.\<close>

datatype stage = Idle | Choose "bytes \<times> bytes" string | Hold "(bytes \<times> bytes) delayedMsg" | Signal
  | Again "bytes \<times> bytes" string | Dup "bytes \<times> bytes" string

record ('s, 'k) producers =
  ps_w :: "('s, 'k) producer_world"
  ps_stages :: "stage list"
  ps_taken :: "Event list"

abbreviation count_error :: "('s, 'k) producer_world \<Rightarrow> ('s, 'k) producer_world" where
  "count_error w \<equiv> w\<lparr>pw_m := (pw_m w)\<lparr>sp_Errors := Suc (sp_Errors (pw_m w))\<rparr>\<rparr>"

definition at_stage :: "nat \<Rightarrow> stage \<Rightarrow> ('s, 'k) producers \<Rightarrow> bool" where
  "at_stage i g s \<longleftrightarrow> i < length (ps_stages s) \<and> ps_stages s ! i = g"

definition goto :: "nat \<Rightarrow> stage \<Rightarrow> ('s, 'k) producer_world \<Rightarrow> ('s, 'k) producers \<Rightarrow> ('s, 'k) producers" where
  "goto i g w s = s\<lparr>ps_w := w, ps_stages := (ps_stages s)[i := g]\<rparr>"

text \<open>What the worker of the delay queue does to the rest when its queue steps: it writes the message.\<close>

definition worker_write :: "('k, bytes) kafka \<Rightarrow> Producer \<Rightarrow> ('s, 'k) producer_world \<Rightarrow> ('s, 'k) producer_world" where
  "worker_write K p w = (case dq_phase (pw_delay w) of
       Writing (d # ds) \<Rightarrow> sp_write K p (dmsg d) (deventType d) w
     | _ \<Rightarrow> w)"

inductive producer_step :: "'s rand \<Rightarrow> ('k, bytes) kafka \<Rightarrow> Producer \<Rightarrow> ('s, 'k) producers \<Rightarrow> ('s, 'k) producers \<Rightarrow> bool"
  for R :: "'s rand" and K :: "('k, bytes) kafka" and p :: Producer where
  marshalled: "at_stage i Idle s \<Longrightarrow> Marshal_Event e = Some b \<Longrightarrow>
    producer_step R K p s ((goto i (Choose (StationID e, b) (EventType e)) (ps_w s) s)\<lparr>ps_taken := ps_taken s @ [e]\<rparr>)"
| unmarshallable: "at_stage i Idle s \<Longrightarrow> Marshal_Event e = None \<Longrightarrow>
    producer_step R K p s ((goto i Idle (count_error (ps_w s)) s)\<lparr>ps_taken := ps_taken s @ [e]\<rparr>)"
| held: "at_stage i (Choose msg ty) s \<Longrightarrow> chance R (pr_oooRate p) (ps_w s) = (True, w1) \<Longrightarrow>
    randInt R 8000 (w1\<lparr>pw_m := (pw_m w1)\<lparr>sp_OutOfOrder := Suc (sp_OutOfOrder (pw_m w1))\<rparr>\<rparr>) = (k, w2) \<Longrightarrow>
    producer_step R K p s (goto i (Hold \<lparr>fireAt = now + (2000 + k) * millisecond, dmsg = msg, deventType = ty\<rparr>) (w2\<lparr>pw_worker := True\<rparr>) s)"
| pushed: "at_stage i (Hold d) s \<Longrightarrow> q = pw_delay (ps_w s) \<Longrightarrow>
    producer_step R K p s (goto i Signal ((ps_w s)\<lparr>pw_delay :=
      q\<lparr>dq_h := heap_Push d (dq_h q), dq_signals := Suc (dq_signals q), dq_pushed := dq_pushed q @ [d]\<rparr>\<rparr>) s)"
| signalled: "at_stage i Signal s \<Longrightarrow> q = pw_delay (ps_w s) \<Longrightarrow>
    producer_step R K p s (goto i Idle ((ps_w s)\<lparr>pw_delay := q\<lparr>dq_signals := dq_signals q - 1, dq_wake := True\<rparr>\<rparr>) s)"
| wrote: "at_stage i (Choose msg ty) s \<Longrightarrow> chance R (pr_oooRate p) (ps_w s) = (False, w1) \<Longrightarrow>
    producer_step R K p s (goto i (Again msg ty) (sp_write K p msg ty w1) s)"
| single: "at_stage i (Again msg ty) s \<Longrightarrow> chance R (pr_dupRate p) (ps_w s) = (False, w1) \<Longrightarrow>
    producer_step R K p s (goto i Idle w1 s)"
| duplicated: "at_stage i (Again msg ty) s \<Longrightarrow> chance R (pr_dupRate p) (ps_w s) = (True, w1) \<Longrightarrow>
    producer_step R K p s (goto i (Dup msg ty) (w1\<lparr>pw_m := (pw_m w1)\<lparr>sp_Duplicates := Suc (sp_Duplicates (pw_m w1))\<rparr>\<rparr>) s)"
| wrote_again: "at_stage i (Dup msg ty) s \<Longrightarrow>
    producer_step R K p s (goto i Idle (sp_write K p msg ty (ps_w s)) s)"
| worker: "pw_worker (ps_w s) \<Longrightarrow> dq_worker (pw_delay (ps_w s)) q \<Longrightarrow>
    producer_step R K p s (s\<lparr>ps_w := (worker_write K p (ps_w s))\<lparr>pw_delay := q\<rparr>\<rparr>)"
| clock: "dq_env (pw_delay (ps_w s)) q \<Longrightarrow> producer_step R K p s (s\<lparr>ps_w := (ps_w s)\<lparr>pw_delay := q\<rparr>\<rparr>)"
| completion: "producer_step R K p s (s\<lparr>ps_w := (ps_w s)\<lparr>pw_m := Completion n failed (pw_m (ps_w s))\<rparr>\<rparr>)"

definition producers_start :: "'s rand \<Rightarrow> SimConfig \<Rightarrow> nat \<Rightarrow> 'k \<Rightarrow> instant \<Rightarrow> ('s, 'k) producers" where
  "producers_start R cfg n k now = \<lparr>ps_w = new_world R cfg k now, ps_stages = replicate n Idle, ps_taken = []\<rparr>"

abbreviation producer_run :: "'s rand \<Rightarrow> ('k, bytes) kafka \<Rightarrow> Producer \<Rightarrow> ('s, 'k) producers \<Rightarrow> ('s, 'k) producers \<Rightarrow> bool" where
  "producer_run R K p \<equiv> (producer_step R K p)\<^sup>*\<^sup>*"

subsection \<open>One \<open>Send\<close> is a run of its steps\<close>

lemma goto_sel [simp]:
  "ps_w (goto i g w s) = w" "ps_stages (goto i g w s) = (ps_stages s)[i := g]" "ps_taken (goto i g w s) = ps_taken s"
  "at_stage i g (goto i h w s) \<longleftrightarrow> i < length (ps_stages s) \<and> g = h"
  "goto i g w (goto i h v s) = goto i g w s"
  by (auto simp: goto_def at_stage_def)

lemma taken_goto [simp]:
  "goto i g w (s\<lparr>ps_taken := es\<rparr>) = (goto i g w s)\<lparr>ps_taken := es\<rparr>" "at_stage i g (s\<lparr>ps_taken := es\<rparr>) = at_stage i g s"
  by (simp_all add: goto_def at_stage_def)

theorem Send_is_a_run:
  assumes "at_stage i Idle s" "pr_limiter p = None \<or> wait"
  shows "producer_run R K p s ((goto i Idle (Send R K p wait now e (ps_w s)) s)\<lparr>ps_taken := ps_taken s @ [e]\<rparr>)"
proof (cases "Marshal_Event e")
  case None
  then show ?thesis using producer_step.unmarshallable [OF assms(1) None, of R K p] assms(2) by (auto simp: Send_def)
next
  case (Some b)
  let ?t = "\<lambda>g w. (goto i g w s)\<lparr>ps_taken := ps_taken s @ [e]\<rparr>"
  let ?msg = "(StationID e, b)"
  have i: "i < length (ps_stages s)" using assms(1) by (simp add: at_stage_def)
  have 1: "producer_run R K p s (?t (Choose ?msg (EventType e)) (ps_w s))"
    using producer_step.marshalled [OF assms(1) Some, of R K p] by blast
  obtain ooo w1 where o1: "chance R (pr_oooRate p) (ps_w s) = (ooo, w1)" by fastforce
  have c: "at_stage i (Choose ?msg (EventType e)) (?t (Choose ?msg (EventType e)) (ps_w s))" using i by simp
  show ?thesis
  proof (cases ooo)
    case True
    define w1' where "w1' = w1\<lparr>pw_m := (pw_m w1)\<lparr>sp_OutOfOrder := Suc (sp_OutOfOrder (pw_m w1))\<rparr>\<rparr>"
    obtain k w2 where k: "randInt R 8000 w1' = (k, w2)" by fastforce
    define d where "d = \<lparr>fireAt = now + (2000 + k) * millisecond, dmsg = ?msg, deventType = EventType e\<rparr>"
    define q where "q = pw_delay w2"
    define w3 where "w3 = w2\<lparr>pw_worker := True,
      pw_delay := q\<lparr>dq_h := heap_Push d (dq_h q), dq_signals := Suc (dq_signals q), dq_pushed := dq_pushed q @ [d]\<rparr>\<rparr>"
    have 2: "producer_step R K p (?t (Choose ?msg (EventType e)) (ps_w s)) (?t (Hold d) (w2\<lparr>pw_worker := True\<rparr>))"
      using producer_step.held [OF c, of R p w1 k w2 K now] o1 True k by (simp add: d_def w1'_def)
    have 3: "producer_step R K p (?t (Hold d) (w2\<lparr>pw_worker := True\<rparr>)) (?t Signal w3)"
      using producer_step.pushed [of i d "?t (Hold d) (w2\<lparr>pw_worker := True\<rparr>)" q R K p] i by (simp add: w3_def q_def)
    have 4: "producer_step R K p (?t Signal w3) (?t Idle (w3\<lparr>pw_delay := (pw_delay w3)\<lparr>dq_signals := dq_signals q, dq_wake := True\<rparr>\<rparr>))"
      using producer_step.signalled [of i "?t Signal w3" "pw_delay w3" R K p] i by (simp add: w3_def)
    have "Send R K p wait now e (ps_w s) = w3\<lparr>pw_delay := (pw_delay w3)\<lparr>dq_signals := dq_signals q, dq_wake := True\<rparr>\<rparr>"
      using assms(2) Some o1 True k by (auto simp: Send_def Let_def w1'_def w3_def push_def d_def q_def)
    then show ?thesis using 1 2 3 4 by (simp add: rtranclp.rtrancl_into_rtrancl)
  next
    case False
    define w2 where "w2 = sp_write K p ?msg (EventType e) w1"
    obtain dup w3 where d: "chance R (pr_dupRate p) w2 = (dup, w3)" by fastforce
    have 2: "producer_step R K p (?t (Choose ?msg (EventType e)) (ps_w s)) (?t (Again ?msg (EventType e)) w2)"
      using producer_step.wrote [OF c, of R p w1 K] o1 False by (simp add: w2_def)
    have a: "at_stage i (Again ?msg (EventType e)) (?t (Again ?msg (EventType e)) w2)" using i by simp
    show ?thesis
    proof (cases dup)
      case True
      define w4 where "w4 = w3\<lparr>pw_m := (pw_m w3)\<lparr>sp_Duplicates := Suc (sp_Duplicates (pw_m w3))\<rparr>\<rparr>"
      have 3: "producer_step R K p (?t (Again ?msg (EventType e)) w2) (?t (Dup ?msg (EventType e)) w4)"
        using producer_step.duplicated [OF a, of R p w3 K] d True by (simp add: w4_def)
      have 4: "producer_step R K p (?t (Dup ?msg (EventType e)) w4) (?t Idle (sp_write K p ?msg (EventType e) w4))"
        using producer_step.wrote_again [of i ?msg "EventType e" "?t (Dup ?msg (EventType e)) w4" R K p] i by simp
      have "Send R K p wait now e (ps_w s) = sp_write K p ?msg (EventType e) w4"
        using assms(2) Some o1 False d True by (auto simp: Send_def Let_def w2_def w4_def)
      then show ?thesis using 1 2 3 4 by (simp add: rtranclp.rtrancl_into_rtrancl)
    next
      case dup: False
      have 3: "producer_step R K p (?t (Again ?msg (EventType e)) w2) (?t Idle w3)"
        using producer_step.single [OF a, of R p w3 K] d dup by simp
      have "Send R K p wait now e (ps_w s) = w3"
        using assms(2) Some o1 False d dup by (auto simp: Send_def Let_def w2_def)
      then show ?thesis using 1 2 3 by (simp add: rtranclp.rtrancl_into_rtrancl)
    qed
  qed
qed

subsection \<open>The queue inside the system\<close>

definition signalling :: "('s, 'k) producers \<Rightarrow> nat" where
  "signalling s = count (mset (ps_stages s)) Signal"

lemma signalling_goto:
  assumes "at_stage i g s"
  shows "signalling (goto i h w s) + of_bool (g = Signal) = signalling s + of_bool (h = Signal)"
proof -
  have i: "i < length (ps_stages s)" "ps_stages s ! i = g" using assms by (simp_all add: at_stage_def)
  then have "g \<in># mset (ps_stages s)" by (metis nth_mem set_mset_mset)
  then have "count (mset (ps_stages s)) g \<noteq> 0" by simp
  then show ?thesis using i by (auto simp: signalling_def mset_update)
qed

lemma signalling_taken [simp]: "signalling (s\<lparr>ps_taken := es\<rparr>) = signalling s" "signalling (s\<lparr>ps_w := w\<rparr>) = signalling s"
  by (simp_all add: signalling_def)

lemma randInt_sel:
  "pw_k (snd (randInt R n w)) = pw_k w" "pw_m (snd (randInt R n w)) = pw_m w" "pw_delay (snd (randInt R n w)) = pw_delay w"
  by (simp_all add: randInt_def case_prod_beta Let_def)

lemma chance_eq:
  assumes "chance R prob w = (b, w1)"
  shows "pw_k w1 = pw_k w" "pw_m w1 = pw_m w" "pw_delay w1 = pw_delay w"
  using chance_sel [of R prob w] by (simp_all add: assms)

lemma randInt_eq:
  assumes "randInt R n w = (k, w1)"
  shows "pw_k w1 = pw_k w" "pw_m w1 = pw_m w" "pw_delay w1 = pw_delay w"
  using randInt_sel [of R n w] by (simp_all add: assms)

lemma worker_keeps_signals: "dq_worker q q' \<Longrightarrow> dq_signals q' = dq_signals q \<and> dq_pushed q' = dq_pushed q"
  by (induction rule: dq_worker.induct) simp_all

lemma env_keeps_signals: "dq_env q q' \<Longrightarrow> dq_signals q' = dq_signals q \<and> dq_pushed q' = dq_pushed q \<and> dq_written q' = dq_written q"
  by (induction rule: dq_env.induct) simp_all

definition queue_ok :: "instant \<Rightarrow> ('s, 'k) producers \<Rightarrow> bool" where
  "queue_ok t0 s \<longleftrightarrow> dq_reach t0 (pw_delay (ps_w s)) \<and> dq_signals (pw_delay (ps_w s)) = signalling s"

lemma queue_ok_taken [simp]: "queue_ok t0 (s\<lparr>ps_taken := es\<rparr>) = queue_ok t0 s"
  by (simp add: queue_ok_def)

lemma queue_ok_goto:
  assumes "at_stage i g s" "queue_ok t0 s" "dq_reach t0 (pw_delay w)"
    and "dq_signals (pw_delay w) + of_bool (g = Signal) = dq_signals (pw_delay (ps_w s)) + of_bool (h = Signal)"
  shows "queue_ok t0 (goto i h w s)"
  using assms signalling_goto [OF assms(1), of h w] by (simp add: queue_ok_def)

lemma queue_ok_same:
  "at_stage i g s \<Longrightarrow> queue_ok t0 s \<Longrightarrow> pw_delay w = pw_delay (ps_w s) \<Longrightarrow> (g = Signal) = (h = Signal) \<Longrightarrow> queue_ok t0 (goto i h w s)"
  by (rule queue_ok_goto [where g = g]) (simp_all add: queue_ok_def)

lemma queue_ok_worker:
  assumes "queue_ok t0 s" "dq_worker (pw_delay (ps_w s)) q \<or> dq_env (pw_delay (ps_w s)) q" "pw_delay w = q"
  shows "queue_ok t0 (s\<lparr>ps_w := w\<rparr>)"
  using assms dq_next [of t0 "pw_delay (ps_w s)" q] worker_keeps_signals [of "pw_delay (ps_w s)" q] env_keeps_signals [of "pw_delay (ps_w s)" q]
  by (auto simp: queue_ok_def)

lemma step_queue_ok: "producer_step R K p s s' \<Longrightarrow> queue_ok t0 s \<Longrightarrow> queue_ok t0 s'"
proof (induction rule: producer_step.induct)
  case (pushed i d s q)
  define q' where "q' = q\<lparr>dq_h := heap_Push d (dq_h q), dq_signals := Suc (dq_signals q), dq_pushed := dq_pushed q @ [d]\<rparr>"
  have "dq_push q q'" unfolding q'_def by (rule dq_push.push_heap)
  then have "dq_reach t0 q'" using pushed(2,3) dq_next by (auto simp: queue_ok_def)
  then show ?case unfolding q'_def [symmetric] using pushed by (intro queue_ok_goto [OF pushed(1,3)]) (simp_all add: q'_def)
next
  case (signalled i s q)
  have n: "dq_signals q = Suc (dq_signals q - 1)"
    using signalled(2,3) signalling_goto [OF signalled(1), of Idle "ps_w s"] by (simp add: queue_ok_def)
  define q' where "q' = q\<lparr>dq_signals := dq_signals q - 1, dq_wake := True\<rparr>"
  have "dq_push q q'" unfolding q'_def by (rule dq_push.push_signal [OF n])
  then have "dq_reach t0 q'" using signalled(2,3) dq_next by (auto simp: queue_ok_def)
  then show ?case unfolding q'_def [symmetric] using signalled n by (intro queue_ok_goto [OF signalled(1,3)]) (simp_all add: q'_def)
next
  case (worker s q)
  show ?case by (rule queue_ok_worker [OF worker(3)]) (use worker in simp_all)
next
  case (clock s q)
  show ?case by (rule queue_ok_worker [OF clock(2)]) (use clock in simp_all)
next
  case (completion s n failed)
  then show ?case by (simp add: queue_ok_def)
next
  case (marshalled i s e b)
  then show ?case by (simp add: queue_ok_same)
next
  case (unmarshallable i s e)
  then show ?case by (simp add: queue_ok_same)
next
  case (held i msg ty s w1 k w2 now)
  then show ?case by (simp add: queue_ok_same chance_eq randInt_eq)
next
  case (wrote i msg ty s w1)
  then show ?case by (simp add: queue_ok_same chance_eq)
next
  case (single i msg ty s w1)
  then show ?case by (simp add: queue_ok_same chance_eq)
next
  case (duplicated i msg ty s w1)
  then show ?case by (simp add: queue_ok_same chance_eq)
next
  case (wrote_again i msg ty s)
  then show ?case by (simp add: queue_ok_same)
qed

lemma start_queue_ok: "queue_ok now (producers_start R cfg n k now)"
  by (simp add: queue_ok_def producers_start_def signalling_def new_world_def newDelayQueue_def dq_start [of now, unfolded newDelayQueue_def])

subsection \<open>What is on the topic\<close>

fun stage_msg :: "stage \<Rightarrow> (bytes \<times> bytes) option" where
  "stage_msg (Choose m ty) = Some m"
| "stage_msg (Hold d) = Some (dmsg d)"
| "stage_msg (Again m ty) = Some m"
| "stage_msg (Dup m ty) = Some m"
| "stage_msg _ = None"

definition encoded :: "Event list \<Rightarrow> bytes \<times> bytes \<Rightarrow> bool" where
  "encoded es m \<longleftrightarrow> (\<exists>e\<in>set es. \<exists>b. Marshal_Event e = Some b \<and> m = (StationID e, b))"

lemma encoded_snoc: "encoded es m \<Longrightarrow> encoded (es @ [e]) m"
  by (auto simp: encoded_def)

definition only_encoded :: "('k, bytes) kafka \<Rightarrow> Producer \<Rightarrow> 'k \<Rightarrow> Event list \<Rightarrow> 'k \<Rightarrow> bool" where
  "only_encoded K p k0 es k \<longleftrightarrow> (\<forall>t m. k_has K k t m \<longrightarrow> k_has K k0 t m \<or> t = sw_Topic (pr_w p) \<and> encoded es m)"

lemma only_encoded_snoc: "only_encoded K p k0 es k \<Longrightarrow> only_encoded K p k0 (es @ [e]) k"
  unfolding only_encoded_def using encoded_snoc by blast

lemma sp_write_k: "pw_k (sp_write K p msg ty w) = fst (k_write K (pw_k w) (sw_Topic (pr_w p)) [msg])"
  by (simp add: sp_write_def case_prod_beta Let_def)

lemma only_encoded_write:
  assumes "kafka_log K" "only_encoded K p k0 es (pw_k w)" "encoded es msg"
  shows "only_encoded K p k0 es (pw_k (sp_write K p msg ty w))"
  unfolding only_encoded_def sp_write_k
proof (intro allI impI)
  fix t m assume "k_has K (fst (k_write K (pw_k w) (sw_Topic (pr_w p)) [msg])) t m"
  from kafka_log.write_only [OF assms(1) this] have "k_has K (pw_k w) t m \<or> t = sw_Topic (pr_w p) \<and> m = msg" by simp
  then show "k_has K k0 t m \<or> t = sw_Topic (pr_w p) \<and> encoded es m" using assms(2,3) unfolding only_encoded_def by blast
qed

text \<open>The topic beyond what \<open>k0\<close> held, the goroutines and the queue hold encodings of events taken.\<close>

definition topic_ok :: "('k, bytes) kafka \<Rightarrow> Producer \<Rightarrow> 'k \<Rightarrow> ('s, 'k) producers \<Rightarrow> bool" where
  "topic_ok K p k0 s \<longleftrightarrow>
     only_encoded K p k0 (ps_taken s) (pw_k (ps_w s))
     \<and> list_all (\<lambda>g. pred_option (encoded (ps_taken s)) (stage_msg g)) (ps_stages s)
     \<and> list_all (\<lambda>d. encoded (ps_taken s) (dmsg d)) (dq_pushed (pw_delay (ps_w s)))"

lemma worker_write_cases:
  "worker_write K p w = w \<or> (\<exists>d ds. dq_phase (pw_delay w) = Writing (d # ds) \<and> worker_write K p w = sp_write K p (dmsg d) (deventType d) w)"
  by (auto simp: worker_write_def split: dqPhase.split list.split)

lemma list_all_update: "list_all P xs \<Longrightarrow> P x \<Longrightarrow> list_all P (xs[i := x])"
  using set_update_subset_insert [of xs i x] by (auto simp: list_all_iff)

lemma topic_ok_goto:
  assumes "topic_ok K p k0 s" "pred_option (encoded (ps_taken s)) (stage_msg h)"
    and "only_encoded K p k0 (ps_taken s) (pw_k w)"
    and "list_all (\<lambda>d. encoded (ps_taken s) (dmsg d)) (dq_pushed (pw_delay w))"
  shows "topic_ok K p k0 (goto i h w s)"
  using assms unfolding topic_ok_def by (auto intro: list_all_update)

lemma topic_ok_taken: "topic_ok K p k0 s \<Longrightarrow> topic_ok K p k0 (s\<lparr>ps_taken := ps_taken s @ [e]\<rparr>)"
  unfolding topic_ok_def list_all_iff by (auto simp: encoded_snoc only_encoded_snoc pred_option_def)

lemma topic_ok_stage: "topic_ok K p k0 s \<Longrightarrow> at_stage i g s \<Longrightarrow> pred_option (encoded (ps_taken s)) (stage_msg g)"
  by (auto simp: topic_ok_def list_all_iff at_stage_def)

lemma topic_ok_queue: "topic_ok K p k0 s \<Longrightarrow> only_encoded K p k0 (ps_taken s) (pw_k (ps_w s)) \<and> list_all (\<lambda>d. encoded (ps_taken s) (dmsg d)) (dq_pushed (pw_delay (ps_w s)))"
  by (simp add: topic_ok_def)

lemma topic_ok_same:
  assumes "topic_ok K p k0 s" "pred_option (encoded (ps_taken s)) (stage_msg h)" "pw_k w = pw_k (ps_w s)" "pw_delay w = pw_delay (ps_w s)"
  shows "topic_ok K p k0 (goto i h w s)"
  by (rule topic_ok_goto [OF assms(1,2)]) (use assms(3,4) topic_ok_queue [OF assms(1)] in simp_all)

lemma topic_ok_write:
  assumes "kafka_log K" "topic_ok K p k0 s" "encoded (ps_taken s) msg" "pred_option (encoded (ps_taken s)) (stage_msg h)"
    and "pw_k w = pw_k (ps_w s)" "pw_delay w = pw_delay (ps_w s)"
  shows "topic_ok K p k0 (goto i h (sp_write K p msg ty w) s)"
  by (rule topic_ok_goto [OF assms(2,4)]) (use only_encoded_write [OF assms(1) _ assms(3), of p k0 w ty] assms(5,6) topic_ok_queue [OF assms(2)] in simp_all)

text \<open>In the queue, what is written was pushed.\<close>

lemma writing_pushed: "queue_ok t0 s \<Longrightarrow> dq_phase (pw_delay (ps_w s)) = Writing (d # ds) \<Longrightarrow> d \<in> set (dq_pushed (pw_delay (ps_w s)))"
proof -
  assume s: "queue_ok t0 s" "dq_phase (pw_delay (ps_w s)) = Writing (d # ds)"
  then have "mset (dq_pushed (pw_delay (ps_w s))) = mset (dq_h (pw_delay (ps_w s))) + mset (d # ds) + mset (map snd (dq_written (pw_delay (ps_w s))))"
    using dq_reach_inv by (fastforce simp: queue_ok_def dq_inv_def)
  then have "d \<in># mset (dq_pushed (pw_delay (ps_w s)))" by simp
  then show ?thesis by simp
qed

lemma step_topic_ok: "producer_step R K p s s' \<Longrightarrow> kafka_log K \<Longrightarrow> queue_ok t0 s \<Longrightarrow> topic_ok K p k0 s \<Longrightarrow> topic_ok K p k0 s'"
proof (induction rule: producer_step.induct)
  case (marshalled i s e b)
  show ?case
    unfolding taken_goto(1) [symmetric]
    by (rule topic_ok_same [OF topic_ok_taken [OF marshalled(5)]]) (use marshalled(2) in \<open>auto simp: encoded_def\<close>)
next
  case (unmarshallable i s e)
  show ?case
    unfolding taken_goto(1) [symmetric] by (rule topic_ok_same [OF topic_ok_taken [OF unmarshallable(5)]]) simp_all
next
  case (held i msg ty s w1 k w2 now)
  show ?case
    by (rule topic_ok_same [OF held(6)]) (use topic_ok_stage [OF held(6,1)] chance_eq [OF held(2)] randInt_eq [OF held(3)] in simp_all)
next
  case (pushed i d s q)
  show ?case
    by (rule topic_ok_goto [OF pushed(5)]) (use topic_ok_stage [OF pushed(5,1)] topic_ok_queue [OF pushed(5)] pushed(2) in simp_all)
next
  case (signalled i s q)
  show ?case
    by (rule topic_ok_goto [OF signalled(5)]) (use topic_ok_queue [OF signalled(5)] signalled(2) in simp_all)
next
  case (wrote i msg ty s w1)
  show ?case
    by (rule topic_ok_write [OF wrote(3,5)]) (use topic_ok_stage [OF wrote(5,1)] chance_eq [OF wrote(2)] in simp_all)
next
  case (single i msg ty s w1)
  show ?case by (rule topic_ok_same [OF single(5)]) (use chance_eq [OF single(2)] in simp_all)
next
  case (duplicated i msg ty s w1)
  show ?case
    by (rule topic_ok_same [OF duplicated(5)]) (use topic_ok_stage [OF duplicated(5,1)] chance_eq [OF duplicated(2)] in simp_all)
next
  case (wrote_again i msg ty s)
  show ?case by (rule topic_ok_write [OF wrote_again(2,4)]) (use topic_ok_stage [OF wrote_again(4,1)] in simp_all)
next
  case (worker s q)
  have "only_encoded K p k0 (ps_taken s) (pw_k (worker_write K p (ps_w s)))"
    using worker_write_cases [of K p "ps_w s"]
  proof (elim disjE exE conjE)
    fix d ds assume d: "dq_phase (pw_delay (ps_w s)) = Writing (d # ds)" "worker_write K p (ps_w s) = sp_write K p (dmsg d) (deventType d) (ps_w s)"
    have "encoded (ps_taken s) (dmsg d)"
      using writing_pushed [OF worker(4) d(1)] topic_ok_queue [OF worker(5)] by (auto simp: list_all_iff)
    from only_encoded_write [OF worker(3) conjunct1 [OF topic_ok_queue [OF worker(5)]] this] show ?thesis using d(2) by simp
  qed (use topic_ok_queue [OF worker(5)] in simp)
  then show ?case using worker(5) worker_keeps_signals [OF worker(2)] by (simp add: topic_ok_def)
next
  case (clock s q)
  then show ?case using env_keeps_signals [OF clock(1)] by (simp add: topic_ok_def)
next
  case (completion s n failed)
  then show ?case by (simp add: topic_ok_def)
qed

subsection \<open>Nothing is lost while nothing fails\<close>

definition on_topic :: "('k, bytes) kafka \<Rightarrow> Producer \<Rightarrow> ('s, 'k) producer_world \<Rightarrow> bytes \<times> bytes \<Rightarrow> bool" where
  "on_topic K p w m \<longleftrightarrow> k_has K (pw_k w) (sw_Topic (pr_w p)) m"

abbreviation errors :: "('s, 'k) producer_world \<Rightarrow> nat" where
  "errors w \<equiv> sp_Errors (pw_m w)"

text \<open>A message a goroutine still has to write or push.\<close>

fun owed :: "stage \<Rightarrow> (bytes \<times> bytes) option" where
  "owed (Choose m ty) = Some m"
| "owed (Hold d) = Some (dmsg d)"
| "owed _ = None"

definition kept :: "('k, bytes) kafka \<Rightarrow> Producer \<Rightarrow> ('s, 'k) producer_world \<Rightarrow> stage list \<Rightarrow> bytes \<times> bytes \<Rightarrow> bool" where
  "kept K p w gs m \<longleftrightarrow> on_topic K p w m \<or> m \<in> dmsg ` set (dq_pushed (pw_delay w)) \<or> Some m \<in> owed ` set gs"

definition kept_ok :: "('k, bytes) kafka \<Rightarrow> Producer \<Rightarrow> ('s, 'k) producers \<Rightarrow> bool" where
  "kept_ok K p s \<longleftrightarrow> errors (ps_w s) = 0 \<longrightarrow>
     list_all (\<lambda>td. on_topic K p (ps_w s) (dmsg (snd td))) (dq_written (pw_delay (ps_w s)))
     \<and> list_all (\<lambda>e. \<exists>b. Marshal_Event e = Some b \<and> kept K p (ps_w s) (ps_stages s) (StationID e, b)) (ps_taken s)"

lemma sp_write_acked: "errors (sp_write K p msg ty w) = 0 \<Longrightarrow> kafka_log K \<Longrightarrow> errors w = 0 \<and> on_topic K p (sp_write K p msg ty w) msg"
  using kafka_log.write_durable [of K "pw_k w" "sw_Topic (pr_w p)" "[msg]" msg]
  by (auto simp: sp_write_def on_topic_def case_prod_beta Let_def split: if_splits)

lemma sp_write_keeps: "kafka_log K \<Longrightarrow> on_topic K p w m \<Longrightarrow> on_topic K p (sp_write K p msg ty w) m"
  unfolding on_topic_def sp_write_k by (rule kafka_log.write_keeps)

lemma in_set_update_other: "x \<in> set xs \<Longrightarrow> x \<noteq> xs ! i \<Longrightarrow> x \<in> set (xs[i := y])"
  by (metis in_set_conv_nth length_list_update nth_list_update_neq)

text \<open>A step of a goroutine that drops no message it owes.\<close>

definition no_loss :: "('k, bytes) kafka \<Rightarrow> Producer \<Rightarrow> ('s, 'k) producer_world \<Rightarrow> ('s, 'k) producer_world \<Rightarrow> bool" where
  "no_loss K p w w' \<longleftrightarrow> (errors w' = 0 \<longrightarrow> errors w = 0) \<and> (\<forall>m. on_topic K p w m \<longrightarrow> on_topic K p w' m)
     \<and> set (dq_pushed (pw_delay w)) \<subseteq> set (dq_pushed (pw_delay w'))
     \<and> (errors w' = 0 \<longrightarrow> (\<forall>td\<in>set (dq_written (pw_delay w')). td \<in> set (dq_written (pw_delay w)) \<or> on_topic K p w' (dmsg (snd td))))"

lemma no_loss_same:
  "pw_k w' = pw_k w \<Longrightarrow> (errors w' = 0 \<Longrightarrow> errors w = 0) \<Longrightarrow> set (dq_pushed (pw_delay w)) \<subseteq> set (dq_pushed (pw_delay w'))
   \<Longrightarrow> dq_written (pw_delay w') = dq_written (pw_delay w) \<Longrightarrow> no_loss K p w w'"
  by (simp add: no_loss_def on_topic_def)

lemma no_loss_write: "kafka_log K \<Longrightarrow> pw_k v = pw_k w \<Longrightarrow> pw_m v = pw_m w \<Longrightarrow> pw_delay v = pw_delay w \<Longrightarrow> no_loss K p w (sp_write K p msg ty v)"
  using sp_write_acked [of K p msg ty v] sp_write_keeps [of K p v _ msg ty] unfolding no_loss_def by (simp add: on_topic_def)

lemma kept_ok_goto:
  assumes s: "kept_ok K p s" "at_stage i g s" and w: "no_loss K p (ps_w s) w"
    and owed: "\<And>m. errors w = 0 \<Longrightarrow> owed g = Some m \<Longrightarrow> on_topic K p w m \<or> m \<in> dmsg ` set (dq_pushed (pw_delay w)) \<or> owed h = Some m"
  shows "kept_ok K p (goto i h w s)"
  unfolding kept_ok_def goto_sel
proof
  assume e: "errors w = 0"
  then have e0: "errors (ps_w s) = 0" using w by (simp add: no_loss_def)
  have i: "i < length (ps_stages s)" "ps_stages s ! i = g" using s(2) by (simp_all add: at_stage_def)
  have "kept K p w ((ps_stages s)[i := h]) m" if m: "kept K p (ps_w s) (ps_stages s) m" for m
  proof -
    consider "on_topic K p (ps_w s) m" | "m \<in> dmsg ` set (dq_pushed (pw_delay (ps_w s)))" | x where "x \<in> set (ps_stages s)" "owed x = Some m"
      using m unfolding kept_def by (auto simp: eq_commute)
    then show ?thesis
    proof cases
      case 1
      then show ?thesis using w unfolding kept_def no_loss_def by blast
    next
      case 2
      then show ?thesis using w unfolding kept_def no_loss_def by blast
    next
      case (3 x)
      show ?thesis
      proof (cases "x = g")
        case True
        then show ?thesis using owed [OF e] 3(2) set_update_memI [OF i(1), of h] unfolding kept_def by (metis image_eqI)
      next
        case False
        then show ?thesis using in_set_update_other [OF 3(1), of i h] 3(2) i(2) unfolding kept_def by (metis image_eqI)
      qed
    qed
  qed
  then show "list_all (\<lambda>td. on_topic K p w (dmsg (snd td))) (dq_written (pw_delay w))
    \<and> list_all (\<lambda>e. \<exists>b. Marshal_Event e = Some b \<and> kept K p w ((ps_stages s)[i := h]) (StationID e, b)) (ps_taken s)"
    using s(1) w e e0 unfolding kept_ok_def no_loss_def list_all_iff by blast
qed

lemma worker_written:
  "dq_worker q q' \<Longrightarrow> dq_written q' = (case dq_phase q of Writing (d # ds) \<Rightarrow> dq_written q @ [(dq_clock q, d)] | _ \<Rightarrow> dq_written q)"
  by (induction rule: dq_worker.induct) simp_all

lemma no_loss_worker:
  assumes "kafka_log K" "dq_worker (pw_delay w) q"
  shows "no_loss K p w ((worker_write K p w)\<lparr>pw_delay := q\<rparr>)"
proof (cases "\<exists>d ds. dq_phase (pw_delay w) = Writing (d # ds)")
  case True
  then obtain d ds where d: "dq_phase (pw_delay w) = Writing (d # ds)" by blast
  then have w: "worker_write K p w = sp_write K p (dmsg d) (deventType d) w" by (simp add: worker_write_def)
  have "dq_written q = dq_written (pw_delay w) @ [(dq_clock (pw_delay w), d)]" using worker_written [OF assms(2)] by (simp add: d(1))
  then show ?thesis
    using no_loss_write [OF assms(1), of w w p "dmsg d" "deventType d"] sp_write_acked [OF _ assms(1), of p "dmsg d" "deventType d" w]
      worker_keeps_signals [OF assms(2)]
    unfolding w no_loss_def on_topic_def by auto
next
  case False
  then have "worker_write K p w = w" "dq_written q = dq_written (pw_delay w)"
    using worker_written [OF assms(2)] by (auto simp: worker_write_def split: dqPhase.splits list.splits)
  then show ?thesis using worker_keeps_signals [OF assms(2)] by (intro no_loss_same) simp_all
qed

lemma step_kept_ok: "producer_step R K p s s' \<Longrightarrow> kafka_log K \<Longrightarrow> kept_ok K p s \<Longrightarrow> kept_ok K p s'"
proof (induction rule: producer_step.induct)
  case (marshalled i s e b)
  let ?s = "goto i (Choose (StationID e, b) (EventType e)) (ps_w s) s"
  have "kept_ok K p ?s" by (rule kept_ok_goto [OF marshalled(4,1)]) (simp_all add: no_loss_same)
  moreover have "Choose (StationID e, b) (EventType e) \<in> set (ps_stages ?s)"
    using marshalled(1) by (simp add: at_stage_def set_update_memI)
  then have "Some (StationID e, b) \<in> owed ` set (ps_stages ?s)" by (metis image_eqI owed.simps(1))
  ultimately show ?case using marshalled(2) by (simp add: kept_ok_def) (auto simp: kept_def)
next
  case (held i msg ty s w1 k w2 now)
  show ?case
    by (rule kept_ok_goto [OF held(5,1)], rule no_loss_same) (use chance_eq [OF held(2)] randInt_eq [OF held(3)] in simp_all)
next
  case (pushed i d s q)
  show ?case by (rule kept_ok_goto [OF pushed(4,1)], rule no_loss_same) (use pushed(2) in auto)
next
  case (signalled i s q)
  show ?case by (rule kept_ok_goto [OF signalled(4,1)], rule no_loss_same) (use signalled(2) in auto)
next
  case (wrote i msg ty s w1)
  show ?case
    by (rule kept_ok_goto [OF wrote(4,1)])
      (use chance_eq [OF wrote(2)] no_loss_write [OF wrote(3), of w1 "ps_w s" p msg ty] sp_write_acked [OF _ wrote(3), of p msg ty w1] in auto)
next
  case (single i msg ty s w1)
  show ?case by (rule kept_ok_goto [OF single(4,1)], rule no_loss_same) (use chance_eq [OF single(2)] in simp_all)
next
  case (duplicated i msg ty s w1)
  show ?case by (rule kept_ok_goto [OF duplicated(4,1)], rule no_loss_same) (use chance_eq [OF duplicated(2)] in simp_all)
next
  case (wrote_again i msg ty s)
  show ?case by (rule kept_ok_goto [OF wrote_again(3,1)]) (simp_all add: no_loss_write [OF wrote_again(2)])
next
  case (worker s q)
  let ?w = "(worker_write K p (ps_w s))\<lparr>pw_delay := q\<rparr>"
  have "no_loss K p (ps_w s) ?w" by (rule no_loss_worker [OF worker(3,2)])
  then show ?case using worker(4) unfolding kept_ok_def no_loss_def list_all_iff kept_def by fastforce
next
  case (clock s q)
  then show ?case using env_keeps_signals [OF clock(1)] by (simp add: kept_ok_def kept_def on_topic_def)
next
  case (completion s n failed)
  then show ?case by (simp add: kept_ok_def kept_def on_topic_def Completion_def)
qed (simp add: kept_ok_def)

lemma producers_start_ok:
  "topic_ok K p k (producers_start R cfg n k now)" "kept_ok K p (producers_start R cfg n k now)"
  by (simp_all add: topic_ok_def kept_ok_def only_encoded_def producers_start_def new_world_def newDelayQueue_def list_all_iff)

lemma producer_run_ok:
  assumes "kafka_log K" "producer_run R K p (producers_start R cfg n k0 now) s"
  shows "queue_ok now s \<and> topic_ok K p k0 s \<and> kept_ok K p s"
  using assms(2)
proof (induction rule: rtranclp_induct)
  case base
  show ?case by (simp add: start_queue_ok producers_start_ok)
next
  case (step s s')
  then show ?case using step_queue_ok step_topic_ok [OF _ assms(1)] step_kept_ok [OF _ assms(1)] by blast
qed

text \<open>Held back: on the heap of the delay queue or on the worker's list of due messages.\<close>

definition held_message :: "('s, 'k) producer_world \<Rightarrow> bytes \<times> bytes \<Rightarrow> bool" where
  "held_message w m \<longleftrightarrow> m \<in> dmsg ` set (dq_h (pw_delay w) @ in_flight (dq_phase (pw_delay w)))"


definition demo_sent :: "(int, bytes broker) producers" where
  "demo_sent = (let s = producers_start tape_rand demo_sim_config 1 broker_empty 0
     in (goto 0 Idle (Send tape_rand mem_kafka (NewProducer demo_sim_config) True 5 demo_wire_event (ps_w s)) s)\<lparr>ps_taken := [demo_wire_event]\<rparr>)"

lemma demo_sent_run: "producer_run tape_rand mem_kafka (NewProducer demo_sim_config) (producers_start tape_rand demo_sim_config 1 broker_empty 0) demo_sent"
  using Send_is_a_run [where i = 0 and s = "producers_start tape_rand demo_sim_config 1 broker_empty 0" and p = "NewProducer demo_sim_config"
      and wait = True and R = tape_rand and K = mem_kafka and now = 5 and e = demo_wire_event]
  by (simp add: demo_sent_def Let_def at_stage_def producers_start_def)

lemma demo_sent_errors: "sp_Errors (pw_m (ps_w demo_sent)) = 0"
  using demo_wire_event_ok(2)
  by (simp add: demo_sent_def Let_def producers_start_def Send_def Marshal_Event_def new_world_def sim_NewMetrics_def chance_def
      NewProducer_def demo_sim_config_def tape_rand_def sp_write_def broker_write_def broker_empty_def
      zero_f64)


end
