(* ===== verification/RtWorkers.thy ===== *)
theory RtWorkers
  imports Realtime
begin

text \<open>
  The realtime group at the grain of single Redis commands. The workers share one server, and the
  commands of one worker's pipeline are interleaved with those of the others (a pipeline is not a
  transaction): between two of them the other workers take any steps. An attempt may be cut off after any
  number of its commands and be reported as failed even when all of them ran; the first failure is
  retried with the whole batch and the second gives it up. A worker may also stop for good in the middle.
  What \<^verbatim>\<open>applyBatch\<close> does to the counters is in \<open>Realtime\<close>; here only the server is shared.
  Shown: a whole \<^verbatim>\<open>applyBatch\<close> is one of these runs, and in every run a key whose events one worker
  has received shows the batches of that worker applied one after another, whatever the others do.
\<close>

text \<open>\<open>Sending again todo\<close>: the first attempt or the retry, and the commands still to run.\<close>

datatype rt_pos = Waiting | Sending bool "stateEvent list"

record 'r rt_workers =
  rg_r :: 'r
  rg_taken :: "nat \<Rightarrow> (rt_in \<times> kmessage list) list"
  rg_pos :: "nat \<Rightarrow> rt_pos"
  rg_lost :: "nat \<Rightarrow> bool"

definition rg_init :: "'r \<Rightarrow> 'r rt_workers" where
  "rg_init r = \<lparr>rg_r = r, rg_taken = (\<lambda>_. []), rg_pos = (\<lambda>_. Waiting), rg_lost = (\<lambda>_. False)\<rparr>"

text \<open>The accepted events of some batches, and of the batch a worker has in hand.\<close>

definition batches_events :: "(rt_in \<times> kmessage list) list \<Rightarrow> stateEvent list" where
  "batches_events bs = concat (map (\<lambda>b. rt_events (fst b) (snd b)) bs)"

definition in_hand :: "'r rt_workers \<Rightarrow> nat \<Rightarrow> stateEvent list" where
  "in_hand g i = (if rg_taken g i = [] then [] else rt_events (fst (last (rg_taken g i))) (snd (last (rg_taken g i))))"

inductive rt_step :: "'r redis \<Rightarrow> realtimeHandler \<Rightarrow> 'r rt_workers \<Rightarrow> 'r rt_workers \<Rightarrow> bool"
  for R h where
  skip: "rg_pos g i = Waiting \<Longrightarrow> rt_events inp batch = [] \<Longrightarrow>
    rt_step R h g (g\<lparr>rg_taken := (rg_taken g)(i := rg_taken g i @ [(inp, batch)])\<rparr>)"
| send: "rg_pos g i = Waiting \<Longrightarrow> rt_events inp batch \<noteq> [] \<Longrightarrow>
    rt_step R h g (g\<lparr>rg_r := snd (r_trip R (rg_r g) (length (rt_events inp batch))),
      rg_taken := (rg_taken g)(i := rg_taken g i @ [(inp, batch)]),
      rg_pos := (rg_pos g)(i := Sending False (rt_events inp batch))\<rparr>)"
| command: "rg_pos g i = Sending again (ev # evs) \<Longrightarrow>
    rt_step R h g (g\<lparr>rg_r := fst (cas_event R (rh_state h) ev (rg_r g)), rg_pos := (rg_pos g)(i := Sending again evs)\<rparr>)"
| reply: "rg_pos g i = Sending again [] \<Longrightarrow>
    rt_step R h g (g\<lparr>rg_pos := (rg_pos g)(i := Waiting)\<rparr>)"
| retry: "rg_pos g i = Sending False evs \<Longrightarrow>
    rt_step R h g (g\<lparr>rg_r := snd (r_trip R (rg_r g) (length (in_hand g i))), rg_pos := (rg_pos g)(i := Sending True (in_hand g i))\<rparr>)"
| give_up: "rg_pos g i = Sending True evs \<Longrightarrow>
    rt_step R h g (g\<lparr>rg_pos := (rg_pos g)(i := Waiting), rg_lost := (rg_lost g)(i := True)\<rparr>)"
| stop: "rg_pos g i = Sending again evs \<Longrightarrow>
    rt_step R h g (g\<lparr>rg_pos := (rg_pos g)(i := Waiting), rg_lost := (rg_lost g)(i := True)\<rparr>)"

inductive rt_reach :: "'r redis \<Rightarrow> realtimeHandler \<Rightarrow> 'r \<Rightarrow> 'r rt_workers \<Rightarrow> bool"
  for R h r0 where
  rt_start: "rt_reach R h r0 (rg_init r0)"
| rt_more: "rt_reach R h r0 g \<Longrightarrow> rt_step R h g g' \<Longrightarrow> rt_reach R h r0 g'"

subsection \<open>A whole batch is a run\<close>

lemma rg_order:
  "g\<lparr>rg_taken := ts, rg_r := r\<rparr> = g\<lparr>rg_r := r, rg_taken := ts\<rparr>"
  "g\<lparr>rg_pos := ps, rg_r := r\<rparr> = g\<lparr>rg_r := r, rg_pos := ps\<rparr>"
  "g\<lparr>rg_pos := ps, rg_taken := ts\<rparr> = g\<lparr>rg_taken := ts, rg_pos := ps\<rparr>"
  "g\<lparr>rg_lost := ls, rg_pos := ps\<rparr> = g\<lparr>rg_pos := ps, rg_lost := ls\<rparr>"
  by simp_all

lemma same_pos: "rg_pos g i = ps \<Longrightarrow> g\<lparr>rg_pos := (rg_pos g)(i := ps)\<rparr> = g"
  by (auto simp: fun_upd_idem)

lemma rt_commands:
  assumes "rt_reach R h r0 g" "rg_pos g i = Sending again evs"
  shows "rt_reach R h r0 (g\<lparr>rg_r := fst (run_cmds (map (cas_event R (rh_state h)) (take n evs)) (rg_r g)),
    rg_pos := (rg_pos g)(i := Sending again (drop n evs))\<rparr>)"
  using assms
proof (induction n arbitrary: g evs)
  case 0
  then show ?case by (simp add: same_pos del: fun_upd_apply)
next
  case (Suc n)
  show ?case
  proof (cases evs)
    case Nil
    then show ?thesis using Suc.prems by (simp add: same_pos del: fun_upd_apply)
  next
    case (Cons ev evs')
    note step = rt_more [OF Suc.prems(1) rt_step.command [OF Suc.prems(2) [unfolded Cons]]]
    show ?thesis using Suc.IH [OF step, of evs'] by (simp add: Cons fun_upd_same del: fun_upd_apply)
  qed
qed

text \<open>One attempt that is sent: the pipeline runs to its end, or is cut off.\<close>

lemma rt_attempt:
  assumes "rt_reach R h r0 (g\<lparr>rg_r := snd (r_trip R (rg_r g) (length evs)), rg_pos := (rg_pos g)(i := Sending again evs)\<rparr>)" "evs \<noteq> []"
  obtains todo where "rt_reach R h r0 (g\<lparr>rg_r := fst (ApplyBatch R (rh_state h) evs (rg_r g)), rg_pos := (rg_pos g)(i := Sending again todo)\<rparr>)"
    "snd (ApplyBatch R (rh_state h) evs (rg_r g)) \<noteq> None \<Longrightarrow> todo = []"
proof -
  let ?cs = "map (cas_event R (rh_state h)) evs"
  obtain n where n: "fst (pipe_exec R ?cs (rg_r g)) = fst (run_cmds (take n ?cs) (snd (r_trip R (rg_r g) (length ?cs))))"
    "snd (pipe_exec R ?cs (rg_r g)) \<noteq> None \<Longrightarrow> n = length ?cs" by (rule pipe_exec_prefix [of R ?cs "rg_r g"]) blast
  have "fst (ApplyBatch R (rh_state h) evs (rg_r g)) = fst (pipe_exec R ?cs (rg_r g))"
    using assms(2) by (simp add: ApplyBatch_def split: prod.split option.split)
  moreover have "snd (pipe_exec R ?cs (rg_r g)) \<noteq> None" if "snd (ApplyBatch R (rh_state h) evs (rg_r g)) \<noteq> None"
    using that assms(2) by (auto simp: ApplyBatch_def split: prod.splits option.splits)
  ultimately show thesis
    using that [of "drop n evs"] rt_commands [OF assms(1), of i again evs n] n by (simp add: take_map)
qed

lemma whole_batch:
  assumes "rt_reach R h r0 g" "rg_pos g i = Waiting" "rw_r w = rg_r g"
  obtains lost where "rt_reach R h r0 (g\<lparr>rg_r := rw_r (applyBatch R h inp batch w),
      rg_taken := (rg_taken g)(i := rg_taken g i @ [(inp, batch)]), rg_lost := (rg_lost g)(i := rg_lost g i \<or> lost)\<rparr>)"
    "RedisErrors (rw_m (applyBatch R h inp batch w)) ''state'' \<le> RedisErrors (rw_m w) ''state'' + 1 \<Longrightarrow> \<not> lost"
proof -
  let ?evs = "rt_events inp batch" and ?g = "g\<lparr>rg_taken := (rg_taken g)(i := rg_taken g i @ [(inp, batch)])\<rparr>"
  let ?a1 = "ApplyBatch R (rh_state h) ?evs (rw_r w)"
  have keep: "(rg_lost g)(i := rg_lost g i) = rg_lost g" "(rg_pos g)(i := Waiting) = rg_pos g"
    using assms(2) by (simp_all add: fun_upd_idem)
  have sent: "rt_reach R h r0 (?g\<lparr>rg_r := snd (r_trip R (rg_r ?g) (length ?evs)), rg_pos := (rg_pos ?g)(i := Sending False ?evs)\<rparr>)"
    if "?evs \<noteq> []"
    using rt_more [OF assms(1) rt_step.send [OF assms(2) that]] by (simp add: rg_order)
  have again: "rt_reach R h r0 (g'\<lparr>rg_r := snd (r_trip R (rg_r g') (length ?evs)), rg_pos := (rg_pos g')(i := Sending True ?evs)\<rparr>)"
    if "rt_reach R h r0 g'" "g' = ?g\<lparr>rg_r := r, rg_pos := (rg_pos ?g)(i := Sending False todo)\<rparr>" for r todo g'
    using rt_more [OF that(1) rt_step.retry [where i = i and evs = todo]] by (simp add: that(2) in_hand_def rg_order)
  show thesis
  proof (cases rule: applyBatch_cases [where inp = inp and batch = batch and R = R and h = h and w = w])
    case none
    show thesis
      using that [of False] rt_more [OF assms(1) rt_step.skip [OF assms(2) none(1)]] by (simp add: none(2) assms(3) keep)
  next
    case (first flags)
    obtain todo where r: "rt_reach R h r0 (?g\<lparr>rg_r := fst ?a1, rg_pos := (rg_pos ?g)(i := Sending False todo)\<rparr>)" "todo = []"
      using rt_attempt [OF sent [OF first(1)] first(1)] first(2) assms(3) by auto
    show thesis using that [of False] rt_more [OF r(1) rt_step.reply [where i = i and again = False]] by (simp add: r(2) first(3) keep rg_order)
  next
    case (retried flags)
    obtain todo where r1: "rt_reach R h r0 (?g\<lparr>rg_r := fst ?a1, rg_pos := (rg_pos ?g)(i := Sending False todo)\<rparr>)"
      using rt_attempt [OF sent [OF retried(1)] retried(1)] assms(3) by auto
    obtain todo' where r: "rt_reach R h r0 (?g\<lparr>rg_r := fst (ApplyBatch R (rh_state h) ?evs (fst ?a1)), rg_pos := (rg_pos ?g)(i := Sending True todo')\<rparr>)"
      "todo' = []"
      using rt_attempt [OF again [OF r1 refl] retried(1)] retried(2) by auto
    show thesis using that [of False] rt_more [OF r(1) rt_step.reply [where i = i and again = True]] by (simp add: r(2) retried(3) keep rg_order)
  next
    case given_up
    obtain todo where r1: "rt_reach R h r0 (?g\<lparr>rg_r := fst ?a1, rg_pos := (rg_pos ?g)(i := Sending False todo)\<rparr>)"
      using rt_attempt [OF sent [OF given_up(1)] given_up(1)] assms(3) by auto
    obtain todo' where r: "rt_reach R h r0 (?g\<lparr>rg_r := fst (ApplyBatch R (rh_state h) ?evs (fst ?a1)), rg_pos := (rg_pos ?g)(i := Sending True todo')\<rparr>)"
      using rt_attempt [OF again [OF r1 refl] given_up(1)] by auto
    have "RedisErrors (rw_m (applyBatch R h inp batch w)) ''state'' = RedisErrors (rw_m w) ''state'' + 2"
      using given_up(3) by (simp add: redis_error_def observe_redis_def inc_apply rt_decode_metrics)
    then show thesis
      using that [of True] rt_more [OF r rt_step.give_up [where i = i and evs = todo']] by (simp add: given_up(2) keep rg_order)
  qed
qed

subsection \<open>A worker's keys follow its own batches\<close>

text \<open>Worker \<open>i\<close> alone has received events of the key.\<close>

definition owns :: "'r rt_workers \<Rightarrow> nat \<Rightarrow> string \<Rightarrow> bool" where
  "owns g i k \<longleftrightarrow> (\<forall>j. j \<noteq> i \<longrightarrow> (\<forall>ev\<in>set (batches_events (rg_taken g j)). stateKeyForEvent (se_e ev) \<noteq> k))"

text \<open>What is still to run is the rest of the batch in hand.\<close>

definition sends_rest :: "'r rt_workers \<Rightarrow> bool" where
  "sends_rest g \<longleftrightarrow> (\<forall>i again todo. rg_pos g i = Sending again todo \<longrightarrow> rg_taken g i \<noteq> [] \<and> (\<exists>n. todo = drop n (in_hand g i)))"

definition cell_at :: "'r redis \<Rightarrow> 'r rt_workers \<Rightarrow> string \<Rightarrow> bytes cell" where
  "cell_at R g k = cell_of (r_hget R (rg_r g) k)"

text \<open>
  The cell of an owned key: all batches of its owner, or all but the last one, a prefix of that one if
  this is the retry, and what the present attempt has run.
\<close>

definition follows :: "'r redis \<Rightarrow> bytes cell \<Rightarrow> string \<Rightarrow> nat \<Rightarrow> 'r rt_workers \<Rightarrow> bool" where
  "follows R c0 k i g \<longleftrightarrow> (case rg_pos g i of
       Waiting \<Rightarrow> cell_at R g k = apply_cells (writes_for R k (batches_events (rg_taken g i))) c0
     | Sending again todo \<Rightarrow> \<exists>m n. todo = drop n (in_hand g i) \<and> (again \<or> m = 0) \<and> cell_at R g k =
         apply_cells (writes_for R k (batches_events (butlast (rg_taken g i)) @ take m (in_hand g i) @ take n (in_hand g i))) c0)"

lemma batches_events_snoc [simp]:
  "batches_events (bs @ [b]) = batches_events bs @ rt_events (fst b) (snd b)"
  "batches_events [] = []"
  by (simp_all add: batches_events_def)

lemma writes_for_parts [simp]:
  "writes_for R k [] = []" "writes_for R k (xs @ ys) = writes_for R k xs @ writes_for R k ys"
  by (simp_all add: writes_for_def)

lemma batches_in_hand: "rg_taken g i \<noteq> [] \<Longrightarrow> batches_events (rg_taken g i) = batches_events (butlast (rg_taken g i)) @ in_hand g i"
  by (metis append_butlast_last_id batches_events_snoc(1) in_hand_def)

lemma owns_step: "rt_step R h g g' \<Longrightarrow> owns g' i k \<Longrightarrow> owns g i k"
proof -
  assume step: "rt_step R h g g'" and own: "owns g' i k"
  from step have "set (batches_events (rg_taken g j)) \<subseteq> set (batches_events (rg_taken g' j))" for j
    by (cases rule: rt_step.cases) auto
  with own show ?thesis unfolding owns_def by blast
qed

lemma lost_step: "rt_step R h g g' \<Longrightarrow> \<not> rg_lost g' i \<Longrightarrow> \<not> rg_lost g i"
  by (cases rule: rt_step.cases) (auto split: if_splits)

lemma sends_rest_init: "sends_rest (rg_init r)"
  by (simp add: sends_rest_def rg_init_def)

lemma drop_next: "drop n xs = y # ys \<Longrightarrow> ys = drop (Suc n) xs \<and> take (Suc n) xs = take n xs @ [y]"
  by (metis Cons_nth_drop_Suc drop_eq_Nil linorder_not_less list.distinct(1) list.inject take_Suc_conv_app_nth)

lemma sends_rest_step:
  assumes "rt_step R h g g'" "sends_rest g"
  shows "sends_rest g'"
  using assms
proof (cases rule: rt_step.cases)
  case (send i inp batch)
  then show ?thesis using assms(2) by (auto simp: sends_rest_def in_hand_def intro: exI [of _ 0] split: if_splits)
next
  case (command i again ev evs)
  then obtain n where "drop n (in_hand g i) = ev # evs" "rg_taken g i \<noteq> []" using assms(2) unfolding sends_rest_def by metis
  then have "\<exists>n. evs = drop n (in_hand g i)" using drop_next by metis
  then show ?thesis using command assms(2) \<open>rg_taken g i \<noteq> []\<close> by (auto simp: sends_rest_def in_hand_def split: if_splits)
next
  case (retry i evs)
  then have "rg_taken g i \<noteq> []" using assms(2) by (auto simp: sends_rest_def)
  then show ?thesis using retry assms(2) by (auto simp: sends_rest_def in_hand_def intro: exI [of _ 0] split: if_splits)
qed (auto simp: sends_rest_def in_hand_def split: if_splits)

text \<open>Running a prefix before the whole makes no difference.\<close>

lemma apply_prefix_again:
  "apply_cells (writes_for R k xs) (apply_cells (writes_for R k (take m xs)) c) = apply_cells (writes_for R k xs) c"
proof -
  have "writes_for R k xs = writes_for R k (take m xs) @ writes_for R k (drop m xs)"
    by (metis append_take_drop_id writes_for_parts(2))
  then show ?thesis by (simp add: apply_cells_idem)
qed

lemma follows_frame:
  "cell_at R g' k = cell_at R g k \<Longrightarrow> rg_pos g' i = rg_pos g i \<Longrightarrow> rg_taken g' i = rg_taken g i \<Longrightarrow>
    follows R c0 k i g' = follows R c0 k i g"
proof -
  assume same: "cell_at R g' k = cell_at R g k" "rg_pos g' i = rg_pos g i" "rg_taken g' i = rg_taken g i"
  then have "in_hand g' i = in_hand g i" by (simp add: in_hand_def)
  with same show ?thesis by (simp add: follows_def split: rt_pos.split)
qed

lemma command_event:
  assumes "sends_rest g" "rg_pos g j = Sending again (ev # evs)"
  shows "ev \<in> set (batches_events (rg_taken g j))" "stamped ev"
proof -
  obtain n where "drop n (in_hand g j) = ev # evs" "rg_taken g j \<noteq> []" using assms unfolding sends_rest_def by metis
  then have "ev \<in> set (in_hand g j)" by (metis in_set_dropD list.set_intros(1))
  then show "ev \<in> set (batches_events (rg_taken g j))" "stamped ev"
    using \<open>rg_taken g j \<noteq> []\<close> rt_events_stamped by (auto simp: batches_in_hand, auto simp: in_hand_def list_all_iff)
qed

context redis_hash_live
begin

lemma step_state_wf:
  assumes "rt_step R h g g'" "sends_rest g" "state_wf R (rg_r g)" "0 < Milliseconds (ss_ttl (rh_state h))"
  shows "state_wf R (rg_r g')"
  using assms(1)
proof (cases rule: rt_step.cases)
  case (command i again ev evs)
  have "\<bar>UnixMilli (se_ts ev)\<bar> \<le> 2 ^ 53" using stamped_bound [of "[ev]"] command_event(2) [OF assms(2) command(2)] by simp
  then show ?thesis using cas_event_cell(2) [OF assms(3) _ assms(4)] by (simp add: command(1) state_wf_def)
qed (use assms(3) state_wf_trip in simp_all)

lemma cell_at_trip: "cell_at R (g\<lparr>rg_r := snd (r_trip R (rg_r g) n)\<rparr>) k = cell_at R g k"
  by (simp add: cell_at_def hget_trip_live)

lemma follows_step:
  assumes step: "rt_step R h g g'" and own: "owns g' i k" "\<not> rg_lost g' i"
    and inv: "sends_rest g" "state_wf R (rg_r g)" "0 < Milliseconds (ss_ttl (rh_state h))" "follows R c0 k i g"
  shows "follows R c0 k i g'"
proof -
  note frame = follows_frame [of R g' k g i c0]
  from step show ?thesis
  proof (cases rule: rt_step.cases)
    case (skip j inp batch)
    then show ?thesis using inv(4) frame by (cases "j = i") (simp_all add: follows_def cell_at_def)
  next
    case (send j inp batch)
    then show ?thesis using inv(4) frame
      by (cases "j = i") (auto simp: follows_def cell_at_def in_hand_def hget_trip_live intro!: exI [of _ 0])
  next
    case (command j again ev evs)
    note ev = command_event [OF inv(1) command(2)]
    have "\<bar>UnixMilli (se_ts ev)\<bar> \<le> 2 ^ 53" using stamped_bound [of "[ev]"] ev(2) by simp
    note cell = cas_event_cell(1) [OF inv(2) this inv(3), of k]
    show ?thesis
    proof (cases "j = i")
      case False
      then have "stateKeyForEvent (se_e ev) \<noteq> k" using owns_step [OF step own(1)] ev(1) by (auto simp: owns_def)
      then show ?thesis using frame inv(4) cell False by (simp add: command(1) cell_at_def)
    next
      case True
      then obtain m n where mn: "ev # evs = drop n (in_hand g i)" "again \<or> m = 0" "cell_at R g k =
          apply_cells (writes_for R k (batches_events (butlast (rg_taken g i)) @ take m (in_hand g i) @ take n (in_hand g i))) c0"
        using inv(4) command(2) by (auto simp: follows_def)
      then have "evs = drop (Suc n) (in_hand g i) \<and> take (Suc n) (in_hand g i) = take n (in_hand g i) @ [ev]"
        using drop_next by metis
      moreover have "cell_at R g' k = apply_cells (writes_for R k [ev]) (cell_at R g k)"
        using cell by (simp add: command(1) cell_at_def writes_for_def)
      moreover have "rg_pos g' i = Sending again evs" "rg_taken g' i = rg_taken g i" "in_hand g' i = in_hand g i"
        using True by (simp_all add: command(1) in_hand_def)
      ultimately show ?thesis
        using mn(2,3) by (simp only: follows_def rt_pos.case) (intro exI [of _ m] exI [of _ "Suc n"], simp)
    qed
  next
    case (reply j again)
    show ?thesis
    proof (cases "j = i")
      case True
      then obtain m n where mn: "drop n (in_hand g i) = []" "cell_at R g k =
          apply_cells (writes_for R k (batches_events (butlast (rg_taken g i)) @ take m (in_hand g i) @ take n (in_hand g i))) c0"
        using inv(4) unfolding follows_def reply(2) [unfolded True] rt_pos.case by metis
      moreover have "rg_taken g i \<noteq> []" using inv(1) reply(2) True by (auto simp: sends_rest_def)
      ultimately show ?thesis
        using True by (simp add: reply(1) follows_def cell_at_def batches_in_hand apply_prefix_again)
    qed (use reply inv(4) frame in \<open>simp add: cell_at_def\<close>)
  next
    case (retry j evs)
    show ?thesis
    proof (cases "j = i")
      case True
      then obtain n where n: "cell_at R g k =
          apply_cells (writes_for R k (batches_events (butlast (rg_taken g i)) @ take n (in_hand g i))) c0"
        using inv(4) retry(2) by (auto simp: follows_def)
      moreover have "rg_pos g' i = Sending True (in_hand g i)" "rg_taken g' i = rg_taken g i" "in_hand g' i = in_hand g i"
        "cell_at R g' k = cell_at R g k"
        using True by (simp_all add: retry(1) in_hand_def cell_at_def hget_trip_live)
      ultimately show ?thesis
        by (simp only: follows_def rt_pos.case) (intro exI [of _ n] exI [of _ 0], simp)
    qed (use retry inv(4) frame in \<open>simp add: cell_at_def hget_trip_live\<close>)
  next
    case (give_up j evs)
    then show ?thesis using own(2) inv(4) frame by (cases "j = i") (simp_all add: cell_at_def)
  next
    case (stop j again evs)
    then show ?thesis using own(2) inv(4) frame by (cases "j = i") (simp_all add: cell_at_def)
  qed
qed

lemma reach_follows:
  assumes "rt_reach R h r0 g" "state_wf R r0" "0 < Milliseconds (ss_ttl (rh_state h))"
  shows "sends_rest g \<and> state_wf R (rg_r g)
    \<and> (\<forall>i k. owns g i k \<longrightarrow> \<not> rg_lost g i \<longrightarrow> follows R (cell_of (r_hget R r0 k)) k i g)"
  using assms(1)
proof (induction rule: rt_reach.induct)
  case rt_start
  then show ?case using assms(2) by (simp add: sends_rest_init) (simp add: follows_def rg_init_def cell_at_def writes_for_def)
next
  case (rt_more g g')
  then show ?case
    using sends_rest_step [OF rt_more.hyps(2)] step_state_wf [OF rt_more.hyps(2) _ _ assms(3)]
      follows_step [OF rt_more.hyps(2) _ _ _ _ assms(3)] owns_step [OF rt_more.hyps(2)] lost_step [OF rt_more.hyps(2)]
    by meson
qed

end


text \<open>Two workers of one group: the second sends a heartbeat while the first is cut off and retries.\<close>

definition demo_beat_payload :: bytes where
  "demo_beat_payload = demo_json (''{!event_id!:!'' @ demo_uuid @ ''!,!event_type!:!HEARTBEAT!,!station_id!:!ST-1!,!connector_id!:0,!timestamp!:!2026-01-02T03:04:05.678Z!,!operator_id!:!op!,!location!:{!lat!:52,!lon!:13,!city!:!Berlin!,!country!:!DE!}}'')"

definition demo_beat :: "kmessage list" where
  "demo_beat = [\<lparr>km_Key = ''ST-1'', km_Value = demo_beat_payload, km_Time = 0\<rparr>]"

definition demo_se :: stateEvent where
  "demo_se = \<lparr>se_e = demo_event, se_ts = 1767323045678000000, se_produced = 0\<rparr>"

definition demo_beat_event :: Event where
  "demo_beat_event = zero_Event\<lparr>EventID := demo_uuid, EventType := ''HEARTBEAT'', StationID := ''ST-1'',
     Timestamp := ''2026-01-02T03:04:05.678Z'', OperatorID := ''op'',
     Location := \<lparr>Lat = Fin 52, Lon = Fin 13, City = ''Berlin'', Country = ''DE''\<rparr>\<rparr>"

lemma demo_garbage: "Decode ''{'' = Inl (projl (Decode ''{''))"
  by code_simp

lemma demo_beat_valid: "Decode demo_beat_payload = Inr demo_beat_event" "Validate demo_beat_event demo_reg demo_reg = Inr 1767323045678000000"
  by code_simp+

lemma demo_keys: "stateKeyForEvent demo_event = ''station:ST-1:3''" "stateKeyForEvent demo_beat_event = ''station_liveness:ST-1''"
  by code_simp+

lemma demo_rt_events: "rt_events demo_rt_in demo_rt_batch = [demo_se]"
proof -
  obtain err where "Decode ''{'' = Inl err" using demo_garbage by blast
  then show ?thesis
    by (simp add: rt_events_def demo_rt_batch_def demo_rt_in_def demo_Decode demo_Validate demo_se_def Let_def case_prod_beta)
qed

lemma demo_beat_events: "rt_events demo_rt_in demo_beat = [demo_se\<lparr>se_e := demo_beat_event\<rparr>]"
  by (simp add: rt_events_def demo_beat_def demo_rt_in_def demo_beat_valid demo_se_def Let_def case_prod_beta)

lemma demo_writes: "writes_for R ''station:ST-1:3'' [demo_se] = [(1767323045678, [''status'' \<mapsto> ''Faulted''])]"
proof -
  have "event_write R demo_se = (1767323045678, [''status'' \<mapsto> ''Faulted''])"
    by (simp add: event_write_def demo_se_def state_fields_def UnixMilli_def demo_event_def zero_Event_def)
  then show ?thesis by (simp add: writes_for_def demo_keys demo_se_def)
qed

lemma demo_race:
  "\<exists>g. rt_reach R h r0 g \<and> rg_taken g 0 = [(demo_rt_in, demo_rt_batch)] \<and> rg_taken g 1 = [(demo_rt_in, demo_beat)]
     \<and> (\<forall>j. j \<noteq> 0 \<longrightarrow> j \<noteq> 1 \<longrightarrow> rg_taken g j = []) \<and> rg_pos g 0 = Waiting \<and> rg_pos g 1 = Sending False []
     \<and> \<not> rg_lost g 0"
proof -
  let ?beat = "demo_se\<lparr>se_e := demo_beat_event\<rparr>"
  note r0 = rt_start [of R h r0]
  note r1 = rt_more [OF r0 rt_step.send [where i = 0 and inp = demo_rt_in and batch = demo_rt_batch]]
  note r2 = rt_more [OF r1 rt_step.send [where i = 1 and inp = demo_rt_in and batch = demo_beat]]
  note r3 = rt_more [OF r2 rt_step.command [where i = 1 and again = False and ev = ?beat and evs = "[]"]]
  note r4 = rt_more [OF r3 rt_step.retry [where i = 0 and evs = "[demo_se]"]]
  note r5 = rt_more [OF r4 rt_step.command [where i = 0 and again = True and ev = demo_se and evs = "[]"]]
  note r6 = rt_more [OF r5 rt_step.reply [where i = 0 and again = True]]
  show ?thesis by (rule exI, rule conjI, rule r6) (simp_all add: rg_init_def in_hand_def demo_rt_events demo_beat_events)
qed


end
