(* ===== verification/SimMirror.thy ===== *)
theory SimMirror
  imports SimMain RtWorkers
begin

text \<open>
  The current state that the processor keeps in Redis against the state of the simulator's connectors.
  The events a worker hands to \<^verbatim>\<open>Send\<close> for one connector never go back in time, so the hash of the
  connector accepts each of them, and after any run it shows the status of the connector and its session.
\<close>

subsection \<open>What a run of events shows\<close>

definition ev_ms :: "Event \<Rightarrow> int" where
  "ev_ms e = (case time_Parse (Timestamp e) of None \<Rightarrow> 0 | Some ts \<Rightarrow> UnixMilli ts)"

definition shown :: "'r redis \<Rightarrow> Event list \<Rightarrow> string \<rightharpoonup> bytes" where
  "shown R es = foldl (\<lambda>m e. m ++ map_of (rev (state_fields R e))) Map.empty es"

lemma shown_simps [simp]:
  "shown R [] = Map.empty" "shown R (es @ [e]) = shown R es ++ map_of (rev (state_fields R e))"
  by (simp_all add: shown_def)

lemma shown_append: "shown R (es @ fs) = shown R es ++ shown R fs"
  by (induction fs rule: rev_induct) (simp_all flip: append_assoc)

lemma shown_Cons: "shown R (e # es) = map_of (rev (state_fields R e)) ++ shown R es"
  using shown_append [of R "[e]" es] by (simp add: shown_def)

lemma state_fields_status:
  "map_of (rev (state_fields R e)) ''status'' = (if EventType e = ''STATUS_CHANGE'' \<and> Status e \<noteq> [] then Some (Status e) else None)"
  by (simp add: state_fields_def split: option.split)

lemma state_fields_session:
  "map_of (rev (state_fields R e)) ''session'' =
     (if EventType e \<in> {''SESSION_START'', ''METER_UPDATE''} \<and> SessionID e \<noteq> [] then Some (SessionID e)
      else if EventType e = ''SESSION_STOP'' then Some [] else None)"
  by (simp add: state_fields_def split: option.split)

text \<open>In an ordered run no event is stale: the cell is the last time and all the fields written.\<close>

lemma apply_cells_sorted:
  assumes "sorted (map fst ws)" "ws \<noteq> []"
  shows "apply_cells ws None = Some (fst (last ws), foldl (\<lambda>m w. m ++ snd w) Map.empty ws)"
  using assms
proof (induction ws rule: rev_induct)
  case (snoc w ws)
  obtain t f where w: "w = (t, f)" by (cases w)
  show ?case
  proof (cases "ws = []")
    case False
    then have "fst (last ws) \<le> t" using snoc.prems by (simp add: w sorted_append)
    then have "\<not> t < fst (last ws)" by simp
    moreover have "sorted (map fst ws)" using snoc.prems by (simp add: sorted_append)
    ultimately show ?thesis using False snoc.IH by (simp add: w del: not_less)
  qed (simp add: w)
qed simp

text \<open>The events of one connector: the ones its hash is written by.\<close>

definition of_conn :: "string \<Rightarrow> int \<Rightarrow> Event \<Rightarrow> bool" where
  "of_conn sid cid e \<longleftrightarrow> StationID e = sid \<and> ConnectorID e = cid \<and> EventType e \<noteq> ''HEARTBEAT''"

lemma of_conn_key: "stateKeyForEvent e = stateKey sid cid \<longleftrightarrow> of_conn sid cid e"
  using liveness_key_disjoint by (auto simp: stateKeyForEvent_def of_conn_def dest: stateKey_inj)

text \<open>A connector and the events sent for it up to the time \<open>l\<close> of the last tick.\<close>

definition tracked :: "'r redis \<Rightarrow> instant \<Rightarrow> Connector \<Rightarrow> Event list \<Rightarrow> bool" where
  "tracked R l c es \<longleftrightarrow> sorted (map ev_ms es) \<and> (\<forall>e\<in>set es. ev_ms e \<le> UnixMilli l)
     \<and> shown R es ''status'' = Some (cn_status c)
     \<and> (case cn_session c of None \<Rightarrow> shown R es ''session'' \<in> {None, Some []}
        | Some ses \<Rightarrow> shown R es ''session'' = Some (ss_ID ses) \<and> l \<le> ss_EndsAt ses)"

text \<open>What a tick at \<open>now\<close>, after the tick at \<open>l\<close>, sends for a connector.\<close>

definition conn_tick :: "'r redis \<Rightarrow> string \<Rightarrow> instant \<Rightarrow> instant \<Rightarrow> Connector \<Rightarrow> Connector \<Rightarrow> Event list \<Rightarrow> bool" where
  "conn_tick R sid l now c c' es \<longleftrightarrow> cn_ID c' = cn_ID c \<and> list_all (of_conn sid (cn_ID c)) es
     \<and> sorted (map ev_ms es) \<and> (\<forall>e\<in>set es. UnixMilli l \<le> ev_ms e \<and> ev_ms e \<le> UnixMilli now)
     \<and> (case shown R es ''status'' of None \<Rightarrow> cn_status c' = cn_status c | Some x \<Rightarrow> cn_status c' = x)
     \<and> (case cn_session c' of
          None \<Rightarrow> shown R es ''session'' = Some [] \<or> shown R es ''session'' = None \<and> cn_session c = None
        | Some ses \<Rightarrow> now \<le> ss_EndsAt ses \<and> (shown R es ''session'' = Some (ss_ID ses)
            \<or> shown R es ''session'' = None \<and> map_option ss_ID (cn_session c) = Some (ss_ID ses)))"

lemma UnixMilli_mono: "s \<le> t \<Longrightarrow> UnixMilli s \<le> UnixMilli t"
  by (simp add: UnixMilli_def zdiv_mono1)

lemma tracked_tick:
  assumes "tracked R l c es" "conn_tick R sid l now c c' fs" "l \<le> now"
  shows "tracked R now c' (es @ fs)"
proof -
  have "UnixMilli l \<le> UnixMilli now" using assms(3) by (rule UnixMilli_mono)
  then have ms: "\<forall>e\<in>set (es @ fs). ev_ms e \<le> UnixMilli now" "sorted (map ev_ms (es @ fs))"
    using assms by (fastforce simp: tracked_def conn_tick_def sorted_append)+
  have "shown R (es @ fs) ''status'' = Some (cn_status c')"
    using assms(1,2) by (auto simp: tracked_def conn_tick_def shown_append map_add_def split: option.splits)
  moreover have "case cn_session c' of None \<Rightarrow> shown R (es @ fs) ''session'' \<in> {None, Some []}
      | Some ses \<Rightarrow> shown R (es @ fs) ''session'' = Some (ss_ID ses) \<and> now \<le> ss_EndsAt ses"
    using assms(1,2) by (auto simp: tracked_def conn_tick_def shown_append map_add_def split: option.splits)
  ultimately show ?thesis using ms by (simp add: tracked_def)
qed

subsection \<open>The events of one step\<close>

definition sent :: "string \<Rightarrow> int \<Rightarrow> instant \<Rightarrow> string \<Rightarrow> Event \<Rightarrow> bool" where
  "sent sid cid t ty e \<longleftrightarrow> StationID e = sid \<and> ConnectorID e = cid \<and> EventType e = ty \<and> Timestamp e = format_ms t"

lemma sent_ms: "sent sid cid t ty e \<Longrightarrow> in_time t \<Longrightarrow> ev_ms e = UnixMilli t"
  by (simp add: sent_def ev_ms_def parse_format UnixMilli_def minus_mod_eq_div_mult)

lemma sent_of_conn: "sent sid cid t ty e \<Longrightarrow> ty \<noteq> ''HEARTBEAT'' \<Longrightarrow> of_conn sid cid e"
  by (simp add: sent_def of_conn_def)

lemma sent_type: "sent sid cid t ty e \<Longrightarrow> EventType e = ty"
  by (simp add: sent_def)

lemma statusChange_sent:
  "statusChange R st c now x s = (e, s') \<Longrightarrow> sent (st_ID st) (cn_ID c) now ''STATUS_CHANGE'' e \<and> Status e = x"
  by (auto simp: statusChange_def baseEvent_def sent_def case_prod_beta Let_def split: option.split)

lemma faultAlert_sent: "faultAlert R st c now s = (e, s') \<Longrightarrow> sent (st_ID st) (cn_ID c) now ''FAULT_ALERT'' e"
  by (auto simp: faultAlert_def baseEvent_def sent_def case_prod_beta Let_def)

lemma stopSession_sent:
  "stopSession R cfg st c now s = Some (e, c', s') \<Longrightarrow> sent (st_ID st) (cn_ID c) now ''SESSION_STOP'' e
     \<and> cn_ID c' = cn_ID c \<and> cn_session c' = None \<and> cn_status c' = ''Available''"
  by (auto simp: stopSession_def baseEvent_def sent_def case_prod_beta Let_def split: option.splits)

lemma meterTick_sent:
  "meterTick R cfg st c now s = Some (e, c', s') \<Longrightarrow> \<exists>ses ses'. cn_session c = Some ses \<and> cn_session c' = Some ses'
     \<and> sent (st_ID st) (cn_ID c) now ''METER_UPDATE'' e \<and> SessionID e = ss_ID ses
     \<and> cn_ID c' = cn_ID c \<and> cn_status c' = cn_status c \<and> ss_ID ses' = ss_ID ses \<and> ss_EndsAt ses' = ss_EndsAt ses"
  by (auto simp: meterTick_def baseEvent_def sent_def charge_def case_prod_beta Let_def split: option.splits if_splits)

text \<open>Session lengths that are numbers of at most 69 days: with them a session ends after it has started.\<close>

definition lengths_ok :: "SimConfig \<Rightarrow> bool" where
  "lengths_ok cfg \<longleftrightarrow> (let sm = sc_SessionMinutes (sm_Simulator cfg)
     in in_range 0 (sd_Min sm) 100000 \<and> in_range 0 (sd_Max sm) 100000 \<and> in_range 0 (sd_Mean sm) 100000)"

lemma trunc_loop_range:
  assumes "in_range 0 lo b" "in_range 0 hi b" "in_range 0 mean b"
  shows "in_range 0 (fst (trunc_loop n R mean std lo hi s)) b"
proof (induction n arbitrary: s)
  case 0
  then show ?case using assms by (auto simp: in_range_iff math_Max_def math_Min_def)
next
  case (Suc n)
  have "in_range 0 v b" if "lo \<le> v" "v \<le> hi" for v
    using that assms by (cases v) (auto simp: in_range_iff less_eq_float64_def)
  then show ?case using Suc by (auto simp: case_prod_beta Let_def)
qed

lemma to_duration_nonneg: "in_range 0 m 100000 \<Longrightarrow> 0 \<le> to_duration m"
proof -
  assume "in_range 0 m 100000"
  moreover have "f64_of_int (60 * second) = Fin 60000000000" using f64_of_int_exact [of "60 * second"] by simp
  ultimately have "in_range (of_int 0) (m * f64_of_int (60 * second)) (of_int 6000000000000000)"
    by (simp only: of_int_0) (rule in_range_mult [where a = 0 and b = 100000 and c = 60000000000 and d = 60000000000], simp_all add: in_range_iff)
  then show ?thesis unfolding to_duration_def by (rule int_of_range [THEN conjunct1]) (simp_all add: go_int64_max_def)
qed

lemma startSession_sent:
  assumes "lengths_ok cfg" "startSession R cfg st c now s = (e, c', s')"
  shows "\<exists>ses. cn_session c' = Some ses \<and> sent (st_ID st) (cn_ID c) now ''SESSION_START'' e \<and> SessionID e = ss_ID ses
     \<and> ss_ID ses \<noteq> [] \<and> cn_ID c' = cn_ID c \<and> cn_status c' = ''Charging'' \<and> now \<le> ss_EndsAt ses"
  using assms(2) to_duration_nonneg [OF trunc_loop_range] assms(1)
  by (auto simp: startSession_def baseEvent_def sent_def truncNormal_def lengths_ok_def case_prod_beta Let_def)

lemmas shown_eval = shown_Cons map_add_def state_fields_status state_fields_session

text \<open>Two or three events of a step: the first may be earlier, the last is the tick's.\<close>

lemma conn_tick_idle:
  "(\<And>ses. cn_session c = Some ses \<Longrightarrow> now \<le> ss_EndsAt ses) \<Longrightarrow> conn_tick R sid l now c c []"
  by (simp add: conn_tick_def split: option.split)

lemma sent_tick:
  assumes "list_all (\<lambda>(t, ty, e). sent sid (cn_ID c) t ty e \<and> l \<le> t \<and> t \<le> now \<and> in_time t \<and> ty \<noteq> ''HEARTBEAT'') xs"
    and "sorted (map fst xs)"
  shows "list_all (of_conn sid (cn_ID c)) (map (snd \<circ> snd) xs) \<and> sorted (map ev_ms (map (snd \<circ> snd) xs))
    \<and> (\<forall>e\<in>set (map (snd \<circ> snd) xs). UnixMilli l \<le> ev_ms e \<and> ev_ms e \<le> UnixMilli now)"
proof -
  have ms: "map ev_ms (map (snd \<circ> snd) xs) = map UnixMilli (map fst xs)"
    using assms(1) sent_ms by (auto simp: list_all_iff)
  have "sorted (map UnixMilli ts)" if "sorted ts" for ts
    using that by (induction ts) (auto intro: UnixMilli_mono)
  then have "sorted (map ev_ms (map (snd \<circ> snd) xs))" using assms(2) unfolding ms by blast
  moreover have "UnixMilli l \<le> ev_ms e \<and> ev_ms e \<le> UnixMilli now \<and> of_conn sid (cn_ID c) e" if "(t, ty, e) \<in> set xs" for t ty e
  proof -
    have s: "sent sid (cn_ID c) t ty e" "l \<le> t" "t \<le> now" "in_time t" "ty \<noteq> ''HEARTBEAT''"
      using assms(1) that by (auto simp: list_all_iff)
    then show ?thesis using sent_ms [OF s(1,4)] sent_of_conn [OF s(1,5)] UnixMilli_mono by metis
  qed
  ultimately show ?thesis by (auto simp: list_all_iff)
qed

lemma step_faulted_tick:
  assumes "cn_session c = None" "l < now" "in_time now" "step_faulted R cfg st now c s n = (c', s', n', es)"
  shows "conn_tick S (st_ID st) l now c c' es"
proof (cases "cn_faultedUntil c < now")
  case True
  obtain d s1 where d: "idleGap R cfg now s = (d, s1)" by fastforce
  define c1 where "c1 = c\<lparr>cn_status := ''Available'', cn_idleUntil := now + d\<rparr>"
  obtain e s2 where e: "statusChange R st c1 now ''Available'' s1 = (e, s2)" by fastforce
  have r: "c' = c1" "es = [e]" using assms(4) True by (simp_all add: step_faulted_def d c1_def [symmetric] e)
  have s: "sent (st_ID st) (cn_ID c) now ''STATUS_CHANGE'' e" "Status e = ''Available''"
    using statusChange_sent [OF e] by (simp_all add: c1_def)
  then show ?thesis
    using sent_tick [of "st_ID st" c l now "[(now, ''STATUS_CHANGE'', e)]"] sent_type [OF s(1)] assms(1-3)
    by (simp add: r conn_tick_def shown_eval) (simp add: c1_def shown_eval)
next
  case False
  then show ?thesis using assms conn_tick_idle [of c] by (auto simp: step_faulted_def)
qed

lemma step_available_tick:
  assumes "cn_session c = None" "l < now" "in_time now" "lengths_ok cfg" "step_available R cfg st p now c s n = (c', s', n', es)"
  shows "conn_tick S (st_ID st) l now c c' es"
proof -
  obtain u s1 where u: "r_Float64 R s = (u, s1)" by fastforce
  consider (fault) "u < p" | (start) "\<not> u < p" "cn_idleUntil c < now" | (idle) "\<not> u < p" "\<not> cn_idleUntil c < now" by blast
  then show ?thesis
  proof cases
    case fault
    obtain e1 s2 where e1: "faultAlert R st c now s1 = (e1, s2)" by fastforce
    obtain d s3 where d: "downtime R s2 = (d, s3)" by fastforce
    define c1 where "c1 = c\<lparr>cn_status := ''Faulted'', cn_faultedUntil := now + d\<rparr>"
    obtain e2 s4 where e2: "statusChange R st c1 now ''Faulted'' s3 = (e2, s4)" by fastforce
    have r: "c' = c1" "es = [e1, e2]" using assms(5) fault by (simp_all add: step_available_def u e1 d c1_def [symmetric] e2)
    have s: "sent (st_ID st) (cn_ID c) now ''FAULT_ALERT'' e1" "sent (st_ID st) (cn_ID c) now ''STATUS_CHANGE'' e2" "Status e2 = ''Faulted''"
      using faultAlert_sent [OF e1] statusChange_sent [OF e2] by (simp_all add: c1_def)
    then show ?thesis
      using sent_tick [of "st_ID st" c l now "[(now, ''FAULT_ALERT'', e1), (now, ''STATUS_CHANGE'', e2)]"]
        sent_type [OF s(1)] sent_type [OF s(2)] assms(1-3)
      by (simp add: r conn_tick_def shown_eval) (simp add: c1_def shown_eval)
  next
    case start
    obtain e1 c1 s2 where e1: "startSession R cfg st c now s1 = (e1, c1, s2)" using prod_cases3 by blast
    obtain e2 s3 where e2: "statusChange R st c1 now ''Charging'' s2 = (e2, s3)" by fastforce
    have r: "c' = c1" "es = [e1, e2]" using assms(5) start by (simp_all add: step_available_def u e1 e2)
    obtain ses where ses: "cn_session c1 = Some ses" "sent (st_ID st) (cn_ID c) now ''SESSION_START'' e1" "SessionID e1 = ss_ID ses"
      "ss_ID ses \<noteq> []" "cn_ID c1 = cn_ID c" "cn_status c1 = ''Charging''" "now \<le> ss_EndsAt ses"
      using startSession_sent [OF assms(4) e1] by blast
    have s: "sent (st_ID st) (cn_ID c) now ''STATUS_CHANGE'' e2" "Status e2 = ''Charging''"
      using statusChange_sent [OF e2] by (simp_all add: ses(5))
    then show ?thesis
      using sent_tick [of "st_ID st" c l now "[(now, ''SESSION_START'', e1), (now, ''STATUS_CHANGE'', e2)]"]
        sent_type [OF s(1)] sent_type [OF ses(2)] assms(1-3) ses
      by (simp add: r conn_tick_def shown_eval)
  next
    case idle
    then show ?thesis using assms conn_tick_idle [of c] by (auto simp: step_available_def u)
  qed
qed

lemma step_charging_tick:
  assumes c: "cn_session c = Some ses" "session_ok ses" "cn_status c = ''Charging''" "l \<le> ss_EndsAt ses"
    and now: "l < now" "in_time now" and run: "step_charging R cfg st p now c s n = Some (c', s', n', es)"
  shows "conn_tick S (st_ID st) l now c c' es"
proof -
  obtain u s1 where u: "r_Float64 R s = (u, s1)" by fastforce
  consider (fault) "u < p" | (stop) "\<not> u < p" "ss_EndsAt ses < now \<or> Fin 100 \<le> ss_Soc ses"
    | (meter) "\<not> u < p" "\<not> (ss_EndsAt ses < now \<or> Fin 100 \<le> ss_Soc ses)" "cn_nextMeterAt c < now"
    | (idle) "\<not> u < p" "\<not> (ss_EndsAt ses < now \<or> Fin 100 \<le> ss_Soc ses)" "\<not> cn_nextMeterAt c < now" by blast
  then show ?thesis
  proof cases
    case fault
    obtain e1 s2 where e1: "faultAlert R st c now s1 = (e1, s2)" by fastforce
    then obtain e2 c1 s3 where e2: "stopSession R cfg st c now s2 = Some (e2, c1, s3)"
      using run fault by (auto simp: step_charging_def u split: option.splits)
    obtain d s4 where d: "downtime R s3 = (d, s4)" by fastforce
    define c2 where "c2 = c1\<lparr>cn_status := ''Faulted'', cn_faultedUntil := now + d\<rparr>"
    obtain e3 s5 where e3: "statusChange R st c2 now ''Faulted'' s4 = (e3, s5)" by fastforce
    have r: "c' = c2" "es = [e1, e2, e3]" using run fault by (simp_all add: step_charging_def u e1 e2 d c2_def [symmetric] e3)
    note stop = stopSession_sent [OF e2]
    have s: "sent (st_ID st) (cn_ID c) now ''FAULT_ALERT'' e1" "sent (st_ID st) (cn_ID c) now ''SESSION_STOP'' e2"
      "sent (st_ID st) (cn_ID c) now ''STATUS_CHANGE'' e3" "Status e3 = ''Faulted''"
      using faultAlert_sent [OF e1] stop statusChange_sent [OF e3] by (simp_all add: c2_def)
    then show ?thesis
      using sent_tick [of "st_ID st" c l now "[(now, ''FAULT_ALERT'', e1), (now, ''SESSION_STOP'', e2), (now, ''STATUS_CHANGE'', e3)]"]
        sent_type [OF s(1)] sent_type [OF s(2)] sent_type [OF s(3)] stop now
      by (simp add: r conn_tick_def shown_eval) (simp add: c2_def shown_eval)
  next
    case stop
    let ?t = "effectiveStopAt ses now"
    have t: "l \<le> ?t" "?t \<le> now" "in_time ?t"
      using c(2,4) now by (auto simp: effectiveStopAt_def in_time_def session_ok_def)
    obtain e1 c1 s2 where e1: "stopSession R cfg st c ?t s1 = Some (e1, c1, s2)"
      using run stop by (auto simp: step_charging_def u c(1) split: option.splits)
    obtain d s3 where d: "idleGap R cfg now s2 = (d, s3)" by fastforce
    define c2 where "c2 = c1\<lparr>cn_idleUntil := now + d\<rparr>"
    obtain e2 s4 where e2: "statusChange R st c2 now ''Available'' s3 = (e2, s4)" by fastforce
    have r: "c' = c2" "es = [e1, e2]" using run stop by (simp_all add: step_charging_def u c(1) e1 d c2_def [symmetric] e2)
    note stopped = stopSession_sent [OF e1]
    have s: "sent (st_ID st) (cn_ID c) ?t ''SESSION_STOP'' e1" "sent (st_ID st) (cn_ID c) now ''STATUS_CHANGE'' e2" "Status e2 = ''Available''"
      using stopped statusChange_sent [OF e2] by (simp_all add: c2_def)
    then show ?thesis
      using sent_tick [of "st_ID st" c l now "[(?t, ''SESSION_STOP'', e1), (now, ''STATUS_CHANGE'', e2)]"]
        sent_type [OF s(1)] sent_type [OF s(2)] stopped now t
      by (simp add: r conn_tick_def shown_eval) (simp add: c2_def shown_eval)
  next
    case meter
    then obtain e c1 s2 where e: "meterTick R cfg st c now s1 = Some (e, c1, s2)"
      using run by (auto simp: step_charging_def u c(1) split: option.splits)
    have r: "c' = c1" "es = [e]" using run meter by (simp_all add: step_charging_def u c(1) e)
    have m: "sent (st_ID st) (cn_ID c) now ''METER_UPDATE'' e" "SessionID e = ss_ID ses" "cn_ID c1 = cn_ID c" "cn_status c1 = cn_status c"
      "\<exists>ses'. cn_session c1 = Some ses' \<and> ss_ID ses' = ss_ID ses \<and> ss_EndsAt ses' = ss_EndsAt ses"
      using meterTick_sent [OF e] c(1) by auto
    then show ?thesis
      using sent_tick [of "st_ID st" c l now "[(now, ''METER_UPDATE'', e)]"] sent_type [OF m(1)] now c meter
      by (auto simp: r conn_tick_def shown_eval session_ok_def)
  next
    case idle
    then show ?thesis using run c conn_tick_idle [of c] by (auto simp: step_charging_def u not_less)
  qed
qed

lemma step_connector_tick:
  assumes c: "conn_ok k c" "\<And>ses. cn_session c = Some ses \<Longrightarrow> l \<le> ss_EndsAt ses"
    and now: "l < now" "in_time now" and cfg: "lengths_ok cfg"
    and run: "step_connector R cfg st p now c s n = Some (c', s', n', es)"
  shows "conn_tick S (st_ID st) l now c c' es"
  using c(1)
proof (cases rule: conn_ok_cases)
  case available
  then show ?thesis using run step_available_tick [OF _ now cfg] by (simp add: step_connector_def)
next
  case faulted
  then show ?thesis using run step_faulted_tick [OF _ now] by (simp add: step_connector_def)
next
  case (charging ses)
  then show ?thesis using run step_charging_tick [OF charging(2,3,1) c(2) now] by (simp add: step_connector_def)
qed

subsection \<open>The events of one tick\<close>

text \<open>The connectors of a station, at the tick at \<open>l\<close> and after the tick at \<open>now\<close>.\<close>

definition ticked :: "'r redis \<Rightarrow> string \<Rightarrow> instant \<Rightarrow> instant \<Rightarrow> Event list \<Rightarrow> Connector list \<Rightarrow> Connector list \<Rightarrow> bool" where
  "ticked S sid l now es cs cs' \<longleftrightarrow>
     list_all2 (\<lambda>c c'. conn_tick S sid l now c c' (filter (of_conn sid (cn_ID c)) es)) cs cs'"

definition unended :: "instant \<Rightarrow> Connector \<Rightarrow> bool" where
  "unended l c \<longleftrightarrow> (\<forall>ses. cn_session c = Some ses \<longrightarrow> l \<le> ss_EndsAt ses)"

lemma filter_other: "list_all (of_conn sid cid) es \<Longrightarrow> filter (of_conn sid' cid') es = (if sid = sid' \<and> cid = cid' then es else [])"
  by (induction es) (auto simp: of_conn_def)

lemma filter_none: "\<forall>e\<in>set es. \<not> of_conn sid cid e \<Longrightarrow> filter (of_conn sid cid) es = []"
  by (simp add: filter_empty_conv)

lemma step_connectors_tick:
  assumes "list_all (conn_ok k) cs" "list_all (unended l) cs" "distinct (map cn_ID cs)"
    and now: "l < now" "in_time now" "lengths_ok cfg"
    and "step_connectors R cfg st p now cs s n = Some (cs', s', n', es)"
  shows "ticked S (st_ID st) l now es cs cs' \<and> (\<forall>e\<in>set es. StationID e = st_ID st \<and> ConnectorID e \<in> set (map cn_ID cs))"
  using assms(1-3,7)
proof (induction cs arbitrary: s n cs' es)
  case (Cons c cs)
  obtain c1 s1 n1 es1 cs1 s2 n2 es2 where r: "step_connector R cfg st p now c s n = Some (c1, s1, n1, es1)"
    "step_connectors R cfg st p now cs s1 n1 = Some (cs1, s2, n2, es2)" "cs' = c1 # cs1" "es = es1 @ es2" "s' = s2" "n' = n2"
    using Cons.prems(4) by (auto split: option.splits)
  have c: "conn_tick S (st_ID st) l now c c1 es1"
    using step_connector_tick [OF _ _ now r(1)] Cons.prems(1,2) by (auto simp: unended_def)
  then have es1: "list_all (of_conn (st_ID st) (cn_ID c)) es1" by (simp add: conn_tick_def)
  have IH: "ticked S (st_ID st) l now es2 cs cs1" "\<forall>e\<in>set es2. StationID e = st_ID st \<and> ConnectorID e \<in> set (map cn_ID cs)"
    using Cons.IH [of s1 n1 cs1 es2] Cons.prems r by auto
  have "filter (of_conn (st_ID st) (cn_ID c)) es2 = []"
    using IH(2) Cons.prems(3) by (intro filter_none) (fastforce simp: of_conn_def)
  moreover have "filter (of_conn (st_ID st) (cn_ID d)) es1 = []" if "d \<in> set cs" for d
    using that Cons.prems(3) by (subst filter_other [OF es1]) auto
  ultimately have "ticked S (st_ID st) l now es (c # cs) cs'"
    using c IH(1) filter_other [OF es1] by (auto simp: ticked_def r list.rel_map elim!: list.rel_mono_strong)
  moreover have "\<forall>e\<in>set es1. StationID e = st_ID st \<and> ConnectorID e = cn_ID c" using es1 by (simp add: list_all_iff of_conn_def)
  ultimately show ?case using IH(2) by (auto simp: r)
qed (simp add: ticked_def)

text \<open>A group of stations over a tick: the stations keep their ids, and each its connectors.\<close>

definition group_ticked :: "'r redis \<Rightarrow> instant \<Rightarrow> instant \<Rightarrow> Event list \<Rightarrow> Station list \<Rightarrow> Station list \<Rightarrow> bool" where
  "group_ticked S l now es sts sts' \<longleftrightarrow>
     list_all2 (\<lambda>st st'. st_ID st' = st_ID st \<and> ticked S (st_ID st) l now es (st_Connectors st) (st_Connectors st')) sts sts'"

text \<open>What is needed of a station whose last tick was at \<open>l\<close>.\<close>

definition tickable :: "instant \<Rightarrow> Station \<Rightarrow> bool" where
  "tickable l st \<longleftrightarrow> list_all (conn_ok (int (length (st_Connectors st)))) (st_Connectors st)
     \<and> list_all (unended l) (st_Connectors st) \<and> distinct (map cn_ID (st_Connectors st))"

lemma ticked_cong: "(\<And>c. filter (of_conn sid c) es = filter (of_conn sid c) fs) \<Longrightarrow> ticked S sid l now es = ticked S sid l now fs"
  by (simp add: ticked_def fun_eq_iff)

lemma beat_sent:
  assumes "beat R st now s = (st', s', es)"
  shows "st_ID st' = st_ID st \<and> st_Connectors st' = st_Connectors st \<and> (\<forall>e\<in>set es. EventType e = ''HEARTBEAT'' \<and> StationID e = st_ID st)"
  using assms by (auto simp: beat_def heartbeat_def case_prod_beta Let_def split: if_splits)

lemma step_stations_tick:
  assumes "list_all (tickable l) sts" "distinct (map st_ID sts)"
    and now: "l < now" "in_time now" "lengths_ok cfg"
    and "step_stations R cfg p now sts s n = Some (sts', s', n', es)"
  shows "group_ticked S l now es sts sts' \<and> (\<forall>e\<in>set es. StationID e \<in> set (map st_ID sts))"
  using assms(1,2,6)
proof (induction sts arbitrary: s n sts' es)
  case (Cons st sts)
  obtain st1 s1 es1 where b: "beat R st now s = (st1, s1, es1)" using prod_cases3 by blast
  note beat = beat_sent [OF b]
  obtain cs s2 n2 es2 sts1 s3 n3 es3 where r: "step_connectors R cfg st1 p now (st_Connectors st) s1 n = Some (cs, s2, n2, es2)"
    "step_stations R cfg p now sts s2 n2 = Some (sts1, s3, n3, es3)" "sts' = st1\<lparr>st_Connectors := cs\<rparr> # sts1"
    "es = es1 @ es2 @ es3" "s' = s3" "n' = n3"
    using Cons.prems(3) beat by (auto simp: b split: option.splits)
  have st: "ticked S (st_ID st) l now es2 (st_Connectors st) cs" "\<forall>e\<in>set es2. StationID e = st_ID st"
    using step_connectors_tick [OF _ _ _ now r(1), of "int (length (st_Connectors st))" S] Cons.prems(1) beat by (auto simp: tickable_def)
  have IH: "group_ticked S l now es3 sts sts1" "\<forall>e\<in>set es3. StationID e \<in> set (map st_ID sts)"
    using Cons.IH [of s2 n2 sts1 es3] Cons.prems r by auto
  have "filter (of_conn (st_ID st) c) es3 = []" "filter (of_conn sid c) es1 = []" for c sid
    using IH(2) Cons.prems(2) beat by (fastforce intro!: filter_none simp: of_conn_def)+
  then have "ticked S (st_ID st) l now es = ticked S (st_ID st) l now es2" by (intro ticked_cong) (simp add: r)
  moreover have "ticked S (st_ID d) l now es = ticked S (st_ID d) l now es3" if "d \<in> set sts" for d
  proof (intro ticked_cong)
    have "st_ID d \<noteq> st_ID st" using that Cons.prems(2) by (auto simp: image_iff)
    then show "filter (of_conn (st_ID d) c) es = filter (of_conn (st_ID d) c) es3" for c
      using beat st(2) by (simp add: r) (intro conjI filter_none; fastforce simp: of_conn_def)
  qed
  ultimately have "group_ticked S l now es (st # sts) sts'"
    using st(1) IH(1) beat by (auto simp: group_ticked_def r elim!: list.rel_mono_strong)
  then show ?case using IH(2) st(2) beat by (auto simp: r)
qed (simp add: group_ticked_def)

lemma ticked_ids: "ticked S sid l now es cs cs' \<Longrightarrow> map cn_ID cs' = map cn_ID cs"
  unfolding ticked_def by (induction cs cs' rule: list_all2_induct) (auto simp: conn_tick_def)

lemma group_ticked_ids: "group_ticked S l now es sts sts' \<Longrightarrow> map st_ID sts' = map st_ID sts"
  unfolding group_ticked_def by (induction sts sts' rule: list_all2_induct) auto

text \<open>The connectors of a group, with the events sent so far.\<close>

definition station_tracked :: "'r redis \<Rightarrow> instant \<Rightarrow> Event list \<Rightarrow> Station \<Rightarrow> bool" where
  "station_tracked S l es st \<longleftrightarrow> distinct (map cn_ID (st_Connectors st))
     \<and> list_all (\<lambda>c. tracked S l c (filter (of_conn (st_ID st) (cn_ID c)) es)) (st_Connectors st)"

lemma station_tracked_unended: "station_tracked S l es st \<Longrightarrow> list_all (unended l) (st_Connectors st)"
  by (auto simp: station_tracked_def list_all_iff unended_def tracked_def)

lemma station_tracked_tick:
  assumes "station_tracked S l es st" "ticked S (st_ID st) l now fs (st_Connectors st) (st_Connectors st')"
    and "st_ID st' = st_ID st" "l \<le> now"
  shows "station_tracked S now (es @ fs) st'"
proof -
  have "list_all (\<lambda>c. tracked S now c (filter (of_conn sid (cn_ID c)) (es @ fs))) cs'"
    if "ticked S sid l now fs cs cs'" "list_all (\<lambda>c. tracked S l c (filter (of_conn sid (cn_ID c)) es)) cs" for sid cs cs'
    using that unfolding ticked_def
  proof (induction cs cs' rule: list_all2_induct)
    case (Cons c cs c' cs')
    have "cn_ID c' = cn_ID c" using Cons.hyps(1) by (simp add: conn_tick_def)
    then show ?case using Cons tracked_tick [OF _ Cons.hyps(1) assms(4)] by simp
  qed simp
  then show ?thesis using assms ticked_ids [OF assms(2)] by (simp add: station_tracked_def)
qed

lemma group_tracked_tick:
  assumes "group_ticked S l now fs sts sts'" "list_all (station_tracked S l es) sts" "l \<le> now"
  shows "list_all (station_tracked S now (es @ fs)) sts'"
  using assms(1,2) unfolding group_ticked_def
  by (induction sts sts' rule: list_all2_induct) (auto intro: station_tracked_tick [OF _ _ _ assms(3)])

lemma station_tracked_other:
  assumes "station_tracked S l es st" "\<forall>e\<in>set fs. StationID e \<noteq> st_ID st"
  shows "station_tracked S l (es @ fs) st"
proof -
  have "filter (of_conn (st_ID st) c) fs = []" for c
    using assms(2) by (intro filter_none) (auto simp: of_conn_def)
  then show ?thesis using assms(1) by (simp add: station_tracked_def)
qed

lemma seeded_tickable: "seeded reg reg' st \<Longrightarrow> station_tracked S l es st \<Longrightarrow> tickable l st"
  using station_tracked_unended by (simp add: tickable_def seeded_def station_ok_def station_tracked_def)

subsection \<open>The workers\<close>

definition sim_tracked :: "'r redis \<Rightarrow> 's sim \<Rightarrow> bool" where
  "sim_tracked S w \<longleftrightarrow> distinct (concat (map (\<lambda>(g, s, l). map st_ID g) (si_groups w)))
     \<and> (\<forall>(g, s, l)\<in>set (si_groups w). list_all (station_tracked S l (si_sent w)) g)"

lemma distinct_concat_disjoint:
  "distinct (concat xss) \<Longrightarrow> i < length xss \<Longrightarrow> j < length xss \<Longrightarrow> i \<noteq> j \<Longrightarrow> set (xss ! i) \<inter> set (xss ! j) = {}"
proof (induction xss arbitrary: i j)
  case (Cons xs xss)
  have "set xs \<inter> set (xss ! k) = {}" if "k < length xss" for k using Cons.prems(1) that by fastforce
  then show ?case using Cons.IH [of "i - 1" "j - 1"] Cons.prems by (cases i; cases j) auto
qed simp

lemma distinct_concat_mem: "distinct (concat xss) \<Longrightarrow> xs \<in> set xss \<Longrightarrow> distinct xs"
  by (induction xss) auto

lemma worker_tick_tracked:
  assumes w: "sim_tracked S w" "sim_ok reg reg' w" and i: "i < length (si_groups w)" and now: "in_time now" "lengths_ok cfg"
    and tick: "worker_tick R cfg i now w = Some w'"
  shows "sim_tracked S w'"
proof -
  obtain g s l where g: "si_groups w ! i = (g, s, l)" using prod_cases3 by blast
  show ?thesis
  proof (cases "time_Sub now l \<le> 0")
    case True
    then show ?thesis using tick w(1) by (simp add: worker_tick_def g)
  next
    case False
    then obtain g' s' n es where r: "stepGroup R cfg g now (time_Sub now l) s (si_counter w) = Some (g', s', n, es)"
      "w' = w\<lparr>si_groups := (si_groups w)[i := (g', s', now)], si_counter := n, si_sent := si_sent w @ es\<rparr>"
      using tick by (auto simp: worker_tick_def g split: option.splits)
    have l: "l < now" using False by (auto simp: time_Sub_def go_int64_min_def go_int64_max_def split: if_splits)
    have mem: "(g, s, l) \<in> set (si_groups w)" using i g by (metis nth_mem)
    have ids: "distinct (concat (map (\<lambda>(g, s, l). map st_ID g) (si_groups w)))" using w(1) by (simp add: sim_tracked_def)
    have dg: "distinct (map st_ID g)" using mem by (intro distinct_concat_mem [OF ids]) force
    have tr: "list_all (station_tracked S l (si_sent w)) g" using w(1) mem by (auto simp: sim_tracked_def)
    have "list_all (seeded reg reg') g" using w(2) mem by (auto simp: sim_ok_def list_all_iff)
    then have "list_all (tickable l) g"
      using tr by (auto simp: list_all_iff intro: seeded_tickable)
    note step = step_stations_tick [OF this dg l now, of R "sc_FaultRatePerHour (sm_Simulator cfg) * Hours (time_Sub now l)" s "si_counter w" g' s' n es S]
    have st: "group_ticked S l now es g g'" "\<forall>e\<in>set es. StationID e \<in> set (map st_ID g)"
      using step r(1) by (simp_all add: stepGroup_def Let_def)
    have "map (\<lambda>(g, s, l). map st_ID g) (si_groups w') = map (\<lambda>(g, s, l). map st_ID g) (si_groups w)"
      using i g group_ticked_ids [OF st(1)] by (auto simp: r(2) map_update intro!: list_update_same_conv [THEN iffD2])
    moreover have "list_all (station_tracked S l1 (si_sent w')) g1" if in': "(g1, s1, l1) \<in> set (si_groups w')" for g1 s1 l1
    proof -
      obtain j where j: "j < length (si_groups w)" "si_groups w' ! j = (g1, s1, l1)" using in' by (auto simp: in_set_conv_nth r(2))
      show ?thesis
      proof (cases "j = i")
        case True
        then have "g1 = g'" "l1 = now" using j i by (auto simp: r(2))
        then show ?thesis using group_tracked_tick [OF st(1) tr] l by (simp add: r(2))
      next
        case False
        then have old: "si_groups w ! j = (g1, s1, l1)" using j by (simp add: r(2))
        then have "list_all (station_tracked S l1 (si_sent w)) g1" using w(1) j(1) by (auto simp: sim_tracked_def dest!: nth_mem)
        moreover have "set (map st_ID g) \<inter> set (map st_ID g1) = {}"
          using distinct_concat_disjoint [OF ids, of i j] i j(1) False by (simp add: g old)
        then have "\<forall>e\<in>set es. StationID e \<noteq> st_ID st" if "st \<in> set g1" for st using st(2) that by fastforce
        ultimately show ?thesis using station_tracked_other by (fastforce simp: list_all_iff r(2))
      qed
    qed
    ultimately show ?thesis using ids by (auto simp: sim_tracked_def)
  qed
qed

context rand_source
begin

lemma sim_run_tracked:
  assumes "sim_run R cfg w0 w" "sim_tracked S w0" "sim_ok reg reg' w0" "cadence_ok cfg" "lengths_ok cfg"
  shows "sim_tracked S w"
  using assms
proof (induction rule: sim_run.induct)
  case (run_tick w i now w')
  have "sim_ok reg reg' w" using sim_run_ok run_tick.hyps(1) run_tick.prems by blast
  then show ?case using worker_tick_tracked [OF _ _ run_tick.hyps(2,4) _ run_tick.hyps(5)] run_tick by blast
qed simp

end

subsection \<open>The start\<close>

lemma tracked_available:
  assumes "sent sid cid now ''STATUS_CHANGE'' e" "Status e = ''Available''" "in_time now" "now \<le> l"
    and "cn_status c = ''Available''" "cn_session c = None"
  shows "tracked S l c [e]"
  using assms sent_ms [OF assms(1,3)] sent_type [OF assms(1)] UnixMilli_mono [OF assms(4)]
  by (simp add: tracked_def shown_eval)

lemma initial_statuses_sent:
  assumes "distinct (map cn_ID cs)"
  shows "(\<forall>e\<in>set (fst (initial_statuses R st now cs s)). StationID e = st_ID st \<and> ConnectorID e \<in> set (map cn_ID cs))
    \<and> (\<forall>c\<in>set cs. \<exists>e. filter (of_conn (st_ID st) (cn_ID c)) (fst (initial_statuses R st now cs s)) = [e]
         \<and> sent (st_ID st) (cn_ID c) now ''STATUS_CHANGE'' e \<and> Status e = ''Available'')"
  using assms
proof (induction cs arbitrary: s)
  case (Cons c cs)
  obtain e s1 where e: "statusChange R st c now ''Available'' s = (e, s1)" by fastforce
  note sc = statusChange_sent [OF e]
  let ?es = "fst (initial_statuses R st now cs s1)"
  have r: "fst (initial_statuses R st now (c # cs) s) = e # ?es" by (simp add: e case_prod_beta Let_def)
  have ids: "StationID e = st_ID st" "ConnectorID e = cn_ID c" "of_conn (st_ID st) (cn_ID c) e"
    using sc by (simp_all add: sent_def of_conn_def)
  have IH: "\<forall>e\<in>set ?es. StationID e = st_ID st \<and> ConnectorID e \<in> set (map cn_ID cs)"
    "\<forall>c\<in>set cs. \<exists>e. filter (of_conn (st_ID st) (cn_ID c)) ?es = [e] \<and> sent (st_ID st) (cn_ID c) now ''STATUS_CHANGE'' e \<and> Status e = ''Available''"
    using Cons.IH [of s1] Cons.prems by auto
  have none: "filter (of_conn (st_ID st) (cn_ID c)) ?es = []"
    using IH(1) Cons.prems by (intro filter_none) (fastforce simp: of_conn_def)
  have "\<not> of_conn (st_ID st) (cn_ID d) e" if "d \<in> set cs" for d using that ids Cons.prems by (auto simp: of_conn_def image_iff)
  then show ?case using IH ids sc none unfolding r by auto
qed simp

lemma emitInitialStatuses_sent:
  assumes "distinct (map st_ID sts)" "\<forall>st\<in>set sts. distinct (map cn_ID (st_Connectors st))"
  shows "(\<forall>e\<in>set (fst (emitInitialStatuses R now sts s)). StationID e \<in> set (map st_ID sts))
    \<and> (\<forall>st\<in>set sts. \<forall>c\<in>set (st_Connectors st). \<exists>e. filter (of_conn (st_ID st) (cn_ID c)) (fst (emitInitialStatuses R now sts s)) = [e]
         \<and> sent (st_ID st) (cn_ID c) now ''STATUS_CHANGE'' e \<and> Status e = ''Available'')"
  using assms
proof (induction sts arbitrary: s)
  case (Cons st sts)
  obtain es s1 where es: "initial_statuses R st now (st_Connectors st) s = (es, s1)" by fastforce
  let ?fs = "fst (emitInitialStatuses R now sts s1)"
  have r: "fst (emitInitialStatuses R now (st # sts) s) = es @ ?fs" by (simp add: es case_prod_beta Let_def)
  have st: "\<forall>e\<in>set es. StationID e = st_ID st"
    "\<forall>c\<in>set (st_Connectors st). \<exists>e. filter (of_conn (st_ID st) (cn_ID c)) es = [e] \<and> sent (st_ID st) (cn_ID c) now ''STATUS_CHANGE'' e \<and> Status e = ''Available''"
    using initial_statuses_sent [of "st_Connectors st" R st now s] Cons.prems es by auto
  have IH: "\<forall>e\<in>set ?fs. StationID e \<in> set (map st_ID sts)"
    "\<forall>st\<in>set sts. \<forall>c\<in>set (st_Connectors st). \<exists>e. filter (of_conn (st_ID st) (cn_ID c)) ?fs = [e]
         \<and> sent (st_ID st) (cn_ID c) now ''STATUS_CHANGE'' e \<and> Status e = ''Available''"
    using Cons.IH [of s1] Cons.prems by auto
  have "filter (of_conn (st_ID st) k) ?fs = []" for k
    using IH(1) Cons.prems(1) by (intro filter_none) (fastforce simp: of_conn_def)
  moreover have "filter (of_conn (st_ID d) k) es = []" if "d \<in> set sts" for d k
    using that st(1) Cons.prems(1) by (intro filter_none) (auto simp: of_conn_def image_iff)
  ultimately show ?case using IH st unfolding r by auto
qed simp

lemma init_connectors_start:
  "map cn_ID (fst (init_connectors R now cs s)) = map cn_ID cs
     \<and> list_all (\<lambda>c. cn_status c = ''Available'') (fst (init_connectors R now cs s))"
  by (induction cs arbitrary: s) (simp_all add: case_prod_beta Let_def)

lemma initSchedules_start:
  "map (\<lambda>st. (st_ID st, map cn_ID (st_Connectors st))) (fst (initSchedules R now sts s)) = map (\<lambda>st. (st_ID st, map cn_ID (st_Connectors st))) sts
     \<and> list_all (\<lambda>st. list_all (\<lambda>c. cn_status c = ''Available'') (st_Connectors st)) (fst (initSchedules R now sts s))"
  by (induction sts arbitrary: s) (simp_all add: case_prod_beta Let_def init_connectors_start)

lemma runSimulation_tracked:
  assumes run: "runSimulation R cfg sts cpus clk = Some w0" and sts: "list_all (seeded reg reg') sts" "list_all fresh sts"
    and ids: "distinct (map st_ID sts)" "\<forall>st\<in>set sts. distinct (map cn_ID (st_Connectors st))"
    and clk: "in_time (clk 1)" "\<And>i. clk 1 \<le> clk (i + 2)"
  shows "sim_tracked S w0"
proof -
  define s0 where "s0 = r_New R (wrap64 (sc_Seed (sm_Simulator cfg) + 7))"
  obtain sts1 s1 where i: "initSchedules R (clk 0) sts s0 = (sts1, s1)" by fastforce
  note ok = initSchedules_ok [OF i sts]
  obtain es s2 where e: "emitInitialStatuses R (clk 1) sts1 s1 = (es, s2)" by fastforce
  from run obtain gs where gs: "partition_stations sts1 (if cpus < 2 then 2 else cpus) = Some gs" "w0 = init_sim R cfg gs (\<lambda>i. clk (i + 2)) es"
    by (auto simp: runSimulation_def s0_def [symmetric] i e simp del: One_nat_def)
  have cat: "concat gs = sts1" using partition_stations_Some [OF gs(1)] by simp
  have st1: "map (\<lambda>st. (st_ID st, map cn_ID (st_Connectors st))) sts1 = map (\<lambda>st. (st_ID st, map cn_ID (st_Connectors st))) sts"
    "\<forall>st\<in>set sts1. \<forall>c\<in>set (st_Connectors st). cn_status c = ''Available''"
    using initSchedules_start [of R "clk 0" sts s0] i by (simp_all add: list_all_iff)
  have "map st_ID sts1 = map st_ID sts" using arg_cong [OF st1(1), of "map fst"] by (simp add: comp_def)
  moreover have "map (\<lambda>st. map cn_ID (st_Connectors st)) sts1 = map (\<lambda>st. map cn_ID (st_Connectors st)) sts"
    using arg_cong [OF st1(1), of "map snd"] by (simp add: comp_def)
  then have "list_all distinct (map (\<lambda>st. map cn_ID (st_Connectors st)) sts1)"
    using ids(2) by (simp only:) (simp add: list_all_iff)
  ultimately have d: "distinct (map st_ID sts1)" "\<forall>st\<in>set sts1. distinct (map cn_ID (st_Connectors st))"
    using ids(1) by (simp_all add: list_all_iff)
  have "tracked S l c (filter (of_conn (st_ID st) (cn_ID c)) es)"
    if m: "st \<in> set sts1" "c \<in> set (st_Connectors st)" "clk 1 \<le> l" for st c l
  proof -
    obtain e0 where e0: "filter (of_conn (st_ID st) (cn_ID c)) es = [e0]" "sent (st_ID st) (cn_ID c) (clk 1) ''STATUS_CHANGE'' e0" "Status e0 = ''Available''"
      using emitInitialStatuses_sent [OF d, of R "clk 1" s1] m(1,2) e by (simp del: One_nat_def) blast
    have "cn_status c = ''Available''" "cn_session c = None" using ok st1(2) m(1,2) by (auto simp: list_all_iff fresh_def)
    then have "tracked S l c [e0]" by (rule tracked_available [OF e0(2,3) clk(1) m(3)])
    then show ?thesis by (simp only: e0(1))
  qed
  then have "station_tracked S l es st" if "st \<in> set sts1" "clk 1 \<le> l" for st l
    using d(2) that by (auto simp: station_tracked_def list_all_iff)
  then have "list_all (station_tracked S (clk (k + 2)) es) g" if "g \<in> set gs" for g k
    using clk(2) [of k] that unfolding cat [symmetric] by (auto simp: list_all_iff)
  moreover have "map (\<lambda>(g, s, l). map st_ID g) (si_groups w0) = map (map st_ID) gs"
    using map_map [of "map st_ID" snd "enumerate 0 gs"] by (simp add: gs(2) init_sim_def comp_def case_prod_beta)
  moreover have "distinct (concat (map (map st_ID) gs))" using d(1) by (simp flip: map_concat add: cat)
  moreover have "g \<in> set gs" if "(k, g) \<in> set (enumerate 0 gs)" for k g
    using that by (auto simp: in_set_enumerate_eq)
  ultimately show ?thesis unfolding sim_tracked_def
    by (auto simp: gs(2) init_sim_def simp del: One_nat_def)
qed

text \<open>Every station of the roster is in a group, and the first events can be encoded.\<close>

lemma started_station:
  assumes "runSimulation R cfg sts cpus clk = Some w0" "st0 \<in> set sts"
  shows "\<exists>g s l st. (g, s, l) \<in> set (si_groups w0) \<and> st \<in> set g \<and> st_ID st = st_ID st0
    \<and> map cn_ID (st_Connectors st) = map cn_ID (st_Connectors st0)"
proof -
  define s0 where "s0 = r_New R (wrap64 (sc_Seed (sm_Simulator cfg) + 7))"
  obtain sts1 s1 where i: "initSchedules R (clk 0) sts s0 = (sts1, s1)" by fastforce
  obtain es s2 where e: "emitInitialStatuses R (clk 1) sts1 s1 = (es, s2)" by fastforce
  from assms(1) obtain gs where gs: "partition_stations sts1 (if cpus < 2 then 2 else cpus) = Some gs" "w0 = init_sim R cfg gs (\<lambda>i. clk (i + 2)) es"
    by (auto simp: runSimulation_def s0_def [symmetric] i e simp del: One_nat_def)
  define f where "f = (\<lambda>st :: Station. (st_ID st, map cn_ID (st_Connectors st)))"
  have "map f sts1 = map f sts" using initSchedules_start [of R "clk 0" sts s0] i by (simp add: f_def)
  then have "f ` set sts1 = f ` set sts" by (metis list.set_map)
  then have "f st0 \<in> f ` set sts1" using assms(2) by blast
  then obtain st where st: "st \<in> set sts1" "st_ID st = st_ID st0" "map cn_ID (st_Connectors st) = map cn_ID (st_Connectors st0)"
    by (auto simp: f_def)
  then obtain g where "g \<in> set gs" "st \<in> set g" using partition_stations_Some [OF gs(1)] by (metis UN_E set_concat)
  then obtain k where "k < length gs" "gs ! k = g" by (auto simp: in_set_conv_nth)
  then have "(k, g) \<in> set (enumerate 0 gs)" by (simp add: in_set_enumerate_eq)
  then have "\<exists>s l. (g, s, l) \<in> set (si_groups w0)" by (force simp: gs(2) init_sim_def)
  then show ?thesis using st \<open>st \<in> set g\<close> by blast
qed

lemma initial_statuses_conv:
  "e \<in> set (fst (initial_statuses R st now cs s)) \<Longrightarrow> \<exists>c s'. e = fst (statusChange R st c now ''Available'' s')"
  by (induction cs arbitrary: s) (auto simp: case_prod_beta Let_def)

lemma emitInitialStatuses_conv:
  "e \<in> set (fst (emitInitialStatuses R now sts s)) \<Longrightarrow> \<exists>st\<in>set sts. \<exists>c s'. e = fst (statusChange R st c now ''Available'' s')"
  by (induction sts arbitrary: s) (auto simp: case_prod_beta Let_def dest!: initial_statuses_conv)

lemma initial_encodes:
  assumes "runSimulation R cfg sts cpus clk = Some w0" "list_all (seeded reg reg') sts" "list_all fresh sts" "e \<in> set (si_sent w0)"
  shows "Marshal_Event e \<noteq> None"
proof -
  define s0 where "s0 = r_New R (wrap64 (sc_Seed (sm_Simulator cfg) + 7))"
  obtain sts1 s1 where i: "initSchedules R (clk 0) sts s0 = (sts1, s1)" by fastforce
  obtain es s2 where es: "emitInitialStatuses R (clk 1) sts1 s1 = (es, s2)" by fastforce
  have "si_sent w0 = es" using assms(1) by (auto simp: runSimulation_def s0_def [symmetric] i es init_sim_def simp del: One_nat_def)
  then obtain st c s' where st: "st \<in> set sts1" "e = fst (statusChange R st c (clk 1) ''Available'' s')"
    using emitInitialStatuses_conv [of e R "clk 1" sts1 s1] assms(4) es by (auto simp del: One_nat_def)
  have "station_ok st" using initSchedules_ok [OF i assms(2,3)] st(1) by (auto simp: list_all_iff seeded_def)
  then show ?thesis
    by (auto simp: st(2) statusChange_def baseEvent_def zero_Event_def Marshal_Event_def event_floats_def location_floats_def station_ok_def in_range_iff
        zero_f64 case_prod_beta Let_def split: option.split)
qed

subsection \<open>What the realtime workers receive\<close>

text \<open>A message that carries the encoding of a good event is one of the events of its batch.\<close>

definition carries :: "Event \<Rightarrow> kmessage \<Rightarrow> bool" where
  "carries e msg \<longleftrightarrow> Marshal_Event e = Some (km_Value msg)"

definition good_for :: "rt_in \<Rightarrow> Event \<Rightarrow> bool" where
  "good_for inp e \<longleftrightarrow> wire_ok e \<and> (\<forall>i. \<exists>ts. Validate e (fst (ri_regs inp i)) (snd (ri_regs inp i)) = Inr ts)"

lemma rt_decode_good:
  assumes "list_all2 carries es msgs" "list_all wire_ok es"
    and "\<forall>e\<in>set es. \<forall>i. \<exists>ts. Validate e (fst (regs i)) (snd (regs i)) = Inr ts"
  shows "map se_e (fst (rt_decode regs i msgs m)) = es"
  using assms
proof (induction es msgs arbitrary: i m rule: list_all2_induct)
  case (Cons e es msg msgs)
  have "Decode (km_Value msg) = Inr e"
    using Cons.hyps(1) Cons.prems(1) Unmarshal_Marshal by (fastforce simp: carries_def Decode_def)
  moreover obtain ts where "Validate e (fst (regs i)) (snd (regs i)) = Inr ts" using Cons.prems(2) by (meson list.set_intros(1))
  ultimately show ?case using Cons by (simp add: Let_def case_prod_beta)
qed simp

lemma rt_events_good:
  "list_all2 carries es msgs \<Longrightarrow> list_all (good_for inp) es \<Longrightarrow> map se_e (rt_events inp msgs) = es"
  unfolding rt_events_def by (rule rt_decode_good) (auto simp: good_for_def list_all_iff)

lemma batches_good:
  assumes "list_all2 carries fs (concat (map snd bs))" "\<forall>b\<in>set bs. list_all (good_for (fst b)) fs"
  shows "map se_e (batches_events bs) = fs"
  using assms
proof (induction bs arbitrary: fs)
  case (Cons b bs)
  obtain fs1 fs2 where fs: "fs = fs1 @ fs2" "list_all2 carries fs1 (snd b)" "list_all2 carries fs2 (concat (map snd bs))"
    using Cons.prems(1) by (auto simp: list_all2_append2)
  then show ?case using Cons.IH [OF fs(3)] rt_events_good [OF fs(2), of "fst b"] Cons.prems(2) by (simp add: batches_events_def)
qed simp

text \<open>
  The messages of worker \<open>i\<close> carry the events \<open>fs i\<close>: all those of the stations it is assigned, each
  station's in the order of \<open>es\<close>, and none of the others.
\<close>

definition delivered :: "(string \<Rightarrow> nat) \<Rightarrow> (nat \<Rightarrow> Event list) \<Rightarrow> Event list \<Rightarrow> 'r rt_workers \<Rightarrow> bool" where
  "delivered own fs es g \<longleftrightarrow> (\<forall>i. list_all2 carries (fs i) (concat (map snd (rg_taken g i))) \<and> set (fs i) \<subseteq> set es
     \<and> (\<forall>sid. filter (\<lambda>e. StationID e = sid) (fs i) = (if own sid = i then filter (\<lambda>e. StationID e = sid) es else [])))"

lemma delivered_conn:
  assumes "delivered own fs es g"
  shows "filter (of_conn sid cid) (fs i) = (if own sid = i then filter (of_conn sid cid) es else [])"
proof -
  have f: "filter (\<lambda>e. StationID e = sid) (fs i) = (if own sid = i then filter (\<lambda>e. StationID e = sid) es else [])"
    using assms by (simp add: delivered_def)
  have "filter (of_conn sid cid) xs = filter (of_conn sid cid) (filter (\<lambda>e. StationID e = sid) xs)" for xs
    by (auto simp: of_conn_def intro: filter_cong)
  then show ?thesis using f by (metis filter.simps(1))
qed

lemma workers_show:
  assumes S: "redis_hash_live S" "r_hget S r0 = (\<lambda>_. Map.empty)" "0 < Milliseconds (ss_ttl (rh_state h))" "rt_reach S h r0 g"
    and at: "rg_pos g (own sid) = Waiting" "\<not> rg_lost g (own sid)"
    and fs: "delivered own fs es g" "\<And>i b. b \<in> set (rg_taken g i) \<Longrightarrow> list_all (good_for (fst b)) (fs i)"
    and tr: "tracked S l c (filter (of_conn sid cid) es)" and f: "f \<noteq> ''last_seen''"
  shows "r_hget S (rg_r g) (stateKey sid cid) f = shown S (filter (of_conn sid cid) es) f"
proof -
  let ?k = "stateKey sid cid" and ?es = "filter (of_conn sid cid) es" and ?i = "own sid"
  have good: "map se_e (batches_events (rg_taken g i)) = fs i" for i
    using batches_good [of "fs i" "rg_taken g i"] fs by (simp add: delivered_def)
  have keyed: "map se_e (filter (\<lambda>ev. stateKeyForEvent (se_e ev) = ?k) (batches_events (rg_taken g i)))
      = filter (of_conn sid cid) (fs i)" for i
    unfolding good [symmetric] by (simp add: filter_map of_conn_key comp_def)
  define evs where "evs = filter (\<lambda>ev. stateKeyForEvent (se_e ev) = ?k) (batches_events (rg_taken g ?i))"
  have evs: "map se_e evs = ?es" using keyed [of ?i] delivered_conn [OF fs(1)] by (simp add: evs_def)
  have own: "owns g ?i ?k"
    unfolding owns_def
  proof (intro allI impI)
    fix j assume "j \<noteq> ?i"
    then have "filter (\<lambda>ev. stateKeyForEvent (se_e ev) = ?k) (batches_events (rg_taken g j)) = []"
      using keyed [of j] delivered_conn [OF fs(1), of sid cid j] by simp
    then show "\<forall>ev\<in>set (batches_events (rg_taken g j)). stateKeyForEvent (se_e ev) \<noteq> ?k" by (simp add: filter_empty_conv)
  qed
  have wf: "state_wf S r0" by (simp add: state_wf_def S(2))
  have "follows S (cell_of (r_hget S r0 ?k)) ?k ?i g" and wf': "state_wf S (rg_r g)"
    using redis_hash_live.reach_follows [OF S(1,4) wf S(3)] own at(2) by blast+
  then have run: "cell_of (r_hget S (rg_r g) ?k) = apply_cells (map (event_write S) evs) None"
    using at(1) by (simp add: follows_def cell_at_def S(2) writes_for_def evs_def)
  have "list_all stamped evs" using rt_events_stamped by (auto simp: evs_def batches_events_def list_all_iff)
  then have t: "map fst (map (event_write S) evs) = map ev_ms (map se_e evs)"
    by (auto simp: list_all_iff event_write_def stamped_def ev_ms_def)
  have "foldl (\<lambda>m w. m ++ snd w) m (map (event_write S) evs) = foldl (\<lambda>m e. m ++ map_of (rev (state_fields S e))) m (map se_e evs)" for m
    by (induction evs arbitrary: m) (simp_all add: event_write_def)
  moreover have "sorted (map fst (map (event_write S) evs))" "map (event_write S) evs \<noteq> []"
    using tr unfolding t evs tracked_def by (auto simp flip: evs)
  ultimately have "cell_of (r_hget S (rg_r g) ?k) = Some (fst (last (map (event_write S) evs)), shown S ?es)"
    using run apply_cells_sorted [of "map (event_write S) evs"] by (simp add: shown_def evs)
  moreover have "hash_wf (r_hget S (rg_r g) ?k)" using wf' by (simp add: state_wf_def)
  ultimately show ?thesis using hash_field [OF _ f] by (metis cell_field_def option.case(2) old.prod.case)
qed

text \<open>A worker that handles one batch on its own, with at most one failed attempt, is such a run.\<close>

lemma one_batch:
  assumes "RedisErrors (rw_m (applyBatch R h inp batch w)) ''state'' \<le> RedisErrors (rw_m w) ''state'' + 1"
  obtains g where "rt_reach R h (rw_r w) g" "rg_r g = rw_r (applyBatch R h inp batch w)"
    "rg_taken g = (\<lambda>_. [])(i := [(inp, batch)])" "rg_pos g = (\<lambda>_. Waiting)" "rg_lost g = (\<lambda>_. False)"
proof -
  obtain lost where "rt_reach R h (rw_r w) ((rg_init (rw_r w))\<lparr>rg_r := rw_r (applyBatch R h inp batch w),
      rg_taken := (\<lambda>_. [])(i := [(inp, batch)]), rg_lost := (\<lambda>_. False)(i := lost)\<rparr>)" "\<not> lost"
    by (rule whole_batch [OF rt_start, of "rw_r w" i w R h inp batch]) (use assms in \<open>auto simp: rg_init_def\<close>)
  then show thesis by (intro that) (auto simp: rg_init_def)
qed

text \<open>On a server that answers, no attempt fails.\<close>

lemma applyBatch_up:
  assumes "redis_hash R" "\<And>r n. fst (r_trip R r n) = None" "state_wf R (rw_r w)" "0 < Milliseconds (ss_ttl (rh_state h))"
  shows "RedisErrors (rw_m (applyBatch R h inp batch w)) ''state'' \<le> RedisErrors (rw_m w) ''state'' + 1"
proof -
  let ?ev = "rt_events inp batch"
  obtain flags where fl: "snd (ApplyBatch R (rh_state h) ?ev (rw_r w)) = Some flags"
    using redis_hash.ApplyBatch_succeeds [OF assms(1,3) stamped_bound [OF rt_events_stamped] assms(4,2)] by blast
  show ?thesis
    using rt_finish_counts [OF ApplyBatch_flags_length [OF fl, symmetric]] fl
    by (simp add: applyBatch_def Let_def case_prod_beta rt_decode_rt_events rt_decode_metrics observe_redis_def)
qed

end
