(* ===== verification/SimGauge.thy ===== *)
theory SimGauge
  imports SimMain
begin

text \<open>
  \<^verbatim>\<open>sessionCounter\<close> of \<^verbatim>\<open>simulator/metrics.go\<close>: an atomic counter of the active sessions that is
  mirrored to a Prometheus gauge. \<^verbatim>\<open>start\<close> and \<^verbatim>\<open>stop\<close> are two steps each, the atomic addition and the
  \<^verbatim>\<open>Set\<close> of the gauge to its result, and those of the worker goroutines interleave. \<open>SimMain\<close>
  treats a tick as one step and its \<^const>\<open>si_counter\<close> is the counter, not the gauge.
  Shown: the counter adds up all starts and stops; under one worker the gauge follows it; under two the
  gauge can be left behind.
\<close>

record sessionCounter =
  sc_n :: int
  sc_g :: float64
  sc_pending :: "nat \<Rightarrow> int option"

definition sc_new :: sessionCounter where
  "sc_new = \<lparr>sc_n = 0, sc_g = 0, sc_pending = (\<lambda>_. None)\<rparr>"

text \<open>\<^verbatim>\<open>atomic.AddInt64(&c.n, d)\<close> by worker \<open>i\<close>, whose result is the argument of its \<^verbatim>\<open>Set\<close>.\<close>

definition sc_add :: "nat \<Rightarrow> int \<Rightarrow> sessionCounter \<Rightarrow> sessionCounter" where
  "sc_add i d c = c\<lparr>sc_n := wrap64 (sc_n c + d), sc_pending := (sc_pending c)(i \<mapsto> wrap64 (sc_n c + d))\<rparr>"

definition sc_set :: "nat \<Rightarrow> sessionCounter \<Rightarrow> sessionCounter" where
  "sc_set i c = (case sc_pending c i of None \<Rightarrow> c
     | Some v \<Rightarrow> c\<lparr>sc_g := f64_of_int v, sc_pending := (sc_pending c)(i := None)\<rparr>)"

definition sc_start :: "nat \<Rightarrow> sessionCounter \<Rightarrow> sessionCounter" where
  "sc_start i c = sc_set i (sc_add i 1 c)"

definition sc_stop :: "nat \<Rightarrow> sessionCounter \<Rightarrow> sessionCounter" where
  "sc_stop i c = sc_set i (sc_add i (- 1) c)"

text \<open>The calls of the workers \<open>W\<close>, step by step; \<open>ds\<close> are the additions so far.\<close>

inductive sc_reach :: "nat set \<Rightarrow> int list \<Rightarrow> sessionCounter \<Rightarrow> bool" for W where
  sc_init: "sc_reach W [] sc_new"
| sc_call: "sc_reach W ds c \<Longrightarrow> i \<in> W \<Longrightarrow> sc_pending c i = None \<Longrightarrow> d \<in> {1, - 1} \<Longrightarrow> sc_reach W (ds @ [d]) (sc_add i d c)"
| sc_mirror: "sc_reach W ds c \<Longrightarrow> i \<in> W \<Longrightarrow> sc_pending c i \<noteq> None \<Longrightarrow> sc_reach W ds (sc_set i c)"

lemma sc_sel [simp]:
  "sc_n (sc_add i d c) = wrap64 (sc_n c + d)" "sc_g (sc_add i d c) = sc_g c"
  "sc_pending (sc_add i d c) = (sc_pending c)(i \<mapsto> wrap64 (sc_n c + d))"
  "sc_n (sc_set i c) = sc_n c" "sc_pending (sc_set i c) = (sc_pending c)(i := None)"
  "sc_g (sc_set i c) = (case sc_pending c i of None \<Rightarrow> sc_g c | Some v \<Rightarrow> f64_of_int v)"
  by (auto simp: sc_add_def sc_set_def fun_upd_idem split: option.split)

text \<open>Below the wrap-around the counter is the sum of the additions.\<close>

lemma sc_counter: "sc_reach W ds c \<Longrightarrow> length ds < 2 ^ 63 \<Longrightarrow> sc_n c = sum_list ds \<and> \<bar>sum_list ds\<bar> \<le> int (length ds)"
proof (induction rule: sc_reach.induct)
  case (sc_call ds c i d)
  then have "sc_n c = sum_list ds" "\<bar>sum_list ds + d\<bar> \<le> int (Suc (length ds))" by auto
  moreover from this(2) sc_call.prems have "wrap64 (sum_list ds + d) = sum_list ds + d"
    by (intro wrap64_id) (auto simp: go_int64_min_def go_int64_max_def)
  ultimately show ?case by simp
qed (simp_all add: sc_new_def)

text \<open>A single worker's gauge shows the counter between its calls.\<close>

lemma sc_one_worker: "sc_reach {i} ds c \<Longrightarrow> (case sc_pending c i of None \<Rightarrow> sc_g c = f64_of_int (sc_n c) | Some v \<Rightarrow> v = sc_n c)"
  by (induction rule: sc_reach.induct) (auto simp: sc_new_def f64_of_int_exact zero_f64 split: option.splits)

text \<open>
  C33: The gauge of active sessions can be left behind. Two workers start a session each; the second
  addition is mirrored before the first, and once both calls have returned two sessions are active while
  the gauge shows one. It stays so until the next session starts or stops.
\<close>

theorem gauge_left_behind:
  "\<exists>c. sc_reach {0, 1} [1, 1] c \<and> (\<forall>i. sc_pending c i = None) \<and> sc_n c = 2 \<and> sc_g c = Fin 1"
proof (intro exI conjI)
  let ?c = "sc_set 0 (sc_set 1 (sc_add 1 1 (sc_add 0 1 sc_new)))"
  have "sc_reach {0, 1} ([] @ [1]) (sc_add 0 1 sc_new)" by (intro sc_call sc_init) (simp_all add: sc_new_def)
  then have "sc_reach {0, 1} (([] @ [1]) @ [1]) (sc_add 1 1 (sc_add 0 1 sc_new))" by (rule sc_call) (simp_all add: sc_new_def)
  then have "sc_reach {0, 1} [1, 1] (sc_set 1 (sc_add 1 1 (sc_add 0 1 sc_new)))" by (intro sc_mirror) simp_all
  then show "sc_reach {0, 1} [1, 1] ?c" by (rule sc_mirror) simp_all
  show "\<forall>i. sc_pending ?c i = None" by (simp add: sc_new_def)
  show "sc_n ?c = 2" by (simp add: sc_new_def) code_simp
  show "sc_g ?c = Fin 1" by (simp add: sc_new_def) code_simp
qed

end
