(* ===== verification/WorkerLoop.thy ===== *)
theory WorkerLoop
  imports Consumer
begin

text \<open>
  The loop of a worker goroutine, which \<^verbatim>\<open>runAnalyticsBatchGroup\<close> and \<^verbatim>\<open>runRealtimeBatchGroup\<close> of
  \<^verbatim>\<open>processor/consumer.go\<close> share: fill a batch, hand it on, and leave when the first fetch of a batch fails
  under a cancelled context. \<open>r i\<close> is the result of the worker's \<open>i\<close>-th \<^verbatim>\<open>FetchMessage\<close>, across the readers
  it opens, and \<open>cancelled i\<close> whether the context is cancelled when that call has failed. What is done with
  a batch is that of \<^const>\<open>group_step\<close>.
  Shown: the worker ends once the context is cancelled and the fetches fail, and everything that it fetched
  before has been handed on.
\<close>

text \<open>The batches handed on from call \<open>i\<close>; the fuel bounds the rounds.\<close>

fun worker_loop :: "nat \<Rightarrow> int \<Rightarrow> (nat \<Rightarrow> 'm fetch) \<Rightarrow> (nat \<Rightarrow> bool) \<Rightarrow> nat \<Rightarrow> 'm list list option" where
  "worker_loop 0 sz r cancelled i = None"
| "worker_loop (Suc fuel) sz r cancelled i =
     (case fillBatch sz (\<lambda>j. r (i + j)) of
        Inl _ \<Rightarrow> if cancelled i then Some [] else worker_loop fuel sz r cancelled (Suc i)
      | Inr (batch, reason) \<Rightarrow> map_option (Cons batch)
          (worker_loop fuel sz r cancelled (i + length batch + (if reason = flushBySize then 0 else 1))))"

text \<open>The messages that the calls from \<open>i\<close> up to \<open>k\<close> delivered.\<close>

definition fetched :: "(nat \<Rightarrow> 'm fetch) \<Rightarrow> nat \<Rightarrow> nat \<Rightarrow> 'm list" where
  "fetched r i k = concat (map (\<lambda>j. case r j of Fetched m \<Rightarrow> [m] | FetchErr \<Rightarrow> []) [i..<k])"

lemma fetched_simps [simp]:
  "fetched r i i = []" "i \<le> k \<Longrightarrow> fetched r i (Suc k) = fetched r i k @ (case r k of Fetched m \<Rightarrow> [m] | FetchErr \<Rightarrow> [])"
  by (simp_all add: fetched_def)

lemma fetched_append: "i \<le> j \<Longrightarrow> j \<le> k \<Longrightarrow> fetched r i k = fetched r i j @ fetched r j k"
  using upt_add_eq_append [of i j "k - j"] by (simp add: fetched_def)

lemma fetched_all:
  assumes "\<forall>j<n. r (i + j) \<noteq> FetchErr"
  shows "fetched r i (i + n) = map (\<lambda>j. case r (i + j) of Fetched m \<Rightarrow> m) [0..<n]"
  using assms
proof (induction n)
  case (Suc n)
  then show ?case by (cases "r (i + n)") auto
qed simp

lemma fillBatch_fetches:
  assumes "fillBatch sz (\<lambda>j. r (i + j)) = Inr (batch, reason)"
  shows "batch \<noteq> []" "fetched r i (i + length batch) = batch" "int (length batch) \<le> max sz 1"
    "reason \<noteq> flushBySize \<Longrightarrow> r (i + length batch) = FetchErr" "j < length batch \<Longrightarrow> r (i + j) \<noteq> FetchErr"
proof -
  obtain first where first: "r i = Fetched first" "fill_loop sz (\<lambda>j. r (i + j)) 1 [first] = (batch, reason)"
    using assms by (auto simp: fillBatch_def split: fetch.splits)
  obtain n where n: "batch = [first] @ map (\<lambda>j. case r (i + (1 + j)) of Fetched m \<Rightarrow> m) [0..<n]"
    "\<forall>j<n. r (i + (1 + j)) \<noteq> FetchErr" "int (length batch) \<le> max sz (int (length [first]))"
    "if reason = flushBySize then sz \<le> int (length batch) else int (length batch) < sz \<and> r (i + (1 + n)) = FetchErr"
    using fill_loop_result [OF first(2)] by metis
  then show "batch \<noteq> []" "int (length batch) \<le> max sz 1" "reason \<noteq> flushBySize \<Longrightarrow> r (i + length batch) = FetchErr"
    by (simp_all split: if_splits)
  show "r (i + j) \<noteq> FetchErr" if "j < length batch"
    using that n(1,2) first(1) by (cases j) auto
  have "fetched r (Suc i) (Suc i + n) = map (\<lambda>j. case r (Suc i + j) of Fetched m \<Rightarrow> m) [0..<n]"
    by (rule fetched_all) (use n(2) in simp)
  moreover have "fetched r i (i + length batch) = fetched r i (Suc i) @ fetched r (Suc i) (Suc i + n)"
    using fetched_append [of i "Suc i" "Suc i + n" r] by (simp add: n(1))
  ultimately show "fetched r i (i + length batch) = batch" by (simp add: n(1) first(1))
qed

text \<open>
  C25: A worker stops cleanly. Once the context is cancelled and the fetches fail, the loop ends within as
  many rounds as it makes calls; the call that ends it failed under a cancelled context, and the batches
  handed on hold every message fetched before it, in order, each batch non-empty and within the bound.
\<close>

theorem worker_stops_clean:
  assumes "\<And>j. n \<le> j \<Longrightarrow> r j = FetchErr \<and> cancelled j"
  shows "\<exists>bs k. worker_loop (n + 2) sz r cancelled 0 = Some bs \<and> k \<le> Suc n \<and> r k = FetchErr \<and> cancelled k
    \<and> concat bs = fetched r 0 k \<and> (\<forall>b\<in>set bs. b \<noteq> [] \<and> int (length b) \<le> max sz 1)"
proof -
  have "\<exists>bs k. worker_loop fuel sz r cancelled i = Some bs \<and> i \<le> k \<and> k \<le> Suc n \<and> r k = FetchErr \<and> cancelled k
      \<and> concat bs = fetched r i k \<and> (\<forall>b\<in>set bs. b \<noteq> [] \<and> int (length b) \<le> max sz 1)"
    if "n + 2 \<le> fuel + i" "i \<le> Suc n" for fuel i
    using that
  proof (induction fuel arbitrary: i)
    case (Suc fuel)
    show ?case
    proof (cases "fillBatch sz (\<lambda>j. r (i + j))")
      case (Inl u)
      then have err: "r i = FetchErr" by (simp add: fillBatch_def split: fetch.splits)
      show ?thesis
      proof (cases "cancelled i")
        case True
        then show ?thesis using Inl err Suc.prems(2) by (intro exI [of _ "[]"] exI [of _ i]) simp
      next
        case False
        then have "i < n" using assms [of i] by (meson not_le_imp_less)
        then obtain bs k where "worker_loop fuel sz r cancelled (Suc i) = Some bs" "Suc i \<le> k" "k \<le> Suc n" "r k = FetchErr" "cancelled k"
          "concat bs = fetched r (Suc i) k" "\<forall>b\<in>set bs. b \<noteq> [] \<and> int (length b) \<le> max sz 1"
          using Suc.IH [of "Suc i"] Suc.prems(1) by auto
        then show ?thesis
          using Inl False err fetched_append [of i "Suc i" k r] by (intro exI [of _ bs] exI [of _ k]) simp
      qed
    next
      case (Inr br)
      obtain batch reason where br: "br = (batch, reason)" by (cases br)
      note f = fillBatch_fetches [OF Inr [unfolded br]]
      define i' where "i' = i + length batch + (if reason = flushBySize then 0 else 1)"
      have i': "fetched r i i' = batch" "i < i'" using f by (auto simp: i'_def)
      have "r (i + (length batch - 1)) \<noteq> FetchErr" by (rule f(5)) (use f(1) in simp)
      then have "i + (length batch - 1) < n" using assms by (meson not_le_imp_less)
      then have "i' \<le> Suc n" using f(1) by (cases batch) (auto simp: i'_def)
      then obtain bs k where "worker_loop fuel sz r cancelled i' = Some bs" "i' \<le> k" "k \<le> Suc n" "r k = FetchErr" "cancelled k"
        "concat bs = fetched r i' k" "\<forall>b\<in>set bs. b \<noteq> [] \<and> int (length b) \<le> max sz 1"
        using Suc.IH [of i'] Suc.prems(1) i'(2) by auto
      then show ?thesis
        using Inr br f i' fetched_append [of i i' k r] by (intro exI [of _ "batch # bs"] exI [of _ k]) (simp add: i'_def)
    qed
  qed simp
  from this [of "n + 2" 0] show ?thesis by simp
qed

text \<open>Two messages, a failed fetch that closes the batch, a stray error, one more message, then the end.\<close>

theorem worker_stops_clean_witness:
  "\<exists>bs. worker_loop 7 500 ((\<lambda>_. FetchErr)(0 := Fetched ''a'', 1 := Fetched ''b'', 4 := Fetched ''c'')) (\<lambda>i. 5 \<le> i) 0 = Some bs
     \<and> concat bs = [''a'', ''b'', ''c'']"
proof -
  let ?r = "(\<lambda>_. FetchErr)(0 := Fetched ''a'', 1 := Fetched ''b'', 4 := Fetched ''c'')"
  obtain bs k where k: "worker_loop 7 500 ?r (\<lambda>i. 5 \<le> i) 0 = Some bs" "k \<le> 6" "(5::nat) \<le> k" "concat bs = fetched ?r 0 k"
    using worker_stops_clean [of 5 ?r "\<lambda>i. 5 \<le> i" 500] by auto
  moreover from k(2,3) have "k = 5 \<or> k = 6" by auto
  then have "fetched ?r 0 k = [''a'', ''b'', ''c'']" by (elim disjE) (simp_all add: fetched_def upt_conv_Cons)
  ultimately show ?thesis by auto
qed

end
