(* ===== verification/Spec2Isabelle.thy ===== *)
theory Spec2Isabelle
  imports ProcMain Interleave SimStart SimTopic SimMirror SimGauge WorkerLoop
begin

text \<open>
  A verification development for the charging-event pipeline: a simulator that generates events of a
  fleet of charging stations (\<^verbatim>\<open>src/simulator\<close>) and a processor that validates, deduplicates and
  routes them and keeps the current state of every connector (\<^verbatim>\<open>src/processor\<close>).

  \<^bold>\<open>The program.\<close> The simulator builds a roster of stations from its configuration, seeds it into
  Postgres, and advances the stations on a simulated clock; each event goes through a producer, which
  may duplicate it or hold it back on a delay queue, to the raw topic of Kafka. The processor loads the
  roster from Postgres and runs two consumer groups on the raw topic: the analytics group writes valid
  events to the clean topic and the others to a dead-letter topic, dropping duplicates with marks in a
  Redis; the realtime group keeps the latest state of every connector in another Redis.

  \<^bold>\<open>Shared theories.\<close> \<open>Prelude\<close> has the automation and the generic lemmas, \<open>Float64\<close> the binary64
  arithmetic of Go's \<^verbatim>\<open>float64\<close> (rounding to nearest even, infinities, NaN, conversions, without fused
  multiply-add), \<open>GoTime\<close> the civil calendar with \<^verbatim>\<open>time.Parse\<close> and the layout the programs print.

  \<^bold>\<open>The processor.\<close>
  \<^item> \<open>Transform\<close> (\<^verbatim>\<open>transform/flatten.go\<close>): the wire structs as records and \<^verbatim>\<open>Flatten\<close>; no field of an
    event is lost.
  \<^item> \<open>Json\<close> (\<^verbatim>\<open>json.Unmarshal\<close> as \<^verbatim>\<open>Decode\<close> uses it): lexer, parser and struct decoder of
    \<^verbatim>\<open>encoding/json\<close>, down to bytes; decoded floats are finite. \<open>Decimal\<close> finds the shortest decimal that
    rounds back to a binary64 value, \<open>JsonWrite\<close> is \<^verbatim>\<open>json.Marshal\<close> of the wire structs: what is
    written reads back, to the last bit.
  \<^item> \<open>Registry\<close> (\<^verbatim>\<open>registry.go\<close>): snapshots, the start-up poll and the refresher; a roster never becomes
    blank.
  \<^item> \<open>Validate\<close> (\<^verbatim>\<open>validate.go\<close>): every rule with its error; the first violated rule of an ordered table
    decides, and an accepted event agrees with its station's row.
  \<^item> \<open>Redis\<close>, \<open>RedisState\<close> (\<^verbatim>\<open>redis_state.go\<close>): an interface of Redis as locales, with evictions, expiry
    and pipelines that fail after any prefix, interpreted on an in-memory store; the Lua script and the
    pipelined batch refine last-writer-wins cells, and retries are idempotent.
  \<^item> \<open>Dedup\<close> (\<^verbatim>\<open>dedup.go\<close>), \<open>Kafka\<close>, \<open>Writers\<close> (\<^verbatim>\<open>producer.go\<close>), \<open>Metrics\<close> (\<^verbatim>\<open>metrics.go\<close>),
    \<open>ProcConfig\<close> (\<^verbatim>\<open>config.go\<close>): marks, the interface of a topic, the two writers with their rows as
    bytes, the counters and the metrics server, and the configuration with its defaults.
  \<^item> \<open>Analytics\<close> (\<^verbatim>\<open>analytics.go\<close>): the whole \<^verbatim>\<open>flush\<close>, also cut off by a crash after any of its effects;
    a mark implies a produced row, every message is accounted for, and a flush fails only with a write.
  \<^item> \<open>Realtime\<close> (\<^verbatim>\<open>realtime.go\<close>): \<^verbatim>\<open>applyBatch\<close> with its single retry and its counters; \<open>RtWorkers\<close>: the
    workers of the realtime group with their pipelines interleaved command by command; each key follows
    the batches of the worker that owns it.
  \<^item> \<open>Consumer\<close> (\<^verbatim>\<open>consumer.go\<close>): \<^verbatim>\<open>fillBatch\<close> and the groups as a transition system with any number of
    workers, rebalances, lost commits and crashes; the locale \<open>batch_sink\<close> is the contract between a
    group and its handler, from which a committed message is done; a rejected message whose dead letter
    is above the limit of the Kafka writer blocks its partition. \<open>WorkerLoop\<close>: the loop of one worker, which
    hands on all it has fetched before it stops.
  \<^item> \<open>Interleave\<close>: the analytics group at the grain of single effects, the flushes of its workers
    interleaved between the read of the marks, the two produces and the marking; at-least-once delivery.
  \<^item> \<open>ProcMain\<close> (\<^verbatim>\<open>main.go\<close>): start-up; it ends, and what it starts is well configured.

  \<^bold>\<open>The simulator.\<close>
  \<^item> \<open>SimConfig\<close> (\<^verbatim>\<open>config.go\<close>), \<open>SimModel\<close> (\<^verbatim>\<open>model.go\<close>): the configuration and its checks; the roster,
    the random choices, the charging physics and the event constructors. Randomness is a record of
    functions on a generator state.
  \<^item> \<open>SimEvents\<close>: the locale \<open>rand_source\<close> with the documented ranges of the random functions, the
    invariant of sessions and connectors, and that every constructed event passes \<^verbatim>\<open>Validate\<close>.
  \<^item> \<open>SimRoster\<close>, \<open>SimRegistry\<close> (\<^verbatim>\<open>registry.go\<close>): the generated roster is well formed; seeding is one
    transaction, all or nothing, and the processor loads back what was seeded.
  \<^item> \<open>DelayQueue\<close> (\<^verbatim>\<open>delayqueue.go\<close>): the array heap of \<^verbatim>\<open>container/heap\<close>, the queue, and pushers and worker
    as a transition system; held-back events are written exactly once, never early, and the worker
    never oversleeps. \<open>SimProducer\<close> (\<^verbatim>\<open>producer.go\<close>): \<^verbatim>\<open>Send\<close> and its accounting. \<open>SimTopic\<close>: any number
    of goroutines inside \<^verbatim>\<open>Send\<close>, interleaved at their effects with the worker of the queue; what is on
    the raw topic is the encoding of an event, and none is lost while no error is counted.
  \<^item> \<open>SimMain\<close>, \<open>SimStart\<close> (\<^verbatim>\<open>main.go\<close>): the tick of a worker, the workers as a transition system, and
    the start of the process in its seeding and simulating modes. \<open>SimGauge\<close> (\<^verbatim>\<open>metrics.go\<close>): the gauge of
    active sessions under concurrent workers, which can be left behind.
  \<^item> \<open>SimMirror\<close>: the events of a connector never go back in time, so that the hashes which the realtime
    group keeps show the statuses and sessions of the simulated connectors.

  This theory composes them, from the bytes of the raw topic on: a deployment that seeds, simulates and
  processes never dead-letters a simulated event, and the current state it keeps is that of the stations.

  \<^bold>\<open>Conventions.\<close> Integers of 64 bits are \<^typ>\<open>int\<close> with the wrap-around written out where a computation
  can overflow. Instants and durations are nanoseconds. A call that can fail returns a sum or an option;
  \<^const>\<open>None\<close> in the simulator is a panic. Outside systems enter as records of functions with locales
  for what the code relies on, and every such locale is interpreted on a concrete instance. Readings of
  the clock, registry reads and outcomes of calls are inputs.

  \<^bold>\<open>Bounds and fuel.\<close> Two loops have fuel. That of the start-up poll of the registry, \<^const>\<open>main_fuel\<close>, is its
  90 seconds divided by the pause of 2 seconds, plus the first and the last attempt, and start-up is
  shown to end within it; a round of a worker's loop makes at least one fetch, so the number of the fetch
  from which all fail bounds its rounds. Simulated times range over what the layout can print and 64-bit nanoseconds
  can hold (\<^const>\<open>in_time\<close>), meter intervals over at most 104 days (\<^const>\<open>cadence_ok\<close>), and session
  lengths, for the current state, over at most 69 days (\<^const>\<open>lengths_ok\<close>).

  \<^bold>\<open>Not modelled.\<close> Signals and the order in which \<^verbatim>\<open>main\<close> shuts down, logging, what the metrics handlers answer, the \<^verbatim>\<open>Close\<close> of
  readers and Redis clients, tickers and the rate limiter's timing, which only perform I/O or pace the
  loops; the text \<^verbatim>\<open>fmt.Sprintf\<close> makes of an error, which is an input; the sign of a zero; compression,
  balancing and batching inside the Kafka client. ClickHouse, the analytics queries, the daily job,
  dashboards and the container files run outside the two programs. In the group of \<open>Consumer\<close> a batch is
  one step unless a crash cuts it; \<open>Interleave\<close> and \<open>RtWorkers\<close> have one step per effect. A command of a
  realtime pipeline that the client has given up does not run later.
\<close>

subsection \<open>A registry the processor holds\<close>

text \<open>A registry loaded from tables: some reply that delivers their rows gave its snapshot.\<close>

definition live_registry :: "tables \<Rightarrow> Registry \<Rightarrow> bool" where
  "live_registry db reg \<longleftrightarrow> (\<exists>rep snp. serves db rep \<and> loadRegistry rep = Inr snp \<and> reg = \<lparr>snap = snp\<rparr>)"

lemma live_registry_has:
  assumes "distinct (map st_ID sts)" "live_registry (seeded_tables sts) reg" "st \<in> set sts"
  shows "registry_has reg st"
  using assms loaded_seed [OF assms(1)] by (fastforce simp: live_registry_def)

text \<open>A reply of the database: the rows of the tables, or a failure.\<close>

definition serves_or_fails :: "tables \<Rightarrow> db_reply \<Rightarrow> bool" where
  "serves_or_fails db rep \<longleftrightarrow> serves db rep \<or> (\<exists>e. loadRegistry rep = Inl e)"

lemma Refresh_live: "live_registry db reg \<Longrightarrow> serves_or_fails db rep \<Longrightarrow> live_registry db (fst (Refresh reg rep))"
  by (auto simp: Refresh_def serves_or_fails_def live_registry_def split: sum.split)

lemma StartRegistryRefresher_live:
  "live_registry db reg \<Longrightarrow> list_all (serves_or_fails db) reps \<Longrightarrow> live_registry db (StartRegistryRefresher reg reps)"
  by (induction reps arbitrary: reg) (simp_all add: Refresh_live)

lemma processor_main_reg:
  assumes "processor_main fuel su = Some (Inr p)"
  shows "LoadRegistryWithRetry fuel (su_db su) (su_clk su) (su_now su) (90 * second) = Some (Inr (p_reg p))"
  using assms by (auto simp: processor_main_def start_groups_def Let_def split: sum.splits option.splits)

text \<open>
  C30: The roster follows the seed. A processor that has started against a database in which every
  answered query delivers the seeded tables, and whose refresher has ticked any number of times with such
  answers or failures, holds a registry loaded from those tables: it has every seeded station with the
  seeded row, and the whole tariff catalog.
\<close>

theorem registry_follows_seed:
  assumes "processor_main fuel su = Some (Inr p)" "\<And>j. serves_or_fails (seeded_tables sts) (su_db su j)"
    and "list_all (serves_or_fails (seeded_tables sts)) reps" "distinct (map st_ID sts)"
  shows "live_registry (seeded_tables sts) (StartRegistryRefresher (p_reg p) reps)
    \<and> (\<forall>st\<in>set sts. registry_has (StartRegistryRefresher (p_reg p) reps) st)"
proof -
  from processor_main_reg [OF assms(1)] obtain j where "loadRegistry (su_db su j) = Inr (snap (p_reg p))"
    using retry_loop_result by (fastforce simp: LoadRegistryWithRetry_def)
  moreover from this have "serves (seeded_tables sts) (su_db su j)" using assms(2) [of j] by (auto simp: serves_or_fails_def)
  ultimately have "live_registry (seeded_tables sts) (p_reg p)" by (auto simp: live_registry_def)
  then have live: "live_registry (seeded_tables sts) (StartRegistryRefresher (p_reg p) reps)"
    using assms(3) by (rule StartRegistryRefresher_live)
  then show ?thesis using live_registry_has [OF assms(4)] by blast
qed

subsection \<open>The raw topic\<close>

lemma raw_topic_encodings:
  assumes "kafka_log K" "producer_run R K q (producers_start R cfg n k0 now) s" "k_has K (pw_k (ps_w s)) t (key, b)"
    and "\<And>m. \<not> k_has K k0 t m"
  shows "\<exists>e\<in>set (ps_taken s). Marshal_Event e = Some b"
  using producer_run_ok [OF assms(1,2)] assms(3,4) unfolding topic_ok_def only_encoded_def encoded_def by blast

subsection \<open>The deployment\<close>

text \<open>
  A deployment as the compose file starts it: the seeding process has succeeded on the tables
  \<open>db0\<close>, then the simulator \<open>r\<close> runs on the same configuration file and leaves the tables \<open>db\<close>;
  the cities and operators have names, cities keep a degree from the poles and the date line, and the
  first events are stamped at a time the layout can write.
\<close>

definition deployed :: "'s rand \<Rightarrow> sim_env \<Rightarrow> sim_env \<Rightarrow> tables \<Rightarrow> 's running \<Rightarrow> tables \<Rightarrow> bool" where
  "deployed R env env' db0 r db \<longleftrightarrow> se_yaml env' = se_yaml env \<and> se_file env' = se_file env
     \<and> (\<exists>db1. simulator_main R env db0 = (db1, SimSeeded) \<and> simulator_main R env' db1 = (db, SimRuns r))
     \<and> roster_config_ok (ru_cfg r) \<and> cadence_ok (ru_cfg r) \<and> in_time (se_clk env' 1)"

lemma deployed_tables:
  assumes "rand_source R" "deployed R env env' db0 r db"
  shows "db = seeded_tables (ru_stations r)" "roster_ok (ru_cfg r) (ru_stations r)"
    "runSimulation R (ru_cfg r) (ru_stations r) (se_cpus env') (se_clk env') = Some (ru_sim r)"
proof -
  from assms(2) obtain db1 where d: "simulator_main R env db0 = (db1, SimSeeded)" "simulator_main R env' db1 = (db, SimRuns r)"
    "se_yaml env' = se_yaml env" "se_file env' = se_file env" "roster_config_ok (ru_cfg r)"
    by (auto simp: deployed_def)
  obtain cfg where "sim_LoadConfig (se_yaml env) (se_file env) = Inr cfg" "db1 = seeded_tables (roster_of R cfg)"
    using simulator_main_seeded [OF d(1)] by blast
  with d(3,4) show "db = seeded_tables (ru_stations r)"
    by - (rule simulator_main_runs [OF d(2)], auto)
  show "roster_ok (ru_cfg r) (ru_stations r)"
    using roster_nonempty(1) [OF d(5) assms(1)] by - (rule simulator_main_runs [OF d(2)], simp)
  show "runSimulation R (ru_cfg r) (ru_stations r) (se_cpus env') (se_clk env') = Some (ru_sim r)"
    by (rule simulator_main_runs [OF d(2)])
qed

lemma deployed_sends_accepted:
  assumes "rand_source R" "deployed R env env' db0 r db" "sim_run R (ru_cfg r) (ru_sim r) w"
    and "live_registry db reg" "live_registry db reg'" "e \<in> set (si_sent w)"
  shows "(\<exists>ts. Validate e reg reg' = Inr ts) \<and> wire_ok e"
proof -
  note d = deployed_tables [OF assms(1,2)]
  have dist: "distinct (map st_ID (ru_stations r))" using d(2) by (simp add: roster_ok_def)
  have has: "\<forall>st\<in>set (ru_stations r). registry_has reg st" "\<forall>st\<in>set (ru_stations r). registry_has reg' st"
    using live_registry_has [OF dist] assms(4,5) d(1) by blast+
  note sts = roster_seeded [OF d(2) has]
  have "cadence_ok (ru_cfg r)" "in_time (se_clk env' 1)" using assms(2) by (simp_all add: deployed_def)
  then have "sim_ok reg reg' w"
    using rand_source.sim_run_ok [OF assms(1,3) rand_source.runSimulation_ok [OF assms(1) d(3) sts]] by blast
  then show ?thesis using assms(6) by (auto simp: sim_ok_def list_all_iff accepted_def)
qed

lemma deployed_tracked:
  assumes "rand_source R" "deployed R env env' db0 r db" "sim_run R (ru_cfg r) (ru_sim r) w"
    and "lengths_ok (ru_cfg r)" "\<And>i. se_clk env' 1 \<le> se_clk env' (i + 2)"
  shows "sim_tracked S w"
proof -
  note d = deployed_tables [OF assms(1,2)]
  have dist: "distinct (map st_ID (ru_stations r))" using d(2) by (simp add: roster_ok_def)
  obtain reg where reg: "\<forall>st\<in>set (ru_stations r). registry_has reg st"
    using loaded_seed [OF dist demo_serves] by blast
  note sts = roster_seeded [OF d(2) reg reg]
  have c: "cadence_ok (ru_cfg r)" "in_time (se_clk env' 1)" using assms(2) by (simp_all add: deployed_def)
  have "distinct (map cn_ID (st_Connectors st))" if "st \<in> set (ru_stations r)" for st
    using d(2) that by (auto simp: roster_ok_def list_all_iff station_built_def distinct_map inj_on_def)
  then have "sim_tracked S (ru_sim r)"
    using runSimulation_tracked [OF d(3) sts dist _ c(2) assms(5)] by blast
  then show ?thesis
    using rand_source.sim_run_tracked [OF assms(1,3) _ rand_source.runSimulation_ok [OF assms(1) d(3) sts c(2)] c(1) assms(4)] by blast
qed

text \<open>
  C4: The simulator and the processor agree. In a deployment, whatever the workers of the simulator do,
  every event they ever hand to \<^verbatim>\<open>Send\<close> is accepted by \<^verbatim>\<open>Validate\<close>, against whatever registries a
  processor has loaded from the tables, even if its two reads straddle a refresh.
\<close>

theorem simulated_events_are_accepted:
  assumes "rand_source R" "deployed R env env' db0 r db" "sim_run R (ru_cfg r) (ru_sim r) w"
    and "live_registry db reg" "live_registry db reg'"
  shows "\<forall>e\<in>set (si_sent w). \<exists>ts. Validate e reg reg' = Inr ts"
  using deployed_sends_accepted [OF assms] by blast

text \<open>
  C1: End to end, in bytes. In a deployment whose producer has, in any interleaving, sent events of the
  simulation to a raw topic that was empty before, a batch of messages of that topic, flushed
  successfully by an analytics worker of a started processor that holds registries of the tables, ends up
  in the clean topic as a whole: every message is the encoding of a simulated event and decodes to it,
  that event's row is produced, and the dead-letter topic gains nothing.
\<close>

theorem pipeline_end_to_end:
  assumes sim: "rand_source R" "deployed R env env' db0 r db" "sim_run R (ru_cfg r) (ru_sim r) w"
    and raw: "kafka_log KR" "producer_run R KR (ru_producer r) (producers_start R (ru_cfg r) n k0 now) s"
      "set (ps_taken s) \<subseteq> set (si_sent w)" "\<And>m. \<not> k_has KR k0 (kc_TopicRaw (cf_Kafka (p_cfg p))) m"
    and proc: "processor_main fuel su = Some (Inr p)" "v \<in> set (p_an p)"
      "kc_TopicDLQ (cf_Kafka (p_cfg p)) \<noteq> kc_TopicClean (cf_Kafka (p_cfg p))"
    and env: "redis_keys Q" "kafka_log K" "window_ok Q K (wk_handle v) x"
    and batch: "\<And>msg. msg \<in> set batch \<Longrightarrow> k_has KR (pw_k (ps_w s)) (kc_TopicRaw (cf_Kafka (p_cfg p))) (km_Key msg, km_Value msg)"
    and regs: "\<And>i. live_registry db (fst (fi_regs inp i)) \<and> live_registry db (snd (fi_regs inp i))"
    and ok: "flush Q K (wk_handle v) inp batch x = (x', True)"
  shows "(\<forall>msg\<in>set batch. \<exists>e\<in>set (si_sent w). Marshal_Event e = Some (km_Value msg) \<and> Decode (km_Value msg) = Inr e
        \<and> produced K (ah_writers (wk_handle v)) (w_k x') (EventID e))
    \<and> (\<forall>kd. k_has K (w_k x') (kc_TopicDLQ (cf_Kafka (p_cfg p))) kd \<longrightarrow> k_has K (w_k x) (kc_TopicDLQ (cf_Kafka (p_cfg p))) kd)"
proof -
  let ?h = "wk_handle v"
  obtain cfg reg where p: "p = start_groups cfg reg" using processor_main_Inr [OF proc(1)] by blast
  then have h: "ah_writers ?h = NewWriters cfg" "p_cfg p = cfg" using start_groups_sel(2) [of v cfg reg] proc(2) by (simp_all add: start_groups_sel)
  have topics: "kw_Topic (w_dlq (ah_writers ?h)) = kc_TopicDLQ (cf_Kafka (p_cfg p))" "kw_Topic (w_clean (ah_writers ?h)) = kc_TopicClean (cf_Kafka (p_cfg p))"
    by (simp_all add: h NewWriters_def mk_writer_def Let_def)
  have judge: "\<exists>e\<in>set (si_sent w). \<exists>ts. Marshal_Event e = Some (km_Value (batch ! i)) \<and> Decode (km_Value (batch ! i)) = Inr e
      \<and> judge (fi_regs inp i) (km_Value (batch ! i)) = Inr (e, ts)"
    if i: "i < length batch" for i
  proof -
    obtain e where e: "e \<in> set (si_sent w)" "Marshal_Event e = Some (km_Value (batch ! i))"
      using raw_topic_encodings [OF raw(1,2) batch [OF nth_mem [OF i]] raw(4)] raw(3) by blast
    obtain ts where ts: "Validate e (fst (fi_regs inp i)) (snd (fi_regs inp i)) = Inr ts" and w: "wire_ok e"
      using deployed_sends_accepted [OF sim regs [THEN conjunct1] regs [THEN conjunct2] e(1)] by blast
    have "Decode (km_Value (batch ! i)) = Inr e" using Unmarshal_Marshal [OF w e(2)] by (simp add: Decode_def)
    then show ?thesis using e ts by (auto simp: judge_def)
  qed
  note an = analytics_env.intro [OF env(1,2)]
  have x': "x' = fst (flush Q K ?h inp batch x)" "snd (flush Q K ?h inp batch x)" by (simp_all only: ok fst_conv snd_conv)
  have "\<exists>e\<in>set (si_sent w). Marshal_Event e = Some (km_Value msg) \<and> Decode (km_Value msg) = Inr e
      \<and> produced K (ah_writers ?h) (w_k x') (EventID e)" if msg: "msg \<in> set batch" for msg
  proof -
    from msg [unfolded in_set_conv_nth] obtain i where i: "i < length batch" "batch ! i = msg" by blast
    obtain e ts where e: "e \<in> set (si_sent w)" "Marshal_Event e = Some (km_Value msg)" "Decode (km_Value msg) = Inr e"
      and j: "judge (fi_regs inp i) (km_Value (batch ! i)) = Inr (e, ts)"
      using judge [OF i(1)] i(2) by blast
    show ?thesis unfolding x'(1) using analytics_env.flush_produces [OF an env(3) x'(2) i(1) j] e by blast
  qed
  moreover have "k_has K (w_k x) (kc_TopicDLQ (cf_Kafka (p_cfg p))) kd" if "k_has K (w_k x') (kc_TopicDLQ (cf_Kafka (p_cfg p))) kd" for kd
  proof (rule analytics_env.flush_no_dead_letters [OF an, of ?h, unfolded topics])
    show "kc_TopicDLQ (cf_Kafka (p_cfg p)) \<noteq> kc_TopicClean (cf_Kafka (p_cfg p))" by (rule proc(3))
    show "\<exists>ets. judge (fi_regs inp i) (km_Value (batch ! i)) = Inr ets" if "i < length batch" for i
      using judge [OF that] by blast
    show "k_has K (w_k (fst (flush Q K ?h inp batch x))) (kc_TopicDLQ (cf_Kafka (p_cfg p))) kd" using that by (simp add: x'(1))
  qed
  ultimately show ?thesis by (intro conjI ballI allI impI)
qed

text \<open>
  What the processor starts keeps its promises. For the handlers that a start-up hands to its two
  groups, with times to live that fit 64-bit nanoseconds: in every reachable state of the analytics group
  each message below a committed offset is accounted for, and in every reachable state of the realtime
  group the store is well formed.
\<close>

theorem started_processor_sound:
  assumes "processor_main fuel su = Some (Inr p)" "v \<in> set (p_an p)" "u \<in> set (p_rt p)"
    and "cf_StateTTLSec (p_cfg p) \<le> 9223372036" "cf_DedupTTLSec (p_cfg p) \<le> 9223372036"
    and "redis_keys Q" "kafka_log K" "window_ok Q K (wk_handle v) x0" "redis_hash S" "state_wf S (rw_r y0)"
    and "group_reach (wk_size v) (flush Q K (wk_handle v)) (flush_crash Q K (wk_handle v)) x0 g"
    and "group_reach (wk_size u) (rt_sink S (wk_handle u)) (rt_torn S (wk_handle u)) y0 g'"
  shows "(\<forall>pt off. off < g_committed g pt \<longrightarrow>
      off < length (g_log g pt) \<and> accounted K (ah_writers (wk_handle v)) (w_k (g_world g)) (g_log g pt ! off))
    \<and> state_wf S (rw_r (g_world g'))"
proof -
  obtain cfg reg where c: "config_ok cfg" "p = start_groups cfg reg" using processor_main_Inr [OF assms(1)] by blast
  then have t: "cf_StateTTLSec cfg \<le> 9223372036" "cf_DedupTTLSec cfg \<le> 9223372036" using assms(4,5) by (simp_all add: start_groups_sel)
  have "0 < Milliseconds (ss_ttl (rh_state (wk_handle u)))"
    using ttl_bounds(1) [OF c(1) t] start_groups_sel(1) [of u cfg reg] assms(3) c(2) by simp
  then have "realtime_env S (wk_handle u)" using assms(9) by (simp add: realtime_env_def realtime_env_axioms_def)
  then have "state_wf S (rw_r (g_world g'))" using realtime_env.realtime_reach_wf [OF _ assms(12,10)] by blast
  then show ?thesis using analytics_env.analytics_committed [OF analytics_env.intro [OF assms(6,7)] assms(11,8)] by blast
qed


subsection \<open>A concrete deployment\<close>

text \<open>A source whose floats are all one half, so that stations sit exactly on their cities.\<close>

definition half_rand :: "int rand" where
  "half_rand = tape_rand\<lparr>r_Float64 := \<lambda>s. (Fin (1 / 2), s + 1)\<rparr>"

interpretation half: rand_source half_rand
proof
  show "\<exists>u. fst (r_Float64 half_rand s) = Fin u \<and> 0 \<le> u \<and> u < 1" for s
    by (intro exI [of _ "1 / 2"]) (simp add: half_rand_def)
qed (use tape.Intn_range tape.NewString_shape tape.Log_range in \<open>simp_all add: half_rand_def\<close>)

definition sim_event :: Event where
  "sim_event = zero_Event\<lparr>EventID := demo_uuid, EventType := ''STATUS_CHANGE'', StationID := ''TR-IST-0001'',
     ConnectorID := 1, Timestamp := ''1970-01-01T00:00:00.000Z'', OperatorID := ''ZES'',
     Location := \<lparr>Lat = Fin 41, Lon = Fin 29, City = ''Istanbul'', Country = ''TR''\<rparr>, Status := ''Available''\<rparr>"

definition sim_payload :: bytes where
  "sim_payload = demo_json (''{!event_id!:!'' @ demo_uuid @ ''!,!event_type!:!STATUS_CHANGE!,!station_id!:!TR-IST-0001!,!connector_id!:1,!timestamp!:!1970-01-01T00:00:00.000Z!,!operator_id!:!ZES!,!location!:{!lat!:41,!lon!:29,!city!:!Istanbul!,!country!:!TR!},!status!:!Available!}'')"

lemma sim_payload_Marshal: "Marshal_Event sim_event = Some sim_payload"
  by code_simp

lemma sim_payload_Decode: "Decode sim_payload = Inr sim_event"
  by code_simp

definition first_station :: Station where
  "first_station = fst (build_station half_rand demo_cfg [''ChargeSquare'', ''ZES''] 1 4 (\<lambda>_. 0) 143 42)"

lemma first_station_mem: "first_station \<in> set (roster_of half_rand demo_cfg)"
proof -
  have "roster_of half_rand demo_cfg = fst (build_loop (Suc (Suc 0)) half_rand demo_cfg [''ChargeSquare'', ''ZES''] 1 4 (\<lambda>_. 0) 143 42)"
    by (simp add: roster_of_def BuildStations_def demo_cfg_def demo_sim_config_def half_rand_def tape_rand_def wrap64_def
        numeral_2_eq_2 del: build_loop.simps)
  then show ?thesis by (simp only: build_loop.simps(2)) (simp add: first_station_def case_prod_beta Let_def)
qed

lemma first_station_sends: "fst (statusChange half_rand first_station (hd (st_Connectors first_station)) 1 ''Available'' s) = sim_event"
proof -
  have "st_ID first_station = ''TR-IST-0001''" "st_OperatorID first_station = ''ZES''" "st_City first_station = ''Istanbul''"
    "st_Country first_station = ''TR''" "st_Lat first_station = Fin 41" "st_Lon first_station = Fin 29"
    "cn_ID (hd (st_Connectors first_station)) = 1" "cn_session (hd (st_Connectors first_station)) = None"
    by code_simp+
  moreover have "format_ms 1 = ''1970-01-01T00:00:00.000Z''" by code_simp
  ultimately show ?thesis
    by (simp add: statusChange_def baseEvent_def half_rand_def tape_rand_def sim_event_def)
qed

definition demo_run :: "int sim \<Rightarrow> int running" where
  "demo_run w = \<lparr>ru_cfg = demo_cfg, ru_stations = roster_of half_rand demo_cfg,
     ru_server = sim_StartMetricsServer (sm_MetricsListen demo_cfg), ru_producer = NewProducer demo_cfg, ru_sim = w\<rparr>"

lemma demo_deployed:
  "\<exists>w. deployed half_rand (demo_env True) (demo_env False) demo_tables (demo_run w) (seeded_tables (roster_of half_rand demo_cfg))
     \<and> sim_event \<in> set (si_sent w)"
proof -
  obtain w where w: "runSimulation half_rand demo_cfg (roster_of half_rand demo_cfg) 4 (\<lambda>i. int i) = Some w"
    "simulator_main half_rand (demo_env False) (seeded_tables (roster_of half_rand demo_cfg)) =
       (seeded_tables (roster_of half_rand demo_cfg), SimRuns (demo_run w))"
    using demo_runs [OF half.rand_source_axioms] unfolding demo_run_def by blast
  have "st_Connectors first_station \<noteq> []" by code_simp
  then have "hd (st_Connectors first_station) \<in> set (st_Connectors first_station)" by simp
  from runSimulation_announces [OF w(1) first_station_mem this] have "sim_event \<in> set (si_sent w)"
    using first_station_sends by simp
  moreover have "deployed half_rand (demo_env True) (demo_env False) demo_tables (demo_run w) (seeded_tables (roster_of half_rand demo_cfg))"
    using demo_seeded [of half_rand] w(2) demo_cfg_ok demo_in_time(1) by (simp add: deployed_def demo_run_def) (simp add: demo_env_def)
  ultimately show ?thesis by blast
qed

lemma demo_roster_distinct: "distinct (map st_ID (roster_of half_rand demo_cfg))"
  using roster_nonempty(1) [OF demo_cfg_ok(1) half.rand_source_axioms] by (simp add: roster_ok_def)

lemma demo_live:
  "\<exists>reg. live_registry (seeded_tables (roster_of half_rand demo_cfg)) reg"
  using loaded_seed [OF demo_roster_distinct demo_serves] demo_serves by (auto simp: live_registry_def)

definition seeded_startup :: startup where
  "seeded_startup = demo_startup\<lparr>su_db := \<lambda>_. demo_reply (roster_of half_rand demo_cfg)\<rparr>"

lemma seeded_processor: "\<exists>p. processor_main main_fuel seeded_startup = Some (Inr p)"
proof -
  obtain snp where snp: "loadRegistry (demo_reply (roster_of half_rand demo_cfg)) = Inr snp"
    "\<forall>st\<in>set (roster_of half_rand demo_cfg). registry_has \<lparr>snap = snp\<rparr> st"
    using loaded_seed [OF demo_roster_distinct demo_serves] by blast
  have "StationMeta \<lparr>snap = snp\<rparr> (st_ID first_station) \<noteq> None" using snp(2) first_station_mem by (auto simp: registry_has_def)
  then have "stations snp \<noteq> []" by (auto simp: StationMeta_def)
  then have "LoadRegistryWithRetry main_fuel (su_db seeded_startup) (su_clk seeded_startup) (su_now seeded_startup) (90 * second)
      = Some (Inr \<lparr>snap = snp\<rparr>)"
    using snp(1) unfolding LoadRegistryWithRetry_def main_fuel_def
    by (simp add: retry_loop.simps(2) [where fuel = 46, simplified] seeded_startup_def Let_def)
  moreover have "LoadConfig (su_yaml seeded_startup) (su_file seeded_startup) = Inr (fill_defaults demo_config)"
    by (simp add: LoadConfig_def seeded_startup_def demo_startup_def demo_config_def)
  moreover have "pingRedis (su_pingState seeded_startup) = None" "pingRedis (su_pingDedup seeded_startup) = None"
    by (simp_all add: pingRedis_def seeded_startup_def demo_startup_def numeral_eq_Suc)
  ultimately show ?thesis unfolding processor_main_def by simp
qed

theorem registry_follows_seed_witness:
  "\<exists>p. processor_main main_fuel seeded_startup = Some (Inr p)
     \<and> registry_has (StartRegistryRefresher (p_reg p) [demo_db\<lparr>db_ping := False\<rparr>, demo_reply (roster_of half_rand demo_cfg)]) first_station"
proof -
  obtain p where p: "processor_main main_fuel seeded_startup = Some (Inr p)" using seeded_processor by blast
  have s: "serves_or_fails (seeded_tables (roster_of half_rand demo_cfg)) (su_db seeded_startup j)" for j
    using demo_serves by (simp add: serves_or_fails_def seeded_startup_def)
  have "list_all (serves_or_fails (seeded_tables (roster_of half_rand demo_cfg)))
      [demo_db\<lparr>db_ping := False\<rparr>, demo_reply (roster_of half_rand demo_cfg)]"
    using demo_serves by (simp add: serves_or_fails_def) (simp add: loadRegistry_def)
  from registry_follows_seed [OF p s this demo_roster_distinct] p first_station_mem show ?thesis by blast
qed

theorem started_processor_sound_witness:
  "\<exists>p v g. processor_main main_fuel demo_startup = Some (Inr p) \<and> v \<in> set (p_an p) \<and> 0 < g_committed g 0
     \<and> accounted steady_kafka (ah_writers (wk_handle v)) (w_k (g_world (g :: (mem, bytes broker) world group))) (g_log g 0 ! 0)"
proof -
  define p where "p = start_groups (fill_defaults demo_config) \<lparr>snap = demo_snap\<rparr>"
  note p = demo_processor [folded p_def]
  have ok: "config_ok (fill_defaults demo_config)" by (rule fill_defaults_ok) (simp add: demo_config_def)
  obtain v u where vu: "v \<in> set (p_an p)" "u \<in> set (p_rt p)" "0 < wk_size v"
    using start_groups_ok [OF ok, of "\<lparr>snap = demo_snap\<rparr>"] unfolding p_def [symmetric] group_ok_def list_all_iff
    by (metis list.set_sel(1))
  have c: "cf_StateTTLSec (p_cfg p) \<le> 9223372036" "cf_DedupTTLSec (p_cfg p) \<le> 9223372036"
    by (simp_all add: p_def start_groups_sel fill_defaults_def default_limits_def demo_config_def or_default_def)
  have wf: "state_wf (mem_redis True) (rw_r demo_rt_world)" by (simp add: demo_rt_world_def empty_wf)
  obtain g where g: "group_reach (wk_size v) (flush steady_keys steady_kafka (wk_handle v))
      (flush_crash steady_keys steady_kafka (wk_handle v)) demo_world g" "0 < g_committed g 0"
    using demo_group [OF vu(3)] by blast
  from started_processor_sound [OF p vu(1,2) c steady_env.redis_keys_axioms steady_env.kafka_log_axioms demo_window(2)
      mem.redis_hash_axioms wf g(1) group_reach.start] p vu(1) g(2) show ?thesis by blast
qed

theorem simulated_events_are_accepted_witness:
  "\<exists>(w :: int sim) reg ts. sim_event \<in> set (si_sent w) \<and> live_registry (seeded_tables (roster_of half_rand demo_cfg)) reg
     \<and> Validate sim_event reg reg = Inr ts"
proof -
  obtain w where w: "deployed half_rand (demo_env True) (demo_env False) demo_tables (demo_run w) (seeded_tables (roster_of half_rand demo_cfg))"
    "sim_event \<in> set (si_sent w)" using demo_deployed by blast
  obtain reg where reg: "live_registry (seeded_tables (roster_of half_rand demo_cfg)) reg" using demo_live by blast
  have "sim_event \<in> set (si_sent (ru_sim (demo_run w)))" using w(2) by (simp add: demo_run_def)
  with simulated_events_are_accepted [OF half.rand_source_axioms w(1) run_start reg reg] w(2) reg show ?thesis by blast
qed

text \<open>The simulated event on an empty raw topic, from one goroutine inside \<^verbatim>\<open>Send\<close>.\<close>

definition raw_start :: "(int, bytes broker) producers" where
  "raw_start = producers_start half_rand demo_cfg 1 broker_empty 0"

definition raw_sent :: "(int, bytes broker) producers" where
  "raw_sent = (goto 0 Idle (Send half_rand mem_kafka (NewProducer demo_cfg) True 0 sim_event (ps_w raw_start)) raw_start)\<lparr>ps_taken := [sim_event]\<rparr>"

lemma raw_sent_run: "producer_run half_rand mem_kafka (NewProducer demo_cfg) raw_start raw_sent"
proof -
  have "at_stage 0 Idle raw_start" "ps_taken raw_start = []" by (simp_all add: at_stage_def raw_start_def producers_start_def)
  then show ?thesis using Send_is_a_run [of 0 raw_start "NewProducer demo_cfg" True] by (simp add: raw_sent_def)
qed

definition raw_msg :: kmessage where
  "raw_msg = \<lparr>km_Key = ''TR-IST-0001'', km_Value = sim_payload, km_Time = 1767323045700000000\<rparr>"

lemma raw_sent_has: "k_has mem_kafka (pw_k (ps_w raw_sent)) ''charging-events-raw'' (km_Key raw_msg, km_Value raw_msg)"
proof -
  have k: "StationID sim_event = ''TR-IST-0001''" by (simp add: sim_event_def)
  show ?thesis
    by (simp add: raw_sent_def raw_start_def raw_msg_def Send_def sim_payload_Marshal producers_start_def k new_world_def chance_def
        NewProducer_def demo_cfg_def demo_sim_config_def half_rand_def tape_rand_def sp_write_def broker_write_def broker_empty_def zero_f64)
qed

theorem pipeline_end_to_end_witness:
  "\<exists>v inp x'. flush steady_keys steady_kafka v inp [raw_msg] demo_world = (x', True)
     \<and> produced steady_kafka (ah_writers v) (w_k x') demo_uuid"
proof -
  obtain w where w: "deployed half_rand (demo_env True) (demo_env False) demo_tables (demo_run w) (seeded_tables (roster_of half_rand demo_cfg))"
    "sim_event \<in> set (si_sent w)" using demo_deployed by blast
  obtain reg where reg: "live_registry (seeded_tables (roster_of half_rand demo_cfg)) reg" using demo_live by blast
  define inp where "inp = demo_in\<lparr>fi_regs := \<lambda>_. (reg, reg)\<rparr>"
  define p where "p = start_groups (fill_defaults demo_config) \<lparr>snap = demo_snap\<rparr>"
  note p = demo_processor [folded p_def]
  have ne: "p_an p \<noteq> []" using start_groups_ok [OF fill_defaults_ok] by (simp add: p_def group_ok_def demo_config_def)
  then obtain v where v: "v \<in> set (p_an p)" by (meson list.set_sel(1))
  have t: "kc_TopicDLQ (cf_Kafka (p_cfg p)) \<noteq> kc_TopicClean (cf_Kafka (p_cfg p))"
    by (simp add: p_def start_groups_sel fill_defaults_def default_limits_def demo_config_def)
  obtain x' where x': "flush steady_keys steady_kafka (wk_handle v) inp [raw_msg] demo_world = (x', True)"
    using flush_succeeds [OF steady_write] by (metis prod.collapse)
  have tr: "kc_TopicRaw (cf_Kafka (p_cfg p)) = ''charging-events-raw''"
    by (simp add: p_def start_groups_sel fill_defaults_def default_limits_def demo_config_def)
  have b: "k_has mem_kafka (pw_k (ps_w raw_sent)) (kc_TopicRaw (cf_Kafka (p_cfg p))) (km_Key msg, km_Value msg)"
    if "msg \<in> set [raw_msg]" for msg
    using that raw_sent_has by (simp add: tr)
  have k0: "\<not> k_has mem_kafka broker_empty (kc_TopicRaw (cf_Kafka (p_cfg p))) m" for m :: "bytes \<times> bytes"
    by (simp add: broker_empty_def)
  have rr: "producer_run half_rand mem_kafka (ru_producer (demo_run w)) (producers_start half_rand (ru_cfg (demo_run w)) 1 broker_empty 0) raw_sent"
    using raw_sent_run by (simp add: demo_run_def raw_start_def)
  have tk: "set (ps_taken raw_sent) \<subseteq> set (si_sent w)" using w(2) by (simp add: raw_sent_def)
  have run: "sim_run half_rand (ru_cfg (demo_run w)) (ru_sim (demo_run w)) w" using run_start [of half_rand _ w] by (simp add: demo_run_def)
  have r: "live_registry (seeded_tables (roster_of half_rand demo_cfg)) (fst (fi_regs inp i))
      \<and> live_registry (seeded_tables (roster_of half_rand demo_cfg)) (snd (fi_regs inp i))" for i
    using reg by (simp add: inp_def)
  have "\<exists>e. Decode (km_Value raw_msg) = Inr e \<and> produced steady_kafka (ah_writers (wk_handle v)) (w_k x') (EventID e)"
    using pipeline_end_to_end [OF half.rand_source_axioms w(1) run mem_broker.kafka_log_axioms rr tk k0 p v t steady_env.redis_keys_axioms
        steady_env.kafka_log_axioms demo_window(2) b r x'] by auto
  then have "produced steady_kafka (ah_writers (wk_handle v)) (w_k x') demo_uuid"
    using sim_payload_Decode by (simp add: raw_msg_def sim_event_def)
  with x' show ?thesis by blast
qed


end
